(* ===== verification/Prelude.thy ===== *)
theory Prelude
  imports Main "HOL-Library.Monad_Syntax" "HOL-Library.Word" "HOL-Library.Multiset"
begin

unbundle bit_operations_syntax

text \<open>
  Shared vocabulary of the development: the collections the component proofs draw on, facts on
  options and lists, and the contract of the three-way comparators (\<^verbatim>\<open>Comparator<T>\<close>,
  \<^verbatim>\<open>DoubleComparator\<close>) that the ordered containers are parameterised with.
\<close>

named_theorems avl_defs \<open>unfoldings of the AVL node operations\<close>
named_theorems heap_simps \<open>reads and writes of the node heap\<close>
named_theorems table_simps \<open>projections of hash-table states\<close>

section \<open>Options and lists\<close>

lemma bind_Some_iff [simp]: "Option.bind m f = Some y \<longleftrightarrow> (\<exists>x. m = Some x \<and> f x = Some y)"
  by (cases m) auto

lemma find_append: "List.find P (xs @ ys) = (case List.find P xs of None \<Rightarrow> List.find P ys | Some x \<Rightarrow> Some x)"
  by (induction xs) auto

lemma find_NoneI: "(\<And>x. x \<in> set xs \<Longrightarrow> \<not> P x) \<Longrightarrow> List.find P xs = None"
  by (auto simp: find_None_iff)

lemma find_SomeD: "List.find P xs = Some x \<Longrightarrow> P x \<and> x \<in> set xs"
  by (induction xs) (auto split: if_splits)

lemma filter_id_conv': "(\<And>x. x \<in> set xs \<Longrightarrow> P x) \<Longrightarrow> filter P xs = xs"
  by (simp add: filter_id_conv)

lemma filter_empty_conv': "(\<And>x. x \<in> set xs \<Longrightarrow> \<not> P x) \<Longrightarrow> filter P xs = []"
  by (simp add: filter_empty_conv)

section \<open>Bucket arrays\<close>

text \<open>Facts on a list of buckets whose \<open>i\<close>-th bucket is replaced, as multisets of elements.\<close>

lemma mset_concat_update:
  "i < length bs \<Longrightarrow> mset (concat (bs[i := b])) + mset (bs ! i) = mset (concat bs) + mset b"
proof (induction bs arbitrary: i)
  case (Cons c bs)
  then show ?case by (cases i) (auto simp: ac_simps)
qed simp

lemma mset_nth_subset_concat: "i < length bs \<Longrightarrow> mset (bs ! i) \<subseteq># mset (concat bs)"
  by (induction bs arbitrary: i) (auto simp: nth_Cons split: nat.splits intro: subset_mset.add_increasing)

lemma concat_update_mset:
  assumes "i < length bs" "mset b = mset (bs ! i) - D + A" "D \<subseteq># mset (bs ! i)"
  shows "mset (concat (bs[i := b])) = mset (concat bs) - D + A"
proof (rule multiset_eqI)
  fix x
  have "count (mset (concat (bs[i := b])) + mset (bs ! i)) x = count (mset (concat bs) + mset b) x"
    using mset_concat_update [OF assms(1), of b] by simp
  moreover have "count (mset b) x = count (mset (bs ! i)) x - count D x + count A x"
    unfolding assms(2) by simp
  moreover have "count D x \<le> count (mset (bs ! i)) x" "count (mset (bs ! i)) x \<le> count (mset (concat bs)) x"
    using assms(3) mset_nth_subset_concat [OF assms(1)] by (auto simp: subseteq_mset_def)
  ultimately show "count (mset (concat (bs[i := b]))) x = count (mset (concat bs) - D + A) x"
    by simp
qed

lemma map_of_mset_eq:
  assumes "distinct (map fst xs)" "mset xs = mset ys"
  shows "map_of xs = map_of ys"
proof -
  have "distinct (map fst ys)"
    using assms by (metis mset_eq_imp_distinct_iff mset_map)
  moreover have "set xs = set ys" using assms(2) by (metis set_mset_mset)
  ultimately show ?thesis using assms(1) by (intro map_of_inject_set [THEN iffD2]) auto
qed

text \<open>The map a list of elements with pairwise different keys stands for.\<close>

definition keyed_map :: "('a \<Rightarrow> 'k) \<Rightarrow> 'a list \<Rightarrow> 'k \<rightharpoonup> 'a" where
  "keyed_map gk xs = map_of (map (\<lambda>x. (gk x, x)) xs)"

lemma mset_add_in_set: "mset xs = add_mset x M \<Longrightarrow> x \<in> set xs"
  by (metis set_mset_mset union_single_eq_member)

lemma keyed_map_mset_eq:
  assumes "distinct (map gk xs)" "mset ys = mset xs"
  shows "keyed_map gk ys = keyed_map gk xs" "distinct (map gk ys)" "length ys = length xs"
proof -
  have d: "distinct (map fst (map (\<lambda>x. (gk x, x)) xs))" using assms(1) by (simp add: comp_def)
  show "keyed_map gk ys = keyed_map gk xs"
    unfolding keyed_map_def by (rule map_of_mset_eq [OF d, symmetric]) (simp add: assms(2))
  have "mset (map gk ys) = mset (map gk xs)" using assms(2) by simp
  then show "distinct (map gk ys)" using assms(1) mset_eq_imp_distinct_iff by blast
  show "length ys = length xs" using assms(2) by (metis size_mset)
qed

lemma keyed_map_Some: "distinct (map gk xs) \<Longrightarrow> x \<in> set xs \<Longrightarrow> keyed_map gk xs (gk x) = Some x"
  unfolding keyed_map_def by (rule map_of_is_SomeI) (auto simp: comp_def)

lemma keyed_map_None: "(\<And>x. x \<in> set xs \<Longrightarrow> gk x \<noteq> k) \<Longrightarrow> keyed_map gk xs k = None"
  unfolding keyed_map_def map_of_eq_None_iff by fastforce

lemma keyed_map_NoneD: "keyed_map gk xs k = None \<Longrightarrow> x \<in> set xs \<Longrightarrow> gk x \<noteq> k"
  unfolding keyed_map_def map_of_eq_None_iff by (auto simp: image_image)

lemma keyed_map_SomeD: "keyed_map gk xs k = Some x \<Longrightarrow> x \<in> set xs \<and> gk x = k"
  by (auto simp: keyed_map_def dest: map_of_SomeD)

lemma keyed_map_insert:
  assumes "distinct (map gk xs)" "keyed_map gk xs (gk x) = None" "mset ys = add_mset x (mset xs)"
  shows "keyed_map gk ys = (keyed_map gk xs)(gk x \<mapsto> x)" "distinct (map gk ys)" "length ys = Suc (length xs)"
proof -
  have ms: "mset ys = mset (x # xs)" using assms(3) by simp
  have d: "distinct (map gk (x # xs))" using assms(1) keyed_map_NoneD [OF assms(2)] by force
  note eq = keyed_map_mset_eq [OF d ms]
  show "keyed_map gk ys = (keyed_map gk xs)(gk x \<mapsto> x)" using eq(1) by (simp add: keyed_map_def)
  show "distinct (map gk ys)" "length ys = Suc (length xs)" using eq by simp_all
qed

lemma keyed_map_remove:
  assumes "distinct (map gk xs)" "mset xs = add_mset x (mset ys)"
  shows "keyed_map gk ys = (keyed_map gk xs)(gk x := None)" "distinct (map gk ys)" "length xs = Suc (length ys)"
proof -
  have ms: "mset (x # ys) = mset xs" using assms(2) by simp
  note eq = keyed_map_mset_eq [OF assms(1) ms]
  have none: "keyed_map gk ys (gk x) = None" using eq(2) by (intro keyed_map_None) (metis distinct.simps(2) imageI list.set_map list.simps(9))
  have "keyed_map gk xs = (keyed_map gk ys)(gk x \<mapsto> x)" using eq(1) by (simp add: keyed_map_def)
  then show "keyed_map gk ys = (keyed_map gk xs)(gk x := None)" using none by (auto simp: fun_eq_iff)
  show "distinct (map gk ys)" "length xs = Suc (length ys)" using eq by simp_all
qed

lemma and_nat_le: "(a AND b :: nat) \<le> b"
proof -
  have "int (a AND b) \<le> int b" unfolding of_nat_and_eq by (simp add: AND_upper2)
  then show ?thesis by simp
qed

section \<open>Three-way comparators\<close>

text \<open>
  A comparator returns a negative, zero or positive int. The containers rely on its sign being
  antisymmetric and on its order being transitive; two keys it calls equal need not be equal.
\<close>

locale comparator =
  fixes cmp :: "'k \<Rightarrow> 'k \<Rightarrow> int"
  assumes cmp_sym: "cmp x y < 0 \<longleftrightarrow> 0 < cmp y x"
    and cmp_trans: "cmp x y \<le> 0 \<Longrightarrow> cmp y z \<le> 0 \<Longrightarrow> cmp x z \<le> 0"
begin

lemma cmp_refl [simp]: "cmp x x = 0"
  using cmp_sym [of x x] by linarith

lemma cmp_eq_sym: "cmp x y = 0 \<longleftrightarrow> cmp y x = 0"
  using cmp_sym [of x y] cmp_sym [of y x] by linarith

lemma cmp_le_less_trans: "cmp x y \<le> 0 \<Longrightarrow> cmp y z < 0 \<Longrightarrow> cmp x z < 0"
  using cmp_trans [of z x y] cmp_sym [of x z] cmp_sym [of y z] cmp_sym [of z x] cmp_eq_sym [of x z]
  by (smt (verit) cmp_sym cmp_trans)

lemma cmp_less_le_trans: "cmp x y < 0 \<Longrightarrow> cmp y z \<le> 0 \<Longrightarrow> cmp x z < 0"
  by (smt (verit) cmp_sym cmp_trans)

lemma cmp_less_trans: "cmp x y < 0 \<Longrightarrow> cmp y z < 0 \<Longrightarrow> cmp x z < 0"
  by (rule cmp_le_less_trans) auto

lemma cmp_eq_less: "cmp x y = 0 \<Longrightarrow> cmp z x < 0 \<longleftrightarrow> cmp z y < 0"
  by (smt (verit) cmp_eq_sym cmp_less_le_trans)

lemma cmp_eq_greater: "cmp x y = 0 \<Longrightarrow> cmp x z < 0 \<longleftrightarrow> cmp y z < 0"
  by (smt (verit) cmp_eq_sym cmp_le_less_trans)

end

end
