(* ===== verification/AvlUtil.thy ===== *)
theory AvlUtil
  imports Prelude
begin

text \<open>
  The AVL node operations of \<^verbatim>\<open>algo/internal/avl_node.h\<close> and \<^verbatim>\<open>avl_util.h\<close>.

  A node is a value carrying its stored \<^verbatim>\<open>height\<close> field; parent pointers are represented by the
  path (a list of directions) from the root to a node, so that \<^verbatim>\<open>node->parent\<close> is the path without
  its last step and the null parent of the root is the end of the path. A dereferenced null pointer
  is the result \<^term>\<open>None\<close>. The retracing loops \<^verbatim>\<open>_InsertFixup\<close> and \<^verbatim>\<open>_EraseFixup\<close> walk the path back
  to the root; the boolean returned with a subtree says whether the loop is still running above it.

  Shown: with stored heights that are never negative no operation dereferences null; linking and
  unlinking act on the in-order sequence as list insertion and removal; the AVL invariant (stored
  heights exact, balance factors in -1..1) is kept by both; iteration visits the in-order sequence.
\<close>

section \<open>Nodes\<close>

datatype 'a avl_node = is_Null: Null | Node "'a avl_node" 'a int "'a avl_node"

datatype dir = L | R

fun node_height :: "'a avl_node \<Rightarrow> int" where
  "node_height Null = 0"
| "node_height (Node l a h r) = h"

definition AVL_MAX :: "int \<Rightarrow> int \<Rightarrow> int" where
  "AVL_MAX x y = (if x < y then y else x)"

fun UpdateHeight :: "'a avl_node \<Rightarrow> 'a avl_node" where
  "UpdateHeight Null = Null"
| "UpdateHeight (Node l a h r) = Node l a (AVL_MAX (node_height l) (node_height r) + 1) r"

fun UpdateHeight_left :: "'a avl_node \<Rightarrow> 'a avl_node" where
  "UpdateHeight_left Null = Null"
| "UpdateHeight_left (Node l a h r) = Node (UpdateHeight l) a h r"

fun UpdateHeight_right :: "'a avl_node \<Rightarrow> 'a avl_node" where
  "UpdateHeight_right Null = Null"
| "UpdateHeight_right (Node l a h r) = Node l a h (UpdateHeight r)"

section \<open>Rotations and rebalancing\<close>

fun RotateLeft :: "'a avl_node \<Rightarrow> 'a avl_node option" where
  "RotateLeft (Node l a h (Node rl b k rr)) = Some (Node (Node l a h rl) b k rr)"
| "RotateLeft _ = None"

fun RotateRight :: "'a avl_node \<Rightarrow> 'a avl_node option" where
  "RotateRight (Node (Node ll b k lr) a h r) = Some (Node ll b k (Node lr a h r))"
| "RotateRight _ = None"

fun FixupLeftHeavy :: "'a avl_node \<Rightarrow> 'a avl_node option" where
  "FixupLeftHeavy (Node (Node ll b k lr) a h r) =
     do { left \<leftarrow> (if node_height ll < node_height lr
                  then map_option (UpdateHeight \<circ> UpdateHeight_left) (RotateLeft (Node ll b k lr))
                  else Some (Node ll b k lr));
          map_option (UpdateHeight \<circ> UpdateHeight_right) (RotateRight (Node left a h r)) }"
| "FixupLeftHeavy _ = None"

fun FixupRigtHeavy :: "'a avl_node \<Rightarrow> 'a avl_node option" where
  "FixupRigtHeavy (Node l a h (Node rl b k rr)) =
     do { right \<leftarrow> (if node_height rl > node_height rr
                   then map_option (UpdateHeight \<circ> UpdateHeight_right) (RotateRight (Node rl b k rr))
                   else Some (Node rl b k rr));
          map_option (UpdateHeight \<circ> UpdateHeight_left) (RotateLeft (Node l a h right)) }"
| "FixupRigtHeavy _ = None"

definition Rebalance :: "int \<Rightarrow> 'a avl_node \<Rightarrow> ('a avl_node \<times> bool) option" where
  "Rebalance bf node =
     (if 2 \<le> bf then map_option (\<lambda>n. (n, True)) (FixupLeftHeavy node)
      else if bf \<le> - 2 then map_option (\<lambda>n. (n, True)) (FixupRigtHeavy node)
      else Some (node, True))"

text \<open>One iteration of the retracing loops; the flag is False when the loop breaks.\<close>

fun InsertFixup_step :: "'a avl_node \<Rightarrow> ('a avl_node \<times> bool) option" where
  "InsertFixup_step Null = Some (Null, False)"
| "InsertFixup_step (Node l a h r) =
     (let lh = node_height l; rh = node_height r; h' = AVL_MAX lh rh + 1 in
      if h = h' then Some (Node l a h r, False)
      else Rebalance (lh - rh) (Node l a h' r))"

fun EraseFixup_step :: "'a avl_node \<Rightarrow> ('a avl_node \<times> bool) option" where
  "EraseFixup_step Null = Some (Null, False)"
| "EraseFixup_step (Node l a h r) =
     (let lh = node_height l; rh = node_height r; h' = AVL_MAX lh rh + 1; bf = lh - rh in
      if h = h' \<and> - 1 \<le> bf \<and> bf \<le> 1 then Some (Node l a h r, False)
      else Rebalance bf (Node l a h' r))"

definition fixup :: "('a avl_node \<Rightarrow> ('a avl_node \<times> bool) option) \<Rightarrow> bool \<Rightarrow> 'a avl_node
                       \<Rightarrow> ('a avl_node \<times> bool) option" where
  "fixup step go node = (if go then step node else Some (node, False))"

section \<open>Linking a node into an empty slot\<close>

text \<open>
  \<^verbatim>\<open>_LinkSlot\<close> stores the node, of height \<open>hx\<close>, in the empty slot a path leads to, and
  \<^verbatim>\<open>_InsertFixup\<close> retraces that path. A path that leads to no empty slot is a wild write.
\<close>

fun LinkSlot_InsertFixup :: "'a \<Rightarrow> int \<Rightarrow> dir list \<Rightarrow> 'a avl_node \<Rightarrow> ('a avl_node \<times> bool) option" where
  "LinkSlot_InsertFixup x hx [] Null = Some (Node Null x hx Null, True)"
| "LinkSlot_InsertFixup x hx (L # p) (Node l a h r) =
     do { (l', go) \<leftarrow> LinkSlot_InsertFixup x hx p l; fixup InsertFixup_step go (Node l' a h r) }"
| "LinkSlot_InsertFixup x hx (R # p) (Node l a h r) =
     do { (r', go) \<leftarrow> LinkSlot_InsertFixup x hx p r; fixup InsertFixup_step go (Node l a h r') }"
| "LinkSlot_InsertFixup x hx _ _ = None"

section \<open>Unlinking a node\<close>

text \<open>Unlinking the minimum of a right subtree and retracing up to the top of that subtree.\<close>

fun ExtractMin :: "'a avl_node \<Rightarrow> ('a \<times> 'a avl_node \<times> bool) option" where
  "ExtractMin Null = None"
| "ExtractMin (Node l a h r) =
     (if is_Null l then Some (a, r, True)
      else do { (m, l', go) \<leftarrow> ExtractMin l;
                (t, go') \<leftarrow> fixup EraseFixup_step go (Node l' a h r);
                Some (m, t, go') })"

fun Erase_unlink :: "'a avl_node \<Rightarrow> ('a avl_node \<times> bool) option" where
  "Erase_unlink Null = None"
| "Erase_unlink (Node l a h r) =
     (if \<not> is_Null l \<and> \<not> is_Null r
      then do { (m, r', go) \<leftarrow> ExtractMin r; fixup EraseFixup_step go (Node l m h r') }
      else Some (if \<not> is_Null l then l else r, True))"

fun Erase_node :: "dir list \<Rightarrow> 'a avl_node \<Rightarrow> ('a avl_node \<times> bool) option" where
  "Erase_node [] t = Erase_unlink t"
| "Erase_node (L # p) (Node l a h r) =
     do { (l', go) \<leftarrow> Erase_node p l; fixup EraseFixup_step go (Node l' a h r) }"
| "Erase_node (R # p) (Node l a h r) =
     do { (r', go) \<leftarrow> Erase_node p r; fixup EraseFixup_step go (Node l a h r') }"
| "Erase_node _ Null = None"

section \<open>Positions and iteration\<close>

fun node_at :: "dir list \<Rightarrow> 'a avl_node \<Rightarrow> 'a avl_node" where
  "node_at [] t = t"
| "node_at (L # p) (Node l a h r) = node_at p l"
| "node_at (R # p) (Node l a h r) = node_at p r"
| "node_at _ Null = Null"

fun value_at :: "dir list \<Rightarrow> 'a avl_node \<Rightarrow> 'a option" where
  "value_at p t = (case node_at p t of Null \<Rightarrow> None | Node l a h r \<Rightarrow> Some a)"

fun leftmost :: "'a avl_node \<Rightarrow> dir list" where
  "leftmost Null = []"
| "leftmost (Node l a h r) = (if is_Null l then [] else L # leftmost l)"

fun rightmost :: "'a avl_node \<Rightarrow> dir list" where
  "rightmost Null = []"
| "rightmost (Node l a h r) = (if is_Null r then [] else R # rightmost r)"

definition GetFirstNode :: "'a avl_node \<Rightarrow> dir list option" where
  "GetFirstNode t = (if is_Null t then None else Some (leftmost t))"

definition GetLastNode :: "'a avl_node \<Rightarrow> dir list option" where
  "GetLastNode t = (if is_Null t then None else Some (rightmost t))"

text \<open>Climbing parents from a reversed path until it was left through the given side.\<close>

fun climb :: "dir \<Rightarrow> dir list \<Rightarrow> dir list option" where
  "climb d [] = None"
| "climb d (e # p) = (if e = d then Some (rev p) else climb d p)"

definition GetNextNode :: "'a avl_node \<Rightarrow> dir list \<Rightarrow> dir list option" where
  "GetNextNode t p = (case node_at p t of
      Null \<Rightarrow> None
    | Node l a h r \<Rightarrow> if \<not> is_Null r then Some (p @ R # leftmost r) else climb L (rev p))"

definition GetPrevNode :: "'a avl_node \<Rightarrow> dir list \<Rightarrow> dir list option" where
  "GetPrevNode t p = (case node_at p t of
      Null \<Rightarrow> None
    | Node l a h r \<Rightarrow> if \<not> is_Null l then Some (p @ L # rightmost l) else climb R (rev p))"

section \<open>In-order sequence, positions as indices\<close>

fun inorder :: "'a avl_node \<Rightarrow> 'a list" where
  "inorder Null = []"
| "inorder (Node l a h r) = inorder l @ a # inorder r"

abbreviation avl_size :: "'a avl_node \<Rightarrow> nat" where
  "avl_size t \<equiv> length (inorder t)"

fun pos_index :: "dir list \<Rightarrow> 'a avl_node \<Rightarrow> nat" where
  "pos_index [] Null = 0"
| "pos_index [] (Node l a h r) = avl_size l"
| "pos_index (L # p) (Node l a h r) = pos_index p l"
| "pos_index (R # p) (Node l a h r) = Suc (avl_size l + pos_index p r)"
| "pos_index (_ # _) Null = 0"

text \<open>A path to a node, and a path to an empty slot.\<close>

abbreviation valid_pos :: "dir list \<Rightarrow> 'a avl_node \<Rightarrow> bool" where
  "valid_pos p t \<equiv> \<not> is_Null (node_at p t)"

fun valid_slot :: "dir list \<Rightarrow> 'a avl_node \<Rightarrow> bool" where
  "valid_slot [] t = is_Null t"
| "valid_slot (L # p) (Node l a h r) = valid_slot p l"
| "valid_slot (R # p) (Node l a h r) = valid_slot p r"
| "valid_slot (_ # _) Null = False"

lemma is_Null_inorder: "is_Null t \<longleftrightarrow> inorder t = []"
  by (cases t) auto

lemma pos_index_less: "valid_pos p t \<Longrightarrow> pos_index p t < avl_size t"
  by (induction p t rule: pos_index.induct) auto

lemma slot_index_le: "valid_slot p t \<Longrightarrow> pos_index p t \<le> avl_size t"
  by (induction p t rule: pos_index.induct) (auto simp: is_Null_inorder)

lemma value_at_pos: "valid_pos p t \<Longrightarrow> value_at p t = Some (inorder t ! pos_index p t)"
  by (induction p t rule: pos_index.induct) (auto simp: nth_append dest: pos_index_less)

lemma path_cases [case_names Nil L R]:
  obtains "q = []" | p where "q = L # p" | p where "q = R # p"
  by (metis dir.exhaust neq_Nil_conv)

lemma pos_index_inj:
  "valid_pos p t \<Longrightarrow> valid_pos q t \<Longrightarrow> pos_index p t = pos_index q t \<Longrightarrow> p = q"
proof (induction p t arbitrary: q rule: pos_index.induct)
  case (2 l a h r)
  then show ?case by (cases q rule: path_cases) (auto dest: pos_index_less)
next
  case (3 p l a h r)
  from 3(2-4) pos_index_less [of p l] show ?case
    by (cases q rule: path_cases) (auto intro: 3(1))
next
  case (4 p l a h r)
  from 4(2-4) pos_index_less [of "tl q" l] show ?case
    by (cases q rule: path_cases) (auto intro: 4(1))
qed auto

lemma leftmost_pos: "\<not> is_Null t \<Longrightarrow> valid_pos (leftmost t) t \<and> pos_index (leftmost t) t = 0"
  by (induction t) (auto simp: is_Null_inorder)

lemma rightmost_pos:
  "\<not> is_Null t \<Longrightarrow> valid_pos (rightmost t) t \<and> Suc (pos_index (rightmost t) t) = avl_size t"
  by (induction t) (auto simp: is_Null_inorder)

lemma node_at_append: "node_at (p @ q) t = node_at q (node_at p t)"
proof (induction p t rule: node_at.induct)
  case (4 d p)
  then show ?case by (induction q "Null :: 'a avl_node" rule: node_at.induct) auto
qed auto

lemma climb_append: "climb d (p @ q) = (case climb d p of None \<Rightarrow> climb d q | Some s \<Rightarrow> Some (rev q @ s))"
  by (induction p) auto

text \<open>The parent-climbing iterator steps, as recursion down the path.\<close>

lemma GetNextNode_simps:
  "GetNextNode (Node l a h r) [] = (if is_Null r then None else Some (R # leftmost r))"
  "GetNextNode (Node l a h r) (L # p) =
     (if valid_pos p l then (case GetNextNode l p of None \<Rightarrow> Some [] | Some q \<Rightarrow> Some (L # q)) else None)"
  "GetNextNode (Node l a h r) (R # p) =
     (if valid_pos p r then (case GetNextNode r p of None \<Rightarrow> None | Some q \<Rightarrow> Some (R # q)) else None)"
  by (auto simp: GetNextNode_def climb_append split: avl_node.splits option.splits)

lemma GetPrevNode_simps:
  "GetPrevNode (Node l a h r) [] = (if is_Null l then None else Some (L # rightmost l))"
  "GetPrevNode (Node l a h r) (R # p) =
     (if valid_pos p r then (case GetPrevNode r p of None \<Rightarrow> Some [] | Some q \<Rightarrow> Some (R # q)) else None)"
  "GetPrevNode (Node l a h r) (L # p) =
     (if valid_pos p l then (case GetPrevNode l p of None \<Rightarrow> None | Some q \<Rightarrow> Some (L # q)) else None)"
  by (auto simp: GetPrevNode_def climb_append split: avl_node.splits option.splits)

lemma GetNextNode_step:
  "valid_pos p t \<Longrightarrow> (case GetNextNode t p of
      None \<Rightarrow> Suc (pos_index p t) = avl_size t
    | Some q \<Rightarrow> valid_pos q t \<and> pos_index q t = Suc (pos_index p t))"
proof (induction p t rule: pos_index.induct)
  case (2 l a h r)
  then show ?case using leftmost_pos [of r] by (auto simp: GetNextNode_simps is_Null_inorder)
next
  case (3 p l a h r)
  then show ?case by (auto simp: GetNextNode_simps split: option.splits)
next
  case (4 p l a h r)
  then show ?case by (auto simp: GetNextNode_simps split: option.splits)
qed auto

lemma GetPrevNode_step:
  "valid_pos p t \<Longrightarrow> (case GetPrevNode t p of
      None \<Rightarrow> pos_index p t = 0
    | Some q \<Rightarrow> valid_pos q t \<and> Suc (pos_index q t) = pos_index p t)"
proof (induction p t rule: pos_index.induct)
  case (2 l a h r)
  then show ?case using rightmost_pos [of l] by (auto simp: GetPrevNode_simps is_Null_inorder)
next
  case (3 p l a h r)
  then show ?case by (auto simp: GetPrevNode_simps split: option.splits)
next
  case (4 p l a h r)
  then show ?case by (auto simp: GetPrevNode_simps split: option.splits)
qed auto

section \<open>Linking and unlinking on the in-order sequence\<close>

text \<open>
  Stored heights are never negative. This weak invariant, which survives nodes linked with a stale
  or zero height, is all that null-safety and the in-order behaviour need.
\<close>

fun heights_nonneg :: "'a avl_node \<Rightarrow> bool" where
  "heights_nonneg Null = True"
| "heights_nonneg (Node l a h r) = (0 \<le> h \<and> heights_nonneg l \<and> heights_nonneg r)"

definition yields :: "'a list \<Rightarrow> ('a avl_node \<times> bool) option \<Rightarrow> bool" where
  "yields xs res = (case res of None \<Rightarrow> False | Some (t, go) \<Rightarrow> heights_nonneg t \<and> inorder t = xs)"

lemma yieldsE:
  assumes "yields xs res"
  obtains t go where "res = Some (t, go)" "heights_nonneg t" "inorder t = xs"
  using assms by (auto simp: yields_def split: option.splits)

lemma node_height_nonneg: "heights_nonneg t \<Longrightarrow> 0 \<le> node_height t"
  by (cases t) auto

lemma AVL_MAX_max [simp]: "AVL_MAX x y = max x y"
  by (simp add: AVL_MAX_def)

lemma UpdateHeight_simps [simp]:
  "inorder (UpdateHeight t) = inorder t"
  "heights_nonneg t \<Longrightarrow> heights_nonneg (UpdateHeight t)"
  by (cases t; auto dest: node_height_nonneg)+

lemma FixupLeftHeavy_yields:
  assumes "heights_nonneg (Node l a h r)" "2 + node_height r \<le> node_height l"
  shows "\<exists>t. FixupLeftHeavy (Node l a h r) = Some t \<and> heights_nonneg t
             \<and> inorder t = inorder l @ a # inorder r"
proof -
  from assms obtain ll b k lr where l: "l = Node ll b k lr"
    using node_height_nonneg [of r] by (cases l) auto
  show ?thesis
    using assms node_height_nonneg [of ll] node_height_nonneg [of r] by (cases lr) (auto simp: l le_max_iff_disj)
qed

lemma FixupRigtHeavy_yields:
  assumes "heights_nonneg (Node l a h r)" "2 + node_height l \<le> node_height r"
  shows "\<exists>t. FixupRigtHeavy (Node l a h r) = Some t \<and> heights_nonneg t
             \<and> inorder t = inorder l @ a # inorder r"
proof -
  from assms obtain rl b k rr where r: "r = Node rl b k rr"
    using node_height_nonneg [of l] by (cases r) auto
  show ?thesis
    using assms node_height_nonneg [of rr] node_height_nonneg [of l] by (cases rl) (auto simp: r le_max_iff_disj)
qed

lemma Rebalance_yields:
  "heights_nonneg (Node l a h r) \<Longrightarrow>
   yields (inorder l @ a # inorder r) (Rebalance (node_height l - node_height r) (Node l a h r))"
  using FixupLeftHeavy_yields [of l a h r] FixupRigtHeavy_yields [of l a h r]
  by (auto simp: Rebalance_def yields_def)

lemma InsertFixup_step_yields: "heights_nonneg t \<Longrightarrow> yields (inorder t) (InsertFixup_step t)"
proof (cases t)
  case (Node l a h r)
  assume "heights_nonneg t"
  with Node Rebalance_yields [of l a "max (node_height l) (node_height r) + 1" r] show ?thesis
    by (auto simp: Let_def yields_def le_max_iff_disj dest: node_height_nonneg)
qed (simp add: yields_def)

lemma EraseFixup_step_yields: "heights_nonneg t \<Longrightarrow> yields (inorder t) (EraseFixup_step t)"
proof (cases t)
  case (Node l a h r)
  assume "heights_nonneg t"
  with Node Rebalance_yields [of l a "max (node_height l) (node_height r) + 1" r] show ?thesis
    by (auto simp: Let_def yields_def le_max_iff_disj dest: node_height_nonneg)
qed (simp add: yields_def)

lemma fixup_yields:
  "heights_nonneg t \<Longrightarrow> xs = inorder t \<Longrightarrow> yields xs (fixup InsertFixup_step go t)"
  "heights_nonneg t \<Longrightarrow> xs = inorder t \<Longrightarrow> yields xs (fixup EraseFixup_step go t)"
  using InsertFixup_step_yields [of t] EraseFixup_step_yields [of t]
  by (auto simp: fixup_def) (auto simp: yields_def)

lemma LinkSlot_yields:
  "heights_nonneg t \<Longrightarrow> 0 \<le> hx \<Longrightarrow> valid_slot p t \<Longrightarrow>
   yields (take (pos_index p t) (inorder t) @ x # drop (pos_index p t) (inorder t))
          (LinkSlot_InsertFixup x hx p t)"
proof (induction x hx p t rule: LinkSlot_InsertFixup.induct)
  case (2 x hx p l a h r)
  then obtain l' go where l: "LinkSlot_InsertFixup x hx p l = Some (l', go)" "heights_nonneg l'"
      "inorder l' = take (pos_index p l) (inorder l) @ x # drop (pos_index p l) (inorder l)"
    by (auto elim: yieldsE)
  with 2(2-4) slot_index_le [of p l] show ?case
    by (auto intro!: fixup_yields)
next
  case (3 x hx p l a h r)
  then obtain r' go where r: "LinkSlot_InsertFixup x hx p r = Some (r', go)" "heights_nonneg r'"
      "inorder r' = take (pos_index p r) (inorder r) @ x # drop (pos_index p r) (inorder r)"
    by (auto elim: yieldsE)
  with 3(2-4) slot_index_le [of p r] show ?case
    by (auto intro!: fixup_yields)
qed (auto simp: yields_def)

lemma ExtractMin_yields:
  "heights_nonneg t \<Longrightarrow> \<not> is_Null t \<Longrightarrow>
   \<exists>m t' go. ExtractMin t = Some (m, t', go) \<and> heights_nonneg t' \<and> inorder t = m # inorder t'"
proof (induction t)
  case (Node l a h r)
  show ?case
  proof (cases "is_Null l")
    case True
    with Node show ?thesis by (auto simp: is_Null_inorder)
  next
    case False
    with Node obtain m l' go where l: "ExtractMin l = Some (m, l', go)" "heights_nonneg l'"
        "inorder l = m # inorder l'"
      by auto
    with Node.prems have "yields (inorder l' @ a # inorder r) (fixup EraseFixup_step go (Node l' a h r))"
      by (intro fixup_yields) auto
    with l False show ?thesis by (auto elim: yieldsE)
  qed
qed auto

lemma Erase_unlink_yields:
  assumes "heights_nonneg (Node l a h r)"
  shows "yields (inorder l @ inorder r) (Erase_unlink (Node l a h r))"
proof (cases "\<not> is_Null l \<and> \<not> is_Null r")
  case True
  with assms ExtractMin_yields [of r] obtain m r' go where
    "ExtractMin r = Some (m, r', go)" "heights_nonneg r'" "inorder r = m # inorder r'"
    by auto
  with True assms show ?thesis by (auto intro!: fixup_yields)
next
  case False
  with assms show ?thesis by (auto simp: yields_def is_Null_inorder)
qed

lemma Erase_node_yields:
  "heights_nonneg t \<Longrightarrow> valid_pos p t \<Longrightarrow>
   yields (take (pos_index p t) (inorder t) @ drop (Suc (pos_index p t)) (inorder t)) (Erase_node p t)"
proof (induction p t rule: Erase_node.induct)
  case (1 t)
  then show ?case by (cases t) (auto intro: Erase_unlink_yields simp del: Erase_unlink.simps)
next
  case (2 p l a h r)
  then obtain l' go where l: "Erase_node p l = Some (l', go)" "heights_nonneg l'"
      "inorder l' = take (pos_index p l) (inorder l) @ drop (Suc (pos_index p l)) (inorder l)"
    by (auto elim: yieldsE)
  with 2(2-3) pos_index_less [of p l] show ?case
    by (auto intro!: fixup_yields)
next
  case (3 p l a h r)
  then obtain r' go where r: "Erase_node p r = Some (r', go)" "heights_nonneg r'"
      "inorder r' = take (pos_index p r) (inorder r) @ drop (Suc (pos_index p r)) (inorder r)"
    by (auto elim: yieldsE)
  with 3(2-3) pos_index_less [of p r] show ?case
    by (auto intro!: fixup_yields)
qed auto

section \<open>Balance\<close>

text \<open>
  The AVL invariant: exact stored heights and balance factors in -1..1. At the root the stored
  height may lag behind, since the special case for a second node links it without retracing.
\<close>

fun avl :: "'a avl_node \<Rightarrow> bool" where
  "avl Null = True"
| "avl (Node l a h r) = (avl l \<and> avl r \<and> \<bar>node_height l - node_height r\<bar> \<le> 1
     \<and> h = max (node_height l) (node_height r) + 1)"

fun avl_root :: "'a avl_node \<Rightarrow> bool" where
  "avl_root Null = True"
| "avl_root (Node l a h r) = (avl l \<and> avl r \<and> \<bar>node_height l - node_height r\<bar> \<le> 1
     \<and> 0 \<le> h \<and> h \<le> max (node_height l) (node_height r) + 1)"

lemma avl_nonneg: "avl t \<Longrightarrow> heights_nonneg t"
  by (induction t) (auto dest: node_height_nonneg)

lemmas avl_height_nonneg = avl_nonneg [THEN node_height_nonneg]

lemma avl_imp_root: "avl t \<Longrightarrow> avl_root t"
  by (cases t) (auto dest: avl_height_nonneg)

lemma avl_root_nonneg: "avl_root t \<Longrightarrow> heights_nonneg t"
  by (cases t) (auto intro: avl_nonneg)

lemma avl_height_0: "avl t \<Longrightarrow> node_height t \<le> 0 \<Longrightarrow> t = Null"
  by (cases t) (auto dest!: avl_height_nonneg)

text \<open>What one retracing step establishes from balanced children whose heights differ by at most 2.\<close>

definition rebalanced :: "int \<Rightarrow> int \<Rightarrow> int \<Rightarrow> 'a avl_node \<times> bool \<Rightarrow> bool" where
  "rebalanced lh rh h res = (case res of (t, go) \<Rightarrow> avl t
     \<and> (node_height t = max lh rh + 1 \<or> \<bar>lh - rh\<bar> = 2 \<and> node_height t = max lh rh)
     \<and> (\<not> go \<longrightarrow> node_height t = h))"

lemma FixupLeftHeavy_avl:
  assumes "avl l" "avl r" "node_height l = node_height r + 2" "FixupLeftHeavy (Node l a h r) = Some t"
  shows "avl t \<and> (node_height t = node_height l + 1 \<or> node_height t = node_height l)"
proof -
  from assms obtain ll b k lr where l: "l = Node ll b k lr"
    by (cases l) (auto dest: avl_height_nonneg)
  show ?thesis
  proof (cases "node_height ll < node_height lr")
    case True
    with assms l obtain lrl c m lrr where lr: "lr = Node lrl c m lrr"
      by (cases lr) (auto dest: avl_height_nonneg)
    from assms True show ?thesis by (auto simp: l lr max_def split: if_splits)
  next
    case False
    with assms show ?thesis by (auto simp: l max_def split: if_splits)
  qed
qed

lemma FixupRigtHeavy_avl:
  assumes "avl l" "avl r" "node_height r = node_height l + 2" "FixupRigtHeavy (Node l a h r) = Some t"
  shows "avl t \<and> (node_height t = node_height r + 1 \<or> node_height t = node_height r)"
proof -
  from assms obtain rl b k rr where r: "r = Node rl b k rr"
    by (cases r) (auto dest: avl_height_nonneg)
  show ?thesis
  proof (cases "node_height rr < node_height rl")
    case True
    with assms r obtain rll c m rlr where rl: "rl = Node rll c m rlr"
      by (cases rl) (auto dest: avl_height_nonneg)
    from assms True show ?thesis by (auto simp: r rl max_def split: if_splits)
  next
    case False
    with assms show ?thesis by (auto simp: r max_def split: if_splits)
  qed
qed

lemma Rebalance_avl:
  assumes "avl l" "avl r" "\<bar>node_height l - node_height r\<bar> \<le> 2"
    "Rebalance (node_height l - node_height r) (Node l a (max (node_height l) (node_height r) + 1) r) = Some res"
  shows "rebalanced (node_height l) (node_height r) h res"
proof -
  let ?n = "Node l a (max (node_height l) (node_height r) + 1) r"
  consider (left) "node_height l = node_height r + 2" | (right) "node_height r = node_height l + 2"
    | (even) "\<bar>node_height l - node_height r\<bar> \<le> 1"
    using assms(3) by linarith
  then show ?thesis
  proof cases
    case left
    with assms(4) obtain t where "FixupLeftHeavy ?n = Some t" "res = (t, True)"
      by (auto simp: Rebalance_def)
    with FixupLeftHeavy_avl [OF assms(1,2) left] left show ?thesis
      by (fastforce simp: rebalanced_def)
  next
    case right
    with assms(4) obtain t where "FixupRigtHeavy ?n = Some t" "res = (t, True)"
      by (auto simp: Rebalance_def)
    with FixupRigtHeavy_avl [OF assms(1,2) right] right show ?thesis
      by (fastforce simp: rebalanced_def)
  next
    case even
    then have "\<not> 2 \<le> node_height l - node_height r" "\<not> node_height l - node_height r \<le> - 2"
      by linarith+
    then have "Rebalance (node_height l - node_height r) ?n = Some (?n, True)"
      by (simp add: Rebalance_def)
    with assms even show ?thesis by (auto simp: rebalanced_def)
  qed
qed

lemma InsertFixup_step_avl:
  assumes "avl l" "avl r" "\<bar>node_height l - node_height r\<bar> \<le> 2"
    "\<bar>node_height l - node_height r\<bar> = 2 \<Longrightarrow> h \<noteq> max (node_height l) (node_height r) + 1"
    "InsertFixup_step (Node l a h r) = Some res"
  shows "rebalanced (node_height l) (node_height r) h res"
proof (cases "h = max (node_height l) (node_height r) + 1")
  case True
  with assms(3,4) have "\<bar>node_height l - node_height r\<bar> \<le> 1" by linarith
  with True assms show ?thesis by (auto simp: Let_def rebalanced_def)
next
  case False
  with assms Rebalance_avl [of l r a res h] show ?thesis by (simp add: Let_def)
qed

lemma EraseFixup_step_avl:
  assumes "avl l" "avl r" "\<bar>node_height l - node_height r\<bar> \<le> 2"
    "EraseFixup_step (Node l a h r) = Some res"
  shows "rebalanced (node_height l) (node_height r) h res"
proof (cases "h = max (node_height l) (node_height r) + 1
      \<and> - 1 \<le> node_height l - node_height r \<and> node_height l - node_height r \<le> 1")
  case True
  with assms show ?thesis by (auto simp: Let_def rebalanced_def)
next
  case False
  with assms Rebalance_avl [of l r a res h] show ?thesis by (auto simp: Let_def)
qed

text \<open>
  Retracing one level after a child grew (insertion) or shrank (erasure) by at most one: the
  former heights of the children are \<open>lh\<close> and \<open>rh\<close>.
\<close>

lemma insert_retrace:
  assumes "avl l" "avl r" "\<bar>lh - rh\<bar> \<le> 1" "0 \<le> h" "h \<le> max lh rh + 1"
    "lh \<le> node_height l" "rh \<le> node_height r"
    "node_height l + node_height r \<le> lh + rh + 1"
    "\<not> g \<Longrightarrow> node_height l = lh \<and> node_height r = rh"
    "fixup InsertFixup_step g (Node l a h r) = Some (t, go)"
  shows "avl_root t \<and> (h = max lh rh + 1 \<longrightarrow>
     avl t \<and> h \<le> node_height t \<and> node_height t \<le> h + 1 \<and> (\<not> go \<longrightarrow> node_height t = h))"
proof (cases g)
  case True
  with assms(10) have step: "InsertFixup_step (Node l a h r) = Some (t, go)"
    by (simp add: fixup_def)
  have "\<bar>node_height l - node_height r\<bar> \<le> 2"
    "\<bar>node_height l - node_height r\<bar> = 2 \<Longrightarrow> h \<noteq> max (node_height l) (node_height r) + 1"
    using assms(3,5-8) by linarith+
  with assms(1,2) step have reb: "rebalanced (node_height l) (node_height r) h (t, go)"
    by (intro InsertFixup_step_avl)
  then have "avl t" by (simp add: rebalanced_def)
  moreover have "h \<le> node_height t \<and> node_height t \<le> h + 1" if "h = max lh rh + 1"
    using reb that assms(3,6-8) by (simp add: rebalanced_def) linarith
  ultimately show ?thesis using reb avl_imp_root by (auto simp: rebalanced_def)
next
  case False
  with assms show ?thesis by (auto simp: fixup_def)
qed

lemma erase_retrace:
  assumes "avl l" "avl r" "\<bar>lh - rh\<bar> \<le> 1" "0 \<le> h" "h \<le> max lh rh + 1"
    "node_height l \<le> lh" "node_height r \<le> rh"
    "lh + rh - 1 \<le> node_height l + node_height r"
    "\<not> g \<Longrightarrow> node_height l = lh \<and> node_height r = rh"
    "fixup EraseFixup_step g (Node l a h r) = Some (t, go)"
  shows "avl_root t \<and> (h = max lh rh + 1 \<longrightarrow>
     avl t \<and> h - 1 \<le> node_height t \<and> node_height t \<le> h \<and> (\<not> go \<longrightarrow> node_height t = h))"
proof (cases g)
  case True
  with assms(10) have step: "EraseFixup_step (Node l a h r) = Some (t, go)"
    by (simp add: fixup_def)
  have "\<bar>node_height l - node_height r\<bar> \<le> 2"
    using assms(3,6-8) by linarith
  with assms(1,2) step have reb: "rebalanced (node_height l) (node_height r) h (t, go)"
    by (intro EraseFixup_step_avl)
  then have "avl t" by (simp add: rebalanced_def)
  moreover have "h - 1 \<le> node_height t \<and> node_height t \<le> h" if "h = max lh rh + 1"
    using reb that assms(3,6-8) by (simp add: rebalanced_def) linarith
  ultimately show ?thesis using reb avl_imp_root by (auto simp: rebalanced_def)
next
  case False
  with assms show ?thesis by (auto simp: fixup_def)
qed

lemma LinkSlot_avl:
  "avl t \<Longrightarrow> LinkSlot_InsertFixup x 1 p t = Some (t', go) \<Longrightarrow>
   avl t' \<and> node_height t \<le> node_height t' \<and> node_height t' \<le> node_height t + 1
     \<and> (\<not> go \<longrightarrow> node_height t' = node_height t)"
proof (induction x "1 :: int" p t arbitrary: t' go rule: LinkSlot_InsertFixup.induct)
  case (2 x p l a h r)
  then obtain l' g where l': "LinkSlot_InsertFixup x 1 p l = Some (l', g)"
      and fx: "fixup InsertFixup_step g (Node l' a h r) = Some (t', go)"
    by auto
  from 2(1) [OF _ l'] 2(2) show ?case
    using insert_retrace [OF _ _ _ _ _ _ _ _ _ fx, of "node_height l" "node_height r"]
    by (auto dest: avl_height_nonneg)
next
  case (3 x p l a h r)
  then obtain r' g where r': "LinkSlot_InsertFixup x 1 p r = Some (r', g)"
      and fx: "fixup InsertFixup_step g (Node l a h r') = Some (t', go)"
    by auto
  from 3(1) [OF _ r'] 3(2) show ?case
    using insert_retrace [OF _ _ _ _ _ _ _ _ _ fx, of "node_height l" "node_height r"]
    by (auto dest: avl_height_nonneg)
qed auto

lemma LinkSlot_avl_root:
  assumes "avl_root t" "LinkSlot_InsertFixup x 1 p t = Some (t', go)"
  shows "avl_root t'"
proof (cases t)
  case Null
  with assms show ?thesis by (cases p) auto
next
  case (Node l a h r)
  show ?thesis
  proof (cases p rule: path_cases)
    case (L q)
    with assms Node obtain l' g where "LinkSlot_InsertFixup x 1 q l = Some (l', g)"
        "fixup InsertFixup_step g (Node l' a h r) = Some (t', go)"
      by auto
    with assms Node LinkSlot_avl [of l x q l' g] show ?thesis
      by (intro conjunct1 [OF insert_retrace [of l' r "node_height l" "node_height r" h g a]]) auto
  next
    case (R q)
    with assms Node obtain r' g where "LinkSlot_InsertFixup x 1 q r = Some (r', g)"
        "fixup InsertFixup_step g (Node l a h r') = Some (t', go)"
      by auto
    with assms Node LinkSlot_avl [of r x q r' g] show ?thesis
      by (intro conjunct1 [OF insert_retrace [of l r' "node_height l" "node_height r" h g a]]) auto
  qed (use assms Node in auto)
qed

lemma ExtractMin_avl:
  "avl t \<Longrightarrow> ExtractMin t = Some (m, t', go) \<Longrightarrow>
   avl t' \<and> node_height t - 1 \<le> node_height t' \<and> node_height t' \<le> node_height t
     \<and> (\<not> go \<longrightarrow> node_height t' = node_height t)"
proof (induction t arbitrary: m t' go)
  case (Node l a h r)
  show ?case
  proof (cases "is_Null l")
    case True
    with Node.prems show ?thesis by (cases l) (auto dest: avl_height_nonneg)
  next
    case False
    with Node.prems obtain l' g where l': "ExtractMin l = Some (m, l', g)"
        and fx: "fixup EraseFixup_step g (Node l' a h r) = Some (t', go)"
      by auto
    from Node.IH(1) [OF _ l'] Node.prems(1) show ?thesis
      using erase_retrace [OF _ _ _ _ _ _ _ _ _ fx, of "node_height l" "node_height r"]
      by (auto dest: avl_height_nonneg)
  qed
qed auto

lemma Erase_unlink_root:
  assumes "avl l" "avl r" "\<bar>node_height l - node_height r\<bar> \<le> 1"
    "0 \<le> h" "h \<le> max (node_height l) (node_height r) + 1"
    "Erase_unlink (Node l a h r) = Some (t', go)"
  shows "avl_root t' \<and> (h = max (node_height l) (node_height r) + 1 \<longrightarrow>
    avl t' \<and> h - 1 \<le> node_height t' \<and> node_height t' \<le> h \<and> (\<not> go \<longrightarrow> node_height t' = h))"
proof (cases "\<not> is_Null l \<and> \<not> is_Null r")
  case True
  with assms(6) obtain m r' g where m: "ExtractMin r = Some (m, r', g)"
      and fx: "fixup EraseFixup_step g (Node l m h r') = Some (t', go)"
    by auto
  from ExtractMin_avl [OF assms(2) m] assms show ?thesis
    using erase_retrace [OF _ _ _ _ _ _ _ _ _ fx, of "node_height l" "node_height r"] by auto
next
  case False
  with assms avl_imp_root [of l] avl_imp_root [of r] avl_height_nonneg [of l] avl_height_nonneg [of r]
  show ?thesis by (cases l; cases r) (auto simp del: avl_root.simps avl.simps)
qed

lemma Erase_node_avl:
  "avl t \<Longrightarrow> Erase_node p t = Some (t', go) \<Longrightarrow>
   avl t' \<and> node_height t - 1 \<le> node_height t' \<and> node_height t' \<le> node_height t
     \<and> (\<not> go \<longrightarrow> node_height t' = node_height t)"
proof (induction p t arbitrary: t' go rule: Erase_node.induct)
  case (1 t)
  then show ?case
  proof (cases t)
    case (Node l a h r)
    with 1 Erase_unlink_root [of l r h a t' go] show ?thesis
      by (auto simp del: Erase_unlink.simps dest: avl_height_nonneg)
  qed simp
next
  case (2 p l a h r)
  then obtain l' g where l': "Erase_node p l = Some (l', g)"
      and fx: "fixup EraseFixup_step g (Node l' a h r) = Some (t', go)"
    by auto
  from 2(1) [OF _ l'] 2(2) show ?case
    using erase_retrace [OF _ _ _ _ _ _ _ _ _ fx, of "node_height l" "node_height r"]
    by (auto dest: avl_height_nonneg)
next
  case (3 p l a h r)
  then obtain r' g where r': "Erase_node p r = Some (r', g)"
      and fx: "fixup EraseFixup_step g (Node l a h r') = Some (t', go)"
    by auto
  from 3(1) [OF _ r'] 3(2) show ?case
    using erase_retrace [OF _ _ _ _ _ _ _ _ _ fx, of "node_height l" "node_height r"]
    by (auto dest: avl_height_nonneg)
qed auto

lemma Erase_node_avl_root:
  assumes "avl_root t" "Erase_node p t = Some (t', go)"
  shows "avl_root t'"
proof (cases t)
  case Null
  with assms show ?thesis by (cases p) auto
next
  case (Node l a h r)
  show ?thesis
  proof (cases p rule: path_cases)
    case Nil
    with assms Node Erase_unlink_root [of l r h a t' go] show ?thesis
      by (auto simp del: Erase_unlink.simps)
  next
    case (L q)
    with assms Node obtain l' g where "Erase_node q l = Some (l', g)"
        "fixup EraseFixup_step g (Node l' a h r) = Some (t', go)"
      by auto
    with assms Node Erase_node_avl [of l q l' g] show ?thesis
      by (intro conjunct1 [OF erase_retrace [of l' r "node_height l" "node_height r" h g a]]) auto
  next
    case (R q)
    with assms Node obtain r' g where "Erase_node q r = Some (r', g)"
        "fixup EraseFixup_step g (Node l a h r') = Some (t', go)"
      by auto
    with assms Node Erase_node_avl [of r q r' g] show ?thesis
      by (intro conjunct1 [OF erase_retrace [of l r' "node_height l" "node_height r" h g a]]) auto
  qed
qed

section \<open>True height and the number of nodes\<close>

fun CalculateHeight :: "'a avl_node \<Rightarrow> int" where
  "CalculateHeight Null = 0"
| "CalculateHeight (Node l a h r) = 1 + AVL_MAX (CalculateHeight l) (CalculateHeight r)"

lemma avl_CalculateHeight: "avl t \<Longrightarrow> CalculateHeight t = node_height t"
  by (induction t) auto

lemma avl_size_bound: "avl t \<Longrightarrow> 2 ^ nat (node_height t div 2) \<le> Suc (avl_size t)"
proof (induction t)
  case (Node l a h r)
  let ?m = "min (node_height l) (node_height r)"
  have nn: "0 \<le> node_height l" "0 \<le> node_height r"
    using Node.prems by (auto intro: avl_height_nonneg)
  have "h \<le> ?m + 2" using Node.prems by auto
  then have "nat (h div 2) \<le> Suc (nat (?m div 2))" using nn by linarith
  then have "(2::nat) ^ nat (h div 2) \<le> 2 * 2 ^ nat (?m div 2)"
    by (metis power_Suc power_increasing one_le_numeral)
  moreover have "(2::nat) ^ nat (?m div 2) \<le> Suc (avl_size l)" "(2::nat) ^ nat (?m div 2) \<le> Suc (avl_size r)"
  proof -
    have "(2::nat) ^ nat (?m div 2) \<le> 2 ^ nat (node_height l div 2)"
      by (intro power_increasing nat_mono zdiv_mono1) auto
    also have "\<dots> \<le> Suc (avl_size l)" using Node.IH(1) Node.prems by simp
    finally show "(2::nat) ^ nat (?m div 2) \<le> Suc (avl_size l)" .
    have "(2::nat) ^ nat (?m div 2) \<le> 2 ^ nat (node_height r div 2)"
      by (intro power_increasing nat_mono zdiv_mono1) auto
    also have "\<dots> \<le> Suc (avl_size r)" using Node.IH(2) Node.prems by simp
    finally show "(2::nat) ^ nat (?m div 2) \<le> Suc (avl_size r)" .
  qed
  ultimately show ?case by simp
qed simp

lemma avl_root_UpdateHeight: "avl_root t \<Longrightarrow> avl (UpdateHeight t)"
  by (cases t) auto

lemma CalculateHeight_UpdateHeight [simp]: "CalculateHeight (UpdateHeight t) = CalculateHeight t"
  by (cases t) auto

lemma avl_root_size_bound: "avl_root t \<Longrightarrow> 2 ^ nat (CalculateHeight t div 2) \<le> Suc (avl_size t)"
  using avl_size_bound [of "UpdateHeight t"] avl_CalculateHeight [of "UpdateHeight t"]
  by (auto simp: avl_root_UpdateHeight)

end
