(* ===== verification/AvlTree.thy ===== *)
theory AvlTree
  imports AvlUtil
begin

text \<open>
  The search tree of \<^verbatim>\<open>algo/internal/avl_tree_base.h\<close>, \<^verbatim>\<open>avl_tree_base_impl.h\<close> and \<^verbatim>\<open>avl_tree.h\<close>:
  lookup, bounds, insertion with and without duplicates, erasure, extraction, traversal.

  The base-class operations (prefix \<open>Avl_\<close>) act on the root and report whether the hook
  \<^verbatim>\<open>IncreaseCount\<close>/\<^verbatim>\<open>DecreaseCount\<close> ran; \<^verbatim>\<open>AvlTree\<close> adds the 64-bit \<^verbatim>\<open>count_\<close>, \<^verbatim>\<open>AvlList\<close> ignores the hook.
  \<open>cmp\<close> is the \<^verbatim>\<open>Comparator\<close> and \<open>gk\<close> the \<^verbatim>\<open>GetKey\<close> functor. \<^verbatim>\<open>CreateNode\<close> gives height 1, while a
  node handed to \<^verbatim>\<open>Push\<close> keeps the height \<open>hx\<close> it has.

  Shown: every operation returns (no null dereference) and acts on the sorted in-order sequence as
  the corresponding list operation; balance is kept; \<^verbatim>\<open>count_\<close> follows the size for the operations
  that maintain it, and drifts for the second node inserted by \<^verbatim>\<open>_InsertWithDuplicate\<close>.
\<close>

section \<open>Search\<close>

fun FindNode :: "('k \<Rightarrow> 'k \<Rightarrow> int) \<Rightarrow> ('a \<Rightarrow> 'k) \<Rightarrow> 'k \<Rightarrow> 'a avl_node \<Rightarrow> dir list option" where
  "FindNode cmp gk k Null = None"
| "FindNode cmp gk k (Node l a h r) =
     (let res = cmp (gk a) k in
      if 0 < res then map_option (Cons L) (FindNode cmp gk k l)
      else if res < 0 then map_option (Cons R) (FindNode cmp gk k r)
      else Some [])"

definition Avl_Find :: "('k \<Rightarrow> 'k \<Rightarrow> int) \<Rightarrow> ('a \<Rightarrow> 'k) \<Rightarrow> 'k \<Rightarrow> 'a avl_node \<Rightarrow> 'a option" where
  "Avl_Find cmp gk k t = do { p \<leftarrow> FindNode cmp gk k t; value_at p t }"

text \<open>The \<^verbatim>\<open>track\<close> variable holds the last node passed on the way left.\<close>

fun LowerBound_loop :: "('k \<Rightarrow> 'k \<Rightarrow> int) \<Rightarrow> ('a \<Rightarrow> 'k) \<Rightarrow> 'k \<Rightarrow> dir list \<Rightarrow> dir list option
                          \<Rightarrow> 'a avl_node \<Rightarrow> dir list option" where
  "LowerBound_loop cmp gk k node track Null = track"
| "LowerBound_loop cmp gk k node track (Node l a h r) =
     (if 0 \<le> cmp (gk a) k then LowerBound_loop cmp gk k (node @ [L]) (Some node) l
      else LowerBound_loop cmp gk k (node @ [R]) track r)"

definition LowerBound :: "('k \<Rightarrow> 'k \<Rightarrow> int) \<Rightarrow> ('a \<Rightarrow> 'k) \<Rightarrow> 'k \<Rightarrow> 'a avl_node \<Rightarrow> dir list option" where
  "LowerBound cmp gk k t = LowerBound_loop cmp gk k [] None t"

fun UpperBound_loop :: "('k \<Rightarrow> 'k \<Rightarrow> int) \<Rightarrow> ('a \<Rightarrow> 'k) \<Rightarrow> 'k \<Rightarrow> dir list \<Rightarrow> dir list option
                          \<Rightarrow> 'a avl_node \<Rightarrow> dir list option" where
  "UpperBound_loop cmp gk k node track Null = track"
| "UpperBound_loop cmp gk k node track (Node l a h r) =
     (if 0 < cmp (gk a) k then UpperBound_loop cmp gk k (node @ [L]) (Some node) l
      else UpperBound_loop cmp gk k (node @ [R]) track r)"

definition UpperBound :: "('k \<Rightarrow> 'k \<Rightarrow> int) \<Rightarrow> ('a \<Rightarrow> 'k) \<Rightarrow> 'k \<Rightarrow> 'a avl_node \<Rightarrow> dir list option" where
  "UpperBound cmp gk k t = UpperBound_loop cmp gk k [] None t"

section \<open>Insertion\<close>

text \<open>The slot searches: \<open>Inl\<close> an empty slot, \<open>Inr\<close> the node that compares equal.\<close>

fun FindSlot :: "('k \<Rightarrow> 'k \<Rightarrow> int) \<Rightarrow> ('a \<Rightarrow> 'k) \<Rightarrow> 'k \<Rightarrow> 'a avl_node \<Rightarrow> dir list + dir list" where
  "FindSlot cmp gk k Null = Inl []"
| "FindSlot cmp gk k (Node l a h r) =
     (let res = cmp (gk a) k in
      if 0 < res then map_sum (Cons L) (Cons L) (FindSlot cmp gk k l)
      else if res < 0 then map_sum (Cons R) (Cons R) (FindSlot cmp gk k r)
      else Inr [])"

fun FindSlotEq :: "('k \<Rightarrow> 'k \<Rightarrow> int) \<Rightarrow> ('a \<Rightarrow> 'k) \<Rightarrow> 'k \<Rightarrow> 'a avl_node \<Rightarrow> dir list" where
  "FindSlotEq cmp gk k Null = []"
| "FindSlotEq cmp gk k (Node l a h r) =
     (let res = cmp (gk a) k in
      if 0 < res then L # FindSlotEq cmp gk k l
      else if res < 0 then R # FindSlotEq cmp gk k r
      else if node_height l < node_height r then L # FindSlotEq cmp gk k l
      else R # FindSlotEq cmp gk k r)"

text \<open>
  \<^verbatim>\<open>_InsertWithDuplicate\<close>: whether the value was inserted, the value \<^verbatim>\<open>*dup\<close> points to, the new root,
  and whether \<^verbatim>\<open>IncreaseCount\<close> ran. Below a root with no child the node is linked directly and the
  function returns at once.
\<close>

definition Avl_InsertWithDuplicate :: "('k \<Rightarrow> 'k \<Rightarrow> int) \<Rightarrow> ('a \<Rightarrow> 'k) \<Rightarrow> 'a \<Rightarrow> 'a avl_node
    \<Rightarrow> (bool \<times> 'a \<times> 'a avl_node \<times> bool) option" where
  "Avl_InsertWithDuplicate cmp gk v root = (case root of
      Null \<Rightarrow> Some (True, v, Node Null v 1 Null, True)
    | Node l a h r \<Rightarrow>
        if is_Null l \<and> is_Null r then
          let res = cmp (gk v) (gk a) in
          if 0 < res then Some (True, v, Node l a h (Node Null v 1 Null), False)
          else if res < 0 then Some (True, v, Node (Node Null v 1 Null) a h r, False)
          else Some (False, a, root, False)
        else (case FindSlot cmp gk (gk v) root of
            Inl slot \<Rightarrow> do { (root', _) \<leftarrow> LinkSlot_InsertFixup v 1 slot root; Some (True, v, root', True) }
          | Inr p \<Rightarrow> do { d \<leftarrow> value_at p root; Some (False, d, root, False) }))"

text \<open>
  \<^verbatim>\<open>PushWithDuplicate\<close> links an existing node of height \<open>hx\<close>. With a duplicate of a childless root it
  computes \<^verbatim>\<open>addressof(slot[0]->value)\<close> through the null \<^verbatim>\<open>slot\<close> when the caller asked for the duplicate.
\<close>

definition Avl_PushWithDuplicate :: "('k \<Rightarrow> 'k \<Rightarrow> int) \<Rightarrow> ('a \<Rightarrow> 'k) \<Rightarrow> bool \<Rightarrow> int \<Rightarrow> 'a \<Rightarrow> 'a avl_node
    \<Rightarrow> (bool \<times> 'a \<times> 'a avl_node \<times> bool) option" where
  "Avl_PushWithDuplicate cmp gk want_dup hx v root = (case root of
      Null \<Rightarrow> Some (True, v, Node Null v hx Null, True)
    | Node l a h r \<Rightarrow>
        if is_Null l \<and> is_Null r then
          let res = cmp (gk v) (gk a) in
          if 0 < res then Some (True, v, Node l a h (Node Null v hx Null), False)
          else if res < 0 then Some (True, v, Node (Node Null v hx Null) a h r, False)
          else if want_dup then None
          else Some (False, a, root, False)
        else (case FindSlot cmp gk (gk v) root of
            Inl slot \<Rightarrow> do { (root', _) \<leftarrow> LinkSlot_InsertFixup v hx slot root; Some (True, v, root', True) }
          | Inr p \<Rightarrow> do { d \<leftarrow> value_at p root; Some (False, d, root, False) }))"

definition Avl_Push :: "('k \<Rightarrow> 'k \<Rightarrow> int) \<Rightarrow> ('a \<Rightarrow> 'k) \<Rightarrow> int \<Rightarrow> 'a \<Rightarrow> 'a avl_node
    \<Rightarrow> (bool \<times> 'a avl_node \<times> bool) option" where
  "Avl_Push cmp gk hx v root =
     do { (ok, _, root', inc) \<leftarrow> Avl_PushWithDuplicate cmp gk False hx v root; Some (ok, root', inc) }"

definition Avl_PushEq :: "('k \<Rightarrow> 'k \<Rightarrow> int) \<Rightarrow> ('a \<Rightarrow> 'k) \<Rightarrow> int \<Rightarrow> 'a \<Rightarrow> 'a avl_node
    \<Rightarrow> 'a avl_node option" where
  "Avl_PushEq cmp gk hx v root =
     (if is_Null root then Some (Node Null v hx Null)
      else do { (root', _) \<leftarrow> LinkSlot_InsertFixup v hx (FindSlotEq cmp gk (gk v) root) root; Some root' })"

definition Avl_InsertEq :: "('k \<Rightarrow> 'k \<Rightarrow> int) \<Rightarrow> ('a \<Rightarrow> 'k) \<Rightarrow> 'a \<Rightarrow> 'a avl_node \<Rightarrow> 'a avl_node option" where
  "Avl_InsertEq cmp gk v root = Avl_PushEq cmp gk 1 v root"

section \<open>Erasure\<close>

text \<open>
  \<^verbatim>\<open>EraseNode\<close> of a null or a given node. \<^verbatim>\<open>Extract\<close> hands out the unlinked node, whose \<^verbatim>\<open>height\<close> field
  keeps the value it had in the tree.
\<close>

definition Avl_EraseNode :: "dir list option \<Rightarrow> 'a avl_node \<Rightarrow> (bool \<times> 'a avl_node) option" where
  "Avl_EraseNode pos root = (case pos of
      None \<Rightarrow> Some (False, root)
    | Some p \<Rightarrow> do { (root', _) \<leftarrow> Erase_node p root; Some (True, root') })"

definition Avl_Erase :: "('k \<Rightarrow> 'k \<Rightarrow> int) \<Rightarrow> ('a \<Rightarrow> 'k) \<Rightarrow> 'k \<Rightarrow> 'a avl_node \<Rightarrow> (bool \<times> 'a avl_node) option" where
  "Avl_Erase cmp gk k root = (case FindNode cmp gk k root of
      None \<Rightarrow> Some (False, root)
    | Some p \<Rightarrow> do { (root', _) \<leftarrow> Erase_node p root; Some (True, root') })"

definition Avl_Extract :: "('k \<Rightarrow> 'k \<Rightarrow> int) \<Rightarrow> ('a \<Rightarrow> 'k) \<Rightarrow> 'k \<Rightarrow> 'a avl_node
    \<Rightarrow> (('a \<times> int) option \<times> 'a avl_node) option" where
  "Avl_Extract cmp gk k root = (case FindNode cmp gk k root of
      None \<Rightarrow> Some (None, root)
    | Some p \<Rightarrow> do { v \<leftarrow> value_at p root; (root', _) \<leftarrow> Erase_node p root;
                    Some (Some (v, node_height (node_at p root)), root') })"

text \<open>
  \<^verbatim>\<open>Erase(key, pred)\<close> walks forward from the node \<^verbatim>\<open>FindNode\<close> returns; stepping past the last node
  reads the value of a null node.
\<close>

function Erase_pred_loop :: "('k \<Rightarrow> 'k \<Rightarrow> int) \<Rightarrow> ('a \<Rightarrow> 'k) \<Rightarrow> 'k \<Rightarrow> ('a \<Rightarrow> bool) \<Rightarrow> 'a avl_node
    \<Rightarrow> dir list \<Rightarrow> (bool \<times> 'a avl_node) option" where
  "Erase_pred_loop cmp gk k pred root p = (case value_at p root of
      None \<Rightarrow> None
    | Some v \<Rightarrow>
        if pred v then do { (root', _) \<leftarrow> Erase_node p root; Some (True, root') }
        else (case GetNextNode root p of
            None \<Rightarrow> None
          | Some q \<Rightarrow> do { w \<leftarrow> value_at q root;
                          if cmp (gk w) k \<noteq> 0 then Some (False, root)
                          else Erase_pred_loop cmp gk k pred root q }))"
  by pat_completeness auto

termination
proof (relation "measure (\<lambda>(cmp, gk, k, pred, root, p). avl_size root - pos_index p root)", goal_cases)
  case (2 cmp gk k pred root p v q w)
  then have "valid_pos p root" by (auto split: avl_node.splits)
  with 2 GetNextNode_step [of p root] pos_index_less [of q root] show ?case by auto
qed simp

definition Avl_Erase_pred :: "('k \<Rightarrow> 'k \<Rightarrow> int) \<Rightarrow> ('a \<Rightarrow> 'k) \<Rightarrow> 'k \<Rightarrow> ('a \<Rightarrow> bool) \<Rightarrow> 'a avl_node
    \<Rightarrow> (bool \<times> 'a avl_node) option" where
  "Avl_Erase_pred cmp gk k pred root = (case FindNode cmp gk k root of
      None \<Rightarrow> Some (False, root)
    | Some p \<Rightarrow> Erase_pred_loop cmp gk k pred root p)"

section \<open>Traversals\<close>

text \<open>
  \<^verbatim>\<open>ReuseAllNodes\<close> unhooks leaf after leaf and climbs to the parent; a frame keeps the parent's
  fields and the side it was left through. The result lists the nodes in the order the callback
  receives them.
\<close>

type_synonym 'a frame = "dir \<times> 'a \<times> int \<times> 'a avl_node"

fun frame_size :: "'a frame \<Rightarrow> nat" where
  "frame_size (d, a, h, s) = Suc (2 * avl_size s)"

function ReuseAllNodes_loop :: "'a avl_node \<Rightarrow> 'a frame list \<Rightarrow> 'a list \<Rightarrow> 'a list" where
  "ReuseAllNodes_loop Null ctx out = out"
| "ReuseAllNodes_loop (Node l a h r) ctx out =
     (if \<not> is_Null l then ReuseAllNodes_loop l ((L, a, h, r) # ctx) out
      else if \<not> is_Null r then ReuseAllNodes_loop r ((R, a, h, l) # ctx) out
      else (case ctx of
          [] \<Rightarrow> out @ [a]
        | (L, b, k, s) # ctx' \<Rightarrow> ReuseAllNodes_loop (Node Null b k s) ctx' (out @ [a])
        | (R, b, k, s) # ctx' \<Rightarrow> ReuseAllNodes_loop (Node s b k Null) ctx' (out @ [a])))"
  by pat_completeness auto

termination
  by (relation "measure (\<lambda>(t, ctx, out). 2 * avl_size t + sum_list (map frame_size ctx))")
     (auto simp: is_Null_inorder)

definition ReuseAllNodes :: "'a avl_node \<Rightarrow> 'a list" where
  "ReuseAllNodes root = ReuseAllNodes_loop root [] []"

text \<open>\<^verbatim>\<open>DoInAll\<close> with its explicit stack; of a stacked node the value and the right child are read.\<close>

function DoInAll_loop :: "'a avl_node \<Rightarrow> ('a \<times> 'a avl_node) list \<Rightarrow> 'a list \<Rightarrow> 'a list" where
  "DoInAll_loop (Node l a h r) nodes out = DoInAll_loop l ((a, r) # nodes) out"
| "DoInAll_loop Null ((a, r) # nodes) out = DoInAll_loop r nodes (out @ [a])"
| "DoInAll_loop Null [] out = out"
  by pat_completeness auto

termination
  by (relation "measure (\<lambda>(t, nodes, out). 2 * avl_size t + sum_list (map (\<lambda>(a, r). Suc (2 * avl_size r)) nodes))")
     auto

definition DoInAll :: "'a avl_node \<Rightarrow> 'a list" where
  "DoInAll root = DoInAll_loop root [] []"

section \<open>The counted tree\<close>

record 'a avl_tree =
  root_of :: "'a avl_node"
  count_of :: "64 word"

definition AvlTree_Insert :: "('k \<Rightarrow> 'k \<Rightarrow> int) \<Rightarrow> ('a \<Rightarrow> 'k) \<Rightarrow> 'a \<Rightarrow> 'a avl_tree \<Rightarrow> (bool \<times> 'a avl_tree) option" where
  "AvlTree_Insert cmp gk v t =
     do { (ok, _, root, inc) \<leftarrow> Avl_InsertWithDuplicate cmp gk v (root_of t);
          Some (ok, t\<lparr>root_of := root, count_of := if inc then count_of t + 1 else count_of t\<rparr>) }"

definition AvlTree_InsertEq :: "('k \<Rightarrow> 'k \<Rightarrow> int) \<Rightarrow> ('a \<Rightarrow> 'k) \<Rightarrow> 'a \<Rightarrow> 'a avl_tree \<Rightarrow> 'a avl_tree option" where
  "AvlTree_InsertEq cmp gk v t =
     do { root \<leftarrow> Avl_InsertEq cmp gk v (root_of t); Some (t\<lparr>root_of := root, count_of := count_of t + 1\<rparr>) }"

definition EraseRoutine_count :: "(bool \<times> 'a avl_node) option \<Rightarrow> 'a avl_tree \<Rightarrow> (bool \<times> 'a avl_tree) option" where
  "EraseRoutine_count res t =
     do { (ok, root) \<leftarrow> res; Some (ok, t\<lparr>root_of := root, count_of := if ok then count_of t - 1 else count_of t\<rparr>) }"

definition AvlTree_Erase :: "('k \<Rightarrow> 'k \<Rightarrow> int) \<Rightarrow> ('a \<Rightarrow> 'k) \<Rightarrow> 'k \<Rightarrow> 'a avl_tree \<Rightarrow> (bool \<times> 'a avl_tree) option" where
  "AvlTree_Erase cmp gk k t = EraseRoutine_count (Avl_Erase cmp gk k (root_of t)) t"

definition AvlTree_EraseNode :: "dir list option \<Rightarrow> 'a avl_tree \<Rightarrow> (bool \<times> 'a avl_tree) option" where
  "AvlTree_EraseNode pos t = EraseRoutine_count (Avl_EraseNode pos (root_of t)) t"

definition AvlTree_Erase_pred :: "('k \<Rightarrow> 'k \<Rightarrow> int) \<Rightarrow> ('a \<Rightarrow> 'k) \<Rightarrow> 'k \<Rightarrow> ('a \<Rightarrow> bool) \<Rightarrow> 'a avl_tree
    \<Rightarrow> (bool \<times> 'a avl_tree) option" where
  "AvlTree_Erase_pred cmp gk k pred t = EraseRoutine_count (Avl_Erase_pred cmp gk k pred (root_of t)) t"

definition AvlTree_Clear :: "'a avl_tree \<Rightarrow> 'a avl_tree" where
  "AvlTree_Clear t = (let dropped = ReuseAllNodes (root_of t) in t\<lparr>root_of := Null, count_of := 0\<rparr>)"

section \<open>Traversal order\<close>

fun postorder :: "'a avl_node \<Rightarrow> 'a list" where
  "postorder Null = []"
| "postorder (Node l a h r) = postorder l @ postorder r @ [a]"

fun unwind :: "'a frame list \<Rightarrow> 'a list" where
  "unwind [] = []"
| "unwind ((L, a, h, s) # ctx) = postorder s @ [a] @ unwind ctx"
| "unwind ((R, a, h, s) # ctx) = postorder s @ [a] @ unwind ctx"

text \<open>While a right frame is open its left sibling has been emptied already.\<close>

definition right_frames_empty :: "'a frame list \<Rightarrow> bool" where
  "right_frames_empty ctx = (\<forall>(d, a, h, s) \<in> set ctx. d = R \<longrightarrow> is_Null s)"

lemma ReuseAllNodes_leaf:
  "ReuseAllNodes_loop (Node Null a h Null) ((L, b, k, s) # ctx) out
     = ReuseAllNodes_loop (Node Null b k s) ctx (out @ [a])"
  "ReuseAllNodes_loop (Node Null a h Null) ((R, b, k, s) # ctx) out
     = ReuseAllNodes_loop (Node s b k Null) ctx (out @ [a])"
  by simp_all

lemma ReuseAllNodes_loop_postorder:
  "\<not> is_Null t \<Longrightarrow> right_frames_empty ctx \<Longrightarrow>
   ReuseAllNodes_loop t ctx out = out @ postorder t @ unwind ctx"
proof (induction t ctx out rule: ReuseAllNodes_loop.induct)
  case (2 l a h r ctx out)
  show ?case
  proof (cases "is_Null l \<and> is_Null r")
    case True
    then have lr: "l = Null" "r = Null" by (auto simp: is_Null_def)
    show ?thesis
    proof (cases ctx)
      case Nil
      then show ?thesis using lr by simp
    next
      case (Cons f ctx')
      obtain d b k s where f: "f = (d, b, k, s)" by (cases f)
      show ?thesis
        using 2(3,4,6) lr Cons f
        by (cases d) (auto simp: ReuseAllNodes_leaf right_frames_empty_def is_Null_def simp del: ReuseAllNodes_loop.simps)
    qed
  next
    case False
    with 2 show ?thesis by (auto simp: right_frames_empty_def is_Null_def)
  qed
qed simp

lemma ReuseAllNodes_postorder: "ReuseAllNodes t = postorder t"
  using ReuseAllNodes_loop_postorder [of t "[]" "[]"]
  by (cases t) (auto simp: ReuseAllNodes_def right_frames_empty_def)

lemma mset_postorder: "mset (postorder t) = mset (inorder t)"
  by (induction t) auto

lemma set_postorder: "set (postorder t) = set (inorder t)"
  using mset_postorder [of t] by (metis set_mset_mset)

lemma DoInAll_loop_inorder:
  "DoInAll_loop t nodes out = out @ inorder t @ concat (map (\<lambda>(a, r). a # inorder r) nodes)"
  by (induction t nodes out rule: DoInAll_loop.induct) auto

lemma DoInAll_inorder: "DoInAll t = inorder t"
  by (simp add: DoInAll_def DoInAll_loop_inorder)

section \<open>Search and update on the sorted sequence\<close>

definition strict_sorted :: "('k \<Rightarrow> 'k \<Rightarrow> int) \<Rightarrow> ('a \<Rightarrow> 'k) \<Rightarrow> 'a list \<Rightarrow> bool" where
  "strict_sorted cmp gk xs = sorted_wrt (\<lambda>x y. cmp (gk x) (gk y) < 0) xs"

definition weak_sorted :: "('k \<Rightarrow> 'k \<Rightarrow> int) \<Rightarrow> ('a \<Rightarrow> 'k) \<Rightarrow> 'a list \<Rightarrow> bool" where
  "weak_sorted cmp gk xs = sorted_wrt (\<lambda>x y. cmp (gk x) (gk y) \<le> 0) xs"

lemma strict_imp_weak: "strict_sorted cmp gk xs \<Longrightarrow> weak_sorted cmp gk xs"
  unfolding strict_sorted_def weak_sorted_def by (erule sorted_wrt_mono_rel [rotated]) simp

lemmas sorted_append_simps = strict_sorted_def weak_sorted_def sorted_wrt_append

text \<open>The recursion the bound loops compute, without accumulators.\<close>

fun bound_pos :: "('a \<Rightarrow> bool) \<Rightarrow> 'a avl_node \<Rightarrow> dir list option" where
  "bound_pos P Null = None"
| "bound_pos P (Node l a h r) =
     (if P a then Some (case bound_pos P l of None \<Rightarrow> [] | Some q \<Rightarrow> L # q)
      else map_option (Cons R) (bound_pos P r))"

lemma LowerBound_bound_pos: "LowerBound cmp gk k t = bound_pos (\<lambda>a. 0 \<le> cmp (gk a) k) t"
proof -
  have "LowerBound_loop cmp gk k node track t =
      (case bound_pos (\<lambda>a. 0 \<le> cmp (gk a) k) t of None \<Rightarrow> track | Some q \<Rightarrow> Some (node @ q))" for node track
    by (induction t arbitrary: node track) (auto split: option.splits)
  then show ?thesis by (auto simp: LowerBound_def split: option.splits)
qed

lemma UpperBound_bound_pos: "UpperBound cmp gk k t = bound_pos (\<lambda>a. 0 < cmp (gk a) k) t"
proof -
  have "UpperBound_loop cmp gk k node track t =
      (case bound_pos (\<lambda>a. 0 < cmp (gk a) k) t of None \<Rightarrow> track | Some q \<Rightarrow> Some (node @ q))" for node track
    by (induction t arbitrary: node track) (auto split: option.splits)
  then show ?thesis by (auto simp: UpperBound_def split: option.splits)
qed

text \<open>
  When the elements satisfying \<open>P\<close> form a suffix of the sequence, the bound is its first element.
\<close>

lemma bound_pos_index:
  "sorted_wrt (\<lambda>x y. P x \<longrightarrow> P y) (inorder t) \<Longrightarrow>
   (case bound_pos P t of
      None \<Rightarrow> (\<forall>x \<in> set (inorder t). \<not> P x)
    | Some q \<Rightarrow> valid_pos q t \<and> P (inorder t ! pos_index q t)
        \<and> pos_index q t = length (takeWhile (\<lambda>x. \<not> P x) (inorder t)))"
proof (induction t)
  case (Node l a h r)
  let ?Q = "\<lambda>x y. P x \<longrightarrow> P y"
  have all: "sorted_wrt ?Q (inorder l)" "sorted_wrt ?Q (a # inorder r)"
      "\<forall>x \<in> set (inorder l). \<forall>y \<in> set (a # inorder r). P x \<longrightarrow> P y"
    using Node.prems unfolding inorder.simps sorted_wrt_append by blast+
  then have sl: "sorted_wrt ?Q (inorder l)" "sorted_wrt ?Q (inorder r)"
    unfolding sorted_wrt.simps by blast+
  have la: "\<not> P x" if "x \<in> set (inorder l)" "\<not> P a" for x
    using all(3) that by (meson list.set_intros(1))
  show ?case
  proof (cases "P a")
    case True
    show ?thesis
    proof (cases "bound_pos P l")
      case None
      with True Node.IH(1) [OF sl(1)] show ?thesis by (simp add: takeWhile_append2)
    next
      case (Some q)
      with Node.IH(1) [OF sl(1)] have q: "valid_pos q l" "P (inorder l ! pos_index q l)"
        "pos_index q l = length (takeWhile (\<lambda>x. \<not> P x) (inorder l))"
        by auto
      with pos_index_less [OF q(1)] True Some show ?thesis
        by (auto simp: nth_append takeWhile_append1 [OF nth_mem])
    qed
  next
    case False
    with la have "takeWhile (\<lambda>x. \<not> P x) (inorder l) = inorder l"
      by (auto simp: takeWhile_eq_all_conv)
    with False la Node.IH(2) [OF sl(2)] show ?thesis
      by (auto simp: takeWhile_append2 nth_append split: option.splits)
  qed
qed simp

context comparator
begin

lemma weak_sorted_mid:
  assumes "weak_sorted cmp gk (xs @ a # ys)"
  shows "x \<in> set xs \<Longrightarrow> cmp (gk x) (gk a) \<le> 0" "y \<in> set ys \<Longrightarrow> cmp (gk a) (gk y) \<le> 0"
  using assms by (auto simp: sorted_append_simps)

lemma greater_suffix:
  assumes "weak_sorted cmp gk (xs @ a # ys)" "0 < cmp (gk a) k" "y \<in> set ys"
  shows "0 < cmp (gk y) k"
  using cmp_less_le_trans [of k "gk a" "gk y"] weak_sorted_mid(2) [OF assms(1,3)] assms(2)
  by (simp add: cmp_sym)

lemma less_prefix:
  assumes "weak_sorted cmp gk (xs @ a # ys)" "cmp (gk a) k < 0" "x \<in> set xs"
  shows "cmp (gk x) k < 0"
  using cmp_le_less_trans weak_sorted_mid(1) [OF assms(1,3)] assms(2) by blast

lemma equal_between:
  assumes "weak_sorted cmp gk (xs @ a # ys)" "cmp (gk a) k = 0"
  shows "(\<forall>x \<in> set xs. cmp (gk x) k \<le> 0) \<and> (\<forall>y \<in> set ys. 0 \<le> cmp (gk y) k)"
proof (intro conjI ballI)
  show "cmp (gk x) k \<le> 0" if "x \<in> set xs" for x
    using cmp_trans [OF weak_sorted_mid(1) [OF assms(1) that], of k] assms(2) by simp
  show "0 \<le> cmp (gk y) k" if "y \<in> set ys" for y
    using cmp_trans [OF _ weak_sorted_mid(2) [OF assms(1) that], of k] assms(2)
      cmp_sym [of "gk y" k] cmp_eq_sym [of "gk a" k] by force
qed

lemma weak_sorted_children:
  "weak_sorted cmp gk (xs @ a # ys) \<Longrightarrow> weak_sorted cmp gk xs \<and> weak_sorted cmp gk ys"
  by (simp add: sorted_append_simps)

lemma FindNode_Some:
  "FindNode cmp gk k t = Some p \<Longrightarrow> valid_pos p t \<and> cmp (gk (inorder t ! pos_index p t)) k = 0"
proof (induction t arbitrary: p)
  case (Node l a h r)
  consider "0 < cmp (gk a) k" | "cmp (gk a) k < 0" | "cmp (gk a) k = 0" by linarith
  then show ?case
    using Node pos_index_less [of "tl p" l] by cases (auto simp: nth_append)
qed simp

lemma FindNode_None:
  "weak_sorted cmp gk (inorder t) \<Longrightarrow> FindNode cmp gk k t = None \<Longrightarrow> x \<in> set (inorder t) \<Longrightarrow> cmp (gk x) k \<noteq> 0"
proof (induction t)
  case (Node l a h r)
  from Node.prems(1) have s: "weak_sorted cmp gk (inorder l @ a # inorder r)" by simp
  show ?case
    using Node weak_sorted_children [OF s] greater_suffix [OF s, of k x] less_prefix [OF s, of k x]
    by (auto simp: Let_def split: if_splits)
qed simp

lemma FindSlot_Inr:
  "FindSlot cmp gk k t = Inr p \<Longrightarrow> valid_pos p t \<and> cmp (gk (inorder t ! pos_index p t)) k = 0"
proof (induction t arbitrary: p)
  case (Node l a h r)
  consider "0 < cmp (gk a) k" | "cmp (gk a) k < 0" | "cmp (gk a) k = 0" by linarith
  then show ?case
    using Node pos_index_less [of "tl p" l]
    by cases (auto simp: nth_append map_sum_def split: sum.splits)
qed simp

lemma FindSlot_Inl:
  "weak_sorted cmp gk (inorder t) \<Longrightarrow> FindSlot cmp gk k t = Inl p \<Longrightarrow>
   valid_slot p t \<and> (\<forall>x \<in> set (take (pos_index p t) (inorder t)). cmp (gk x) k < 0)
     \<and> (\<forall>x \<in> set (drop (pos_index p t) (inorder t)). 0 < cmp (gk x) k)"
proof (induction t arbitrary: p)
  case (Node l a h r)
  from Node.prems(1) have s: "weak_sorted cmp gk (inorder l @ a # inorder r)" by simp
  consider "0 < cmp (gk a) k" | "cmp (gk a) k < 0" | "cmp (gk a) k = 0" by linarith
  then show ?case
  proof cases
    case 1
    with Node.prems obtain q where q: "FindSlot cmp gk k l = Inl q" "p = L # q"
      by (cases "FindSlot cmp gk k l") auto
    with 1 Node.IH(1) [of q] weak_sorted_children [OF s] greater_suffix [OF s 1] slot_index_le [of q l]
    show ?thesis by auto
  next
    case 2
    with Node.prems obtain q where q: "FindSlot cmp gk k r = Inl q" "p = R # q"
      by (cases "FindSlot cmp gk k r") auto
    with 2 Node.IH(2) [of q] weak_sorted_children [OF s] less_prefix [OF s 2]
    show ?thesis by auto
  next
    case 3
    with Node.prems show ?thesis by simp
  qed
qed simp

lemma FindSlotEq_slot:
  "weak_sorted cmp gk (inorder t) \<Longrightarrow>
   valid_slot (FindSlotEq cmp gk k t) t
     \<and> (\<forall>x \<in> set (take (pos_index (FindSlotEq cmp gk k t) t) (inorder t)). cmp (gk x) k \<le> 0)
     \<and> (\<forall>x \<in> set (drop (pos_index (FindSlotEq cmp gk k t) t) (inorder t)). 0 \<le> cmp (gk x) k)"
proof (induction t)
  case (Node l a h r)
  from Node.prems(1) have s: "weak_sorted cmp gk (inorder l @ a # inorder r)" by simp
  consider "0 < cmp (gk a) k" | "cmp (gk a) k < 0" | "cmp (gk a) k = 0" by linarith
  then show ?case
    using Node weak_sorted_children [OF s] greater_suffix [OF s, of k] less_prefix [OF s, of k]
      equal_between [OF s, of k] slot_index_le [of "FindSlotEq cmp gk k l" l]
      slot_index_le [of "FindSlotEq cmp gk k r" r]
    by cases (auto simp: Let_def intro: less_imp_le)
qed simp

lemma PushWithDuplicate_cases:
  assumes nn: "heights_nonneg t" and sorted: "weak_sorted cmp gk (inorder t)" and "0 \<le> hx"
  obtains (dup) d where "Avl_PushWithDuplicate cmp gk False hx v t = Some (False, d, t, False)"
      "d \<in> set (inorder t)" "cmp (gk d) (gk v) = 0"
  | (ins) t' inc ys zs where "Avl_PushWithDuplicate cmp gk w hx v t = Some (True, v, t', inc)"
      "heights_nonneg t'" "inorder t = ys @ zs" "inorder t' = ys @ v # zs"
      "\<And>y. y \<in> set ys \<Longrightarrow> cmp (gk y) (gk v) < 0" "\<And>z. z \<in> set zs \<Longrightarrow> 0 < cmp (gk z) (gk v)"
proof (cases t)
  case Null
  then show thesis using ins [of "Node Null v hx Null" True "[]" "[]"] assms
    by (auto simp: Avl_PushWithDuplicate_def)
next
  case (Node l a h r)
  show thesis
  proof (cases "is_Null l \<and> is_Null r")
    case True
    then have lr: "l = Null" "r = Null" by (auto simp: is_Null_def)
    consider "0 < cmp (gk v) (gk a)" | "cmp (gk v) (gk a) < 0" | "cmp (gk v) (gk a) = 0" by linarith
    then show thesis
    proof cases
      case 1
      then show thesis using ins [of "Node l a h (Node Null v hx Null)" False "[a]" "[]"] lr Node assms
        by (auto simp: Avl_PushWithDuplicate_def cmp_sym)
    next
      case 2
      then have "0 < cmp (gk a) (gk v)" by (simp add: cmp_sym)
      with 2 show thesis using ins [of "Node (Node Null v hx Null) a h r" False "[]" "[a]"] lr Node assms
        by (auto simp: Avl_PushWithDuplicate_def)
    next
      case 3
      moreover from 3 have "cmp (gk a) (gk v) = 0" by (simp add: cmp_eq_sym)
      ultimately show thesis using dup [of a] lr Node by (auto simp: Avl_PushWithDuplicate_def)
    qed
  next
    case False
    show thesis
    proof (cases "FindSlot cmp gk (gk v) t")
      case (Inl p)
      note slot = FindSlot_Inl [OF sorted Inl]
      then obtain t' go where t': "LinkSlot_InsertFixup v hx p t = Some (t', go)" "heights_nonneg t'"
          "inorder t' = take (pos_index p t) (inorder t) @ v # drop (pos_index p t) (inorder t)"
        using LinkSlot_yields [of t hx p v] assms by (auto elim: yieldsE)
      have "Avl_PushWithDuplicate cmp gk w hx v t = Some (True, v, t', True)"
        using False Inl Node t'(1) by (auto simp: Avl_PushWithDuplicate_def)
      from ins [OF this t'(2) append_take_drop_id [symmetric] t'(3)] slot show thesis by blast
    next
      case (Inr p)
      have "Avl_PushWithDuplicate cmp gk False hx v t = Some (False, inorder t ! pos_index p t, t, False)"
        using False Inr Node FindSlot_Inr [OF Inr] value_at_pos [of p t]
        by (auto simp: Avl_PushWithDuplicate_def)
      from dup [OF this] FindSlot_Inr [OF Inr] pos_index_less [of p t] show thesis by simp
    qed
  qed
qed

lemma InsertWithDuplicate_eq_Push:
  "Avl_InsertWithDuplicate cmp gk v t = Avl_PushWithDuplicate cmp gk False 1 v t"
  by (cases t) (simp_all add: Avl_InsertWithDuplicate_def Avl_PushWithDuplicate_def)

lemma insert_strict_sorted:
  assumes "strict_sorted cmp gk (ys @ zs)" "\<And>y. y \<in> set ys \<Longrightarrow> cmp (gk y) (gk v) < 0"
    "\<And>z. z \<in> set zs \<Longrightarrow> 0 < cmp (gk z) (gk v)"
  shows "strict_sorted cmp gk (ys @ v # zs)"
  using assms by (auto simp: strict_sorted_def sorted_wrt_append cmp_sym)

lemma PushEq_spec:
  assumes "heights_nonneg t" "weak_sorted cmp gk (inorder t)" "0 \<le> hx"
  shows "\<exists>t' ys zs. Avl_PushEq cmp gk hx v t = Some t' \<and> heights_nonneg t' \<and> inorder t = ys @ zs
    \<and> inorder t' = ys @ v # zs \<and> weak_sorted cmp gk (inorder t')"
proof -
  let ?p = "FindSlotEq cmp gk (gk v) t"
  let ?ys = "take (pos_index ?p t) (inorder t)" and ?zs = "drop (pos_index ?p t) (inorder t)"
  note slot = FindSlotEq_slot [OF assms(2), of "gk v"]
  then obtain t' go where t': "LinkSlot_InsertFixup v hx ?p t = Some (t', go)" "heights_nonneg t'"
      "inorder t' = ?ys @ v # ?zs"
    using LinkSlot_yields [of t hx ?p v] assms by (auto elim: yieldsE)
  have le: "cmp (gk v) (gk z) \<le> 0" if "z \<in> set ?zs" for z
    using slot that cmp_sym [of "gk z" "gk v"] by force
  have "weak_sorted cmp gk (?ys @ ?zs)" using assms(2) by simp
  then have "weak_sorted cmp gk (?ys @ v # ?zs)"
    using slot le unfolding weak_sorted_def sorted_wrt_append by auto
  moreover have "Avl_PushEq cmp gk hx v t = Some t'"
    using t'(1) by (cases t) (auto simp: Avl_PushEq_def)
  ultimately show ?thesis using t' append_take_drop_id [symmetric] by metis
qed

lemma strict_filter_nth:
  assumes "strict_sorted cmp gk xs" "i < length xs" "cmp (gk (xs ! i)) k = 0"
  shows "take i xs @ drop (Suc i) xs = filter (\<lambda>x. cmp (gk x) k \<noteq> 0) xs"
proof -
  have split: "xs = take i xs @ xs ! i # drop (Suc i) xs" by (simp add: assms id_take_nth_drop [symmetric])
  from assms(1) have s: "strict_sorted cmp gk (take i xs @ xs ! i # drop (Suc i) xs)"
    by (subst (asm) split) simp
  have l: "cmp (gk x) k \<noteq> 0" if "x \<in> set (take i xs)" for x
  proof -
    from s that have "cmp (gk x) (gk (xs ! i)) < 0" by (simp add: strict_sorted_def sorted_wrt_append)
    then show ?thesis using cmp_eq_less [OF assms(3), of "gk x"] by simp
  qed
  have r: "cmp (gk x) k \<noteq> 0" if "x \<in> set (drop (Suc i) xs)" for x
  proof -
    from s that have "cmp (gk (xs ! i)) (gk x) < 0" by (simp add: strict_sorted_def sorted_wrt_append)
    then show ?thesis using cmp_eq_greater [OF assms(3), of "gk x"] by (simp add: cmp_eq_sym)
  qed
  have "filter (\<lambda>x. cmp (gk x) k \<noteq> 0) (take i xs @ xs ! i # drop (Suc i) xs) = take i xs @ drop (Suc i) xs"
    using l r assms(3) by (simp add: filter_id_conv')
  with split show ?thesis by simp
qed

lemma find_strict:
  assumes "strict_sorted cmp gk xs" "i < length xs" "cmp (gk (xs ! i)) k = 0"
  shows "List.find (\<lambda>x. cmp (gk x) k = 0) xs = Some (xs ! i)"
proof -
  have "cmp (gk (xs ! j)) k \<noteq> 0" if "j < i" for j
    using assms that cmp_eq_less [OF assms(3), of "gk (xs ! j)"]
    by (auto simp: strict_sorted_def sorted_wrt_iff_nth_less)
  with assms(2,3) show ?thesis by (auto simp: find_Some_iff)
qed

lemma Avl_Find_find:
  assumes "strict_sorted cmp gk (inorder t)"
  shows "Avl_Find cmp gk k t = List.find (\<lambda>x. cmp (gk x) k = 0) (inorder t)"
proof (cases "FindNode cmp gk k t")
  case None
  then show ?thesis using FindNode_None [OF strict_imp_weak [OF assms] None]
    by (simp add: Avl_Find_def find_NoneI)
next
  case (Some p)
  from FindNode_Some [OF Some] have p: "valid_pos p t" "cmp (gk (inorder t ! pos_index p t)) k = 0" by auto
  with find_strict [OF assms pos_index_less [OF p(1)] p(2)] Some value_at_pos [OF p(1)] show ?thesis
    by (simp add: Avl_Find_def)
qed

lemma heights_nonneg_at: "heights_nonneg t \<Longrightarrow> heights_nonneg (node_at p t)"
  by (induction p t rule: node_at.induct) auto

lemma Avl_Erase_spec:
  assumes "heights_nonneg t" "strict_sorted cmp gk (inorder t)"
  shows "\<exists>t'. Avl_Erase cmp gk k t = Some (\<exists>x \<in> set (inorder t). cmp (gk x) k = 0, t')
    \<and> (\<exists>h \<ge> 0. Avl_Extract cmp gk k t = Some (map_option (\<lambda>v. (v, h)) (Avl_Find cmp gk k t), t'))
    \<and> heights_nonneg t' \<and> inorder t' = filter (\<lambda>x. cmp (gk x) k \<noteq> 0) (inorder t)"
proof (cases "FindNode cmp gk k t")
  case None
  then show ?thesis using FindNode_None [OF strict_imp_weak [OF assms(2)] None] assms
    by (auto simp: Avl_Erase_def Avl_Extract_def Avl_Find_def filter_id_conv')
next
  case (Some p)
  from FindNode_Some [OF Some] have p: "valid_pos p t" "cmp (gk (inorder t ! pos_index p t)) k = 0" by auto
  then have "\<exists>x \<in> set (inorder t). cmp (gk x) k = 0" using pos_index_less nth_mem by blast
  moreover have "0 \<le> node_height (node_at p t)"
    using heights_nonneg_at [OF assms(1)] by (rule node_height_nonneg)
  ultimately show ?thesis
    using Some p value_at_pos [OF p(1)] Erase_node_yields [OF assms(1) p(1)]
      strict_filter_nth [OF assms(2) pos_index_less [OF p(1)] p(2)]
    by (auto simp: Avl_Erase_def Avl_Extract_def Avl_Find_def elim!: yieldsE)
qed

lemma lower_suffix: "weak_sorted cmp gk xs \<Longrightarrow> sorted_wrt (\<lambda>x y. 0 \<le> cmp (gk x) k \<longrightarrow> 0 \<le> cmp (gk y) k) xs"
  unfolding weak_sorted_def
  by (erule sorted_wrt_mono_rel [rotated]) (meson cmp_le_less_trans not_le)

lemma upper_suffix: "weak_sorted cmp gk xs \<Longrightarrow> sorted_wrt (\<lambda>x y. 0 < cmp (gk x) k \<longrightarrow> 0 < cmp (gk y) k) xs"
  unfolding weak_sorted_def
  by (erule sorted_wrt_mono_rel [rotated]) (meson cmp_trans not_le)

lemma LowerBound_index:
  assumes "weak_sorted cmp gk (inorder t)"
  shows "case LowerBound cmp gk k t of
      None \<Rightarrow> \<forall>x \<in> set (inorder t). cmp (gk x) k < 0
    | Some p \<Rightarrow> valid_pos p t \<and> pos_index p t = length (takeWhile (\<lambda>x. cmp (gk x) k < 0) (inorder t))"
  using bound_pos_index [OF lower_suffix [OF assms, of k]]
  by (auto simp: LowerBound_bound_pos not_le split: option.splits)

lemma UpperBound_index:
  assumes "weak_sorted cmp gk (inorder t)"
  shows "case UpperBound cmp gk k t of
      None \<Rightarrow> \<forall>x \<in> set (inorder t). cmp (gk x) k \<le> 0
    | Some p \<Rightarrow> valid_pos p t \<and> pos_index p t = length (takeWhile (\<lambda>x. cmp (gk x) k \<le> 0) (inorder t))"
  using bound_pos_index [OF upper_suffix [OF assms, of k]]
  by (auto simp: UpperBound_bound_pos not_less split: option.splits)

text \<open>\<^verbatim>\<open>Erase(key, pred)\<close> erases the first match at or after the node it starts from.\<close>

lemma Erase_pred_loop_hit:
  assumes "heights_nonneg t" "valid_pos p t" "pos_index p t \<le> j" "j < avl_size t" "pred (inorder t ! j)"
    "\<And>i. pos_index p t \<le> i \<Longrightarrow> i < j \<Longrightarrow> \<not> pred (inorder t ! i)"
    "\<And>i. pos_index p t < i \<Longrightarrow> i \<le> j \<Longrightarrow> cmp (gk (inorder t ! i)) k = 0"
  shows "\<exists>t'. Erase_pred_loop cmp gk k pred t p = Some (True, t') \<and> heights_nonneg t'
    \<and> inorder t' = take j (inorder t) @ drop (Suc j) (inorder t)"
  using assms(2-7)
proof (induction "j - pos_index p t" arbitrary: p)
  case 0
  then have j: "j = pos_index p t" by simp
  with 0 value_at_pos [of p t] Erase_node_yields [OF assms(1), of p] show ?case
    by (subst Erase_pred_loop.simps) (auto simp del: Erase_pred_loop.simps value_at.simps elim!: yieldsE)
next
  case (Suc d)
  then have lt: "pos_index p t < j" by linarith
  with Suc GetNextNode_step [of p t] obtain q where
    q: "GetNextNode t p = Some q" "valid_pos q t" "pos_index q t = Suc (pos_index p t)"
    by (auto split: option.splits)
  have "\<exists>t'. Erase_pred_loop cmp gk k pred t q = Some (True, t') \<and> heights_nonneg t'
      \<and> inorder t' = take j (inorder t) @ drop (Suc j) (inorder t)"
    using Suc(2-8) q lt by (intro Suc(1)) auto
  moreover have "\<not> pred (inorder t ! pos_index p t)" "cmp (gk (inorder t ! pos_index q t)) k = 0"
    using Suc(7) [of "pos_index p t"] Suc(8) [of "pos_index q t"] lt q by auto
  ultimately show ?case using q value_at_pos [OF Suc(3)] value_at_pos [OF q(2)]
    by (subst Erase_pred_loop.simps) (simp del: Erase_pred_loop.simps value_at.simps)
qed

end

section \<open>Balance of the tree operations\<close>

lemma Avl_PushWithDuplicate_root:
  assumes "avl_root t" "Avl_PushWithDuplicate cmp gk w 1 v t = Some (ok, d, t', inc)"
  shows "avl_root t'"
proof (cases t)
  case Null
  with assms show ?thesis by (auto simp: Avl_PushWithDuplicate_def)
next
  case (Node l a h r)
  show ?thesis
  proof (cases "is_Null l \<and> is_Null r")
    case True
    then have "l = Null" "r = Null" by (auto simp: is_Null_def)
    with Node assms show ?thesis
      by (auto simp: Avl_PushWithDuplicate_def Let_def split: if_splits)
  next
    case False
    show ?thesis
    proof (cases "FindSlot cmp gk (gk v) t")
      case (Inl p)
      with assms False Node LinkSlot_avl_root [of t v p] show ?thesis
        by (auto simp: Avl_PushWithDuplicate_def simp del: avl_root.simps)
    next
      case (Inr p)
      with assms False Node show ?thesis
        by (auto simp: Avl_PushWithDuplicate_def simp del: avl_root.simps)
    qed
  qed
qed

lemma Avl_PushEq_root:
  assumes "avl_root t" "Avl_PushEq cmp gk 1 v t = Some t'"
  shows "avl_root t'"
  using assms LinkSlot_avl_root [of t v "FindSlotEq cmp gk (gk v) t"]
  by (auto simp: Avl_PushEq_def split: if_splits)

lemma Avl_EraseNode_root:
  assumes "avl_root t" "Avl_EraseNode pos t = Some (ok, t')"
  shows "avl_root t'"
  using assms Erase_node_avl_root [of t "the pos"]
  by (cases pos) (auto simp: Avl_EraseNode_def)

lemma Avl_Erase_EraseNode: "Avl_Erase cmp gk k t = Avl_EraseNode (FindNode cmp gk k t) t"
  by (simp add: Avl_Erase_def Avl_EraseNode_def)

lemma Avl_EraseNode_index:
  assumes "heights_nonneg t" "valid_pos p t"
  shows "\<exists>t'. Avl_EraseNode (Some p) t = Some (True, t') \<and> heights_nonneg t'
    \<and> inorder t' = take (pos_index p t) (inorder t) @ drop (Suc (pos_index p t)) (inorder t)"
  using Erase_node_yields [OF assms] by (auto simp: Avl_EraseNode_def elim!: yieldsE)

end
