(* ===== verification/AvlProps.thy ===== *)
theory AvlProps
  imports AvlTree
begin

text \<open>
  The correctness properties of the AVL tree, each with an evaluated instance.
\<close>

text \<open>The size hook keeps \<^verbatim>\<open>count_\<close> equal to the number of nodes, modulo the width of \<^verbatim>\<open>size_type\<close>.\<close>

definition counted :: "'a avl_tree \<Rightarrow> bool" where
  "counted t = (count_of t = of_nat (avl_size (root_of t)))"

text \<open>The comparator of \<^verbatim>\<open>vset.h\<close>-style keys on the integers, used to evaluate the operations.\<close>

definition int_cmp :: "int \<Rightarrow> int \<Rightarrow> int" where
  "int_cmp x y = (if x = y then 0 else if y < x then 1 else - 1)"

lemma comparator_int_cmp: "comparator int_cmp"
  by unfold_locales (auto simp: int_cmp_def split: if_splits)

text \<open>
  C25. Insertion. On a balanced tree that is sorted by the comparator, \<^verbatim>\<open>_InsertWithDuplicate\<close> always
  returns. Either an equal key is present, then nothing changes and the stored value is handed
  back; or the value is placed between the smaller and the greater keys of the in-order sequence.
  The result is balanced and sorted.
\<close>

theorem avl_insert_correct:
  assumes "comparator cmp" "avl_root t" "strict_sorted cmp gk (inorder t)"
  shows "case Avl_InsertWithDuplicate cmp gk v t of None \<Rightarrow> False | Some (ok, d, t', inc) \<Rightarrow>
    avl_root t' \<and> strict_sorted cmp gk (inorder t')
    \<and> (\<not> ok \<longrightarrow> t' = t \<and> d \<in> set (inorder t) \<and> cmp (gk d) (gk v) = 0)
    \<and> (ok \<longrightarrow> d = v \<and> (\<forall>x \<in> set (inorder t). cmp (gk x) (gk v) \<noteq> 0)
         \<and> inorder t' = takeWhile (\<lambda>x. cmp (gk x) (gk v) < 0) (inorder t) @ v
                        # dropWhile (\<lambda>x. cmp (gk x) (gk v) < 0) (inorder t))"
proof (cases rule: comparator.PushWithDuplicate_cases
    [OF assms(1) avl_root_nonneg [OF assms(2)] strict_imp_weak [OF assms(3)] zero_le_one,
     where v = v and w = False, case_names dup ins])
  case (dup d)
  with assms show ?thesis by (simp add: comparator.InsertWithDuplicate_eq_Push)
next
  case (ins t' inc ys zs)
  have "takeWhile (\<lambda>x. cmp (gk x) (gk v) < 0) (ys @ zs) = ys" "dropWhile (\<lambda>x. cmp (gk x) (gk v) < 0) (ys @ zs) = zs"
    using ins(5,6) by (cases zs; force simp: takeWhile_append2 dropWhile_append2)+
  moreover have "strict_sorted cmp gk (ys @ v # zs)"
    using assms(3) ins(3) by (intro comparator.insert_strict_sorted [OF assms(1)] ins(5,6)) auto
  moreover have "\<forall>x \<in> set (ys @ zs). cmp (gk x) (gk v) \<noteq> 0" using ins(5,6) by fastforce
  ultimately show ?thesis
    using ins assms Avl_PushWithDuplicate_root [OF assms(2) ins(1)]
    by (simp add: comparator.InsertWithDuplicate_eq_Push)
qed

definition ex_tree :: "int avl_node" where
  "ex_tree = Node (Node Null 10 1 Null) 20 2 (Node Null 30 1 Null)"

lemma ex_tree_ok: "avl_root ex_tree" "strict_sorted int_cmp id (inorder ex_tree)"
  "inorder ex_tree = [10, 20, 30]"
  by (simp_all add: ex_tree_def strict_sorted_def int_cmp_def)

theorem avl_insert_correct_witness:
  "\<exists>ok d t' inc. Avl_InsertWithDuplicate int_cmp id 25 ex_tree = Some (ok, d, t', inc)
     \<and> avl_root t' \<and> ok \<and> inorder t' = [10, 20, 25, 30]"
proof -
  have "Avl_InsertWithDuplicate int_cmp id 25 ex_tree =
      Some (True, 25, Node (Node Null 10 1 Null) 20 3 (Node (Node Null 25 1 Null) 30 2 Null), True)"
    by (simp add: ex_tree_def Avl_InsertWithDuplicate_def int_cmp_def fixup_def Rebalance_def Let_def AVL_MAX_def
        del: AVL_MAX_max)
  with avl_insert_correct [OF comparator_int_cmp ex_tree_ok(1,2), of 25] show ?thesis
    by (auto simp: ex_tree_ok(3) int_cmp_def)
qed

text \<open>
  C26. Erasure and extraction. On a balanced sorted tree \<^verbatim>\<open>Erase(key)\<close> returns whether the key was
  present and leaves exactly the other values, in order and balanced; \<^verbatim>\<open>Extract(key)\<close> hands out the
  value \<^verbatim>\<open>Find\<close> would return and leaves the same tree.
\<close>

theorem avl_erase_correct:
  assumes "comparator cmp" "avl_root t" "strict_sorted cmp gk (inorder t)"
  shows "\<exists>t'. Avl_Erase cmp gk k t = Some (\<exists>x \<in> set (inorder t). cmp (gk x) k = 0, t')
    \<and> (\<exists>h. Avl_Extract cmp gk k t = Some (map_option (\<lambda>v. (v, h)) (List.find (\<lambda>x. cmp (gk x) k = 0) (inorder t)), t'))
    \<and> avl_root t' \<and> inorder t' = filter (\<lambda>x. cmp (gk x) k \<noteq> 0) (inorder t)"
proof -
  obtain t' h where t': "Avl_Erase cmp gk k t = Some (\<exists>x \<in> set (inorder t). cmp (gk x) k = 0, t')"
      "Avl_Extract cmp gk k t = Some (map_option (\<lambda>v. (v, h)) (Avl_Find cmp gk k t), t')"
      "inorder t' = filter (\<lambda>x. cmp (gk x) k \<noteq> 0) (inorder t)"
    using comparator.Avl_Erase_spec [OF assms(1) avl_root_nonneg [OF assms(2)] assms(3), of k] by blast
  with comparator.Avl_Find_find [OF assms(1,3), of k]
    Avl_EraseNode_root [OF assms(2) t'(1) [unfolded Avl_Erase_EraseNode]]
  show ?thesis by auto
qed

theorem avl_erase_correct_witness:
  "\<exists>t'. Avl_Erase int_cmp id 20 ex_tree = Some (True, t') \<and> avl_root t' \<and> inorder t' = [10, 30]"
  using avl_erase_correct [OF comparator_int_cmp ex_tree_ok(1,2), of 20]
  by (auto simp: ex_tree_ok(3) int_cmp_def)

text \<open>
  Bounds. On a tree sorted with equal keys allowed, \<^verbatim>\<open>LowerBound(key)\<close> is the position just after
  all smaller keys and \<^verbatim>\<open>UpperBound(key)\<close> the position just after all keys not greater; each is the
  end iterator exactly when no such element exists.
\<close>

theorem avl_bounds_correct:
  assumes "comparator cmp" "weak_sorted cmp gk (inorder t)"
  shows "(case LowerBound cmp gk k t of
        None \<Rightarrow> \<forall>x \<in> set (inorder t). cmp (gk x) k < 0
      | Some p \<Rightarrow> valid_pos p t \<and> pos_index p t = length (takeWhile (\<lambda>x. cmp (gk x) k < 0) (inorder t)))
    \<and> (case UpperBound cmp gk k t of
        None \<Rightarrow> \<forall>x \<in> set (inorder t). cmp (gk x) k \<le> 0
      | Some p \<Rightarrow> valid_pos p t \<and> pos_index p t = length (takeWhile (\<lambda>x. cmp (gk x) k \<le> 0) (inorder t)))"
  using comparator.LowerBound_index [OF assms] comparator.UpperBound_index [OF assms] by (rule conjI)

theorem avl_bounds_correct_witness:
  "LowerBound int_cmp id 20 ex_tree = Some [] \<and> UpperBound int_cmp id 20 ex_tree = Some [R]
   \<and> (case UpperBound int_cmp id 20 ex_tree of None \<Rightarrow> False
      | Some p \<Rightarrow> pos_index p ex_tree = length (takeWhile (\<lambda>x. int_cmp (id x) 20 \<le> 0) (inorder ex_tree)))"
proof -
  have "LowerBound int_cmp id 20 ex_tree = Some []" "UpperBound int_cmp id 20 ex_tree = Some [R]"
    by (simp_all add: ex_tree_def LowerBound_def UpperBound_def int_cmp_def)
  with avl_bounds_correct [OF comparator_int_cmp strict_imp_weak [OF ex_tree_ok(2)], of 20] show ?thesis
    by simp
qed

text \<open>
  Height. In a balanced tree of \<open>n\<close> nodes the longest path has at most about \<open>2 log (n + 1)\<close> nodes.
\<close>

theorem avl_height_logarithmic:
  assumes "avl_root t"
  shows "2 ^ nat (CalculateHeight t div 2) \<le> avl_size t + 1"
  using avl_root_size_bound [OF assms] by simp

theorem avl_height_logarithmic_witness: "2 ^ nat (CalculateHeight ex_tree div 2) \<le> avl_size ex_tree + 1"
  using avl_height_logarithmic [OF ex_tree_ok(1)] .

text \<open>
  Teardown. \<^verbatim>\<open>ReuseAllNodes\<close> terminates and hands every node to the callback exactly once, children
  before their parent; \<^verbatim>\<open>DoInAll\<close> visits the values in key order.
\<close>

theorem avl_traversals_correct:
  "ReuseAllNodes t = postorder t \<and> mset (ReuseAllNodes t) = mset (inorder t) \<and> DoInAll t = inorder t"
  by (simp add: ReuseAllNodes_postorder mset_postorder DoInAll_inorder)

text \<open>
  Insertion with equal keys allowed keeps a counted tree sorted, balanced and counted, and adds
  exactly the new value.
\<close>

theorem avl_insert_eq_correct:
  assumes "comparator cmp" "avl_root (root_of t)" "weak_sorted cmp gk (inorder (root_of t))" "counted t"
  shows "\<exists>t'. AvlTree_InsertEq cmp gk v t = Some t' \<and> avl_root (root_of t') \<and> counted t'
    \<and> weak_sorted cmp gk (inorder (root_of t')) \<and> mset (inorder (root_of t')) = add_mset v (mset (inorder (root_of t)))"
proof -
  obtain r' ys zs where r: "Avl_PushEq cmp gk 1 v (root_of t) = Some r'" "inorder (root_of t) = ys @ zs"
      "inorder r' = ys @ v # zs" "weak_sorted cmp gk (inorder r')"
    using comparator.PushEq_spec [OF assms(1) avl_root_nonneg [OF assms(2)] assms(3) zero_le_one, of v] by blast
  with Avl_PushEq_root [OF assms(2) r(1)] assms(4) show ?thesis
    by (auto simp: AvlTree_InsertEq_def Avl_InsertEq_def counted_def)
qed

theorem avl_insert_eq_correct_witness:
  "\<exists>t'. AvlTree_InsertEq int_cmp id 20 \<lparr>root_of = ex_tree, count_of = 3\<rparr> = Some t'
     \<and> avl_root (root_of t') \<and> count_of t' = 4"
  using avl_insert_eq_correct [OF comparator_int_cmp, of "\<lparr>root_of = ex_tree, count_of = 3\<rparr>" id 20]
    strict_imp_weak [OF ex_tree_ok(2)] ex_tree_ok
  by (simp add: counted_def AvlTree_InsertEq_def) force

text \<open>
  Iteration. From any node \<^verbatim>\<open>_GetNextNode\<close> reaches the next position of the in-order sequence
  and \<^verbatim>\<open>_GetPrevNode\<close> the previous one; null is returned exactly past either end.
\<close>

theorem avl_iteration_correct:
  assumes "valid_pos p t"
  shows "(case GetNextNode t p of
        None \<Rightarrow> Suc (pos_index p t) = avl_size t
      | Some q \<Rightarrow> valid_pos q t \<and> pos_index q t = Suc (pos_index p t) \<and> GetPrevNode t q = Some p)
    \<and> (case GetPrevNode t p of
        None \<Rightarrow> pos_index p t = 0
      | Some q \<Rightarrow> valid_pos q t \<and> Suc (pos_index q t) = pos_index p t)"
proof -
  have "GetPrevNode t q = Some p" if q: "valid_pos q t" "pos_index q t = Suc (pos_index p t)" for q
  proof (cases "GetPrevNode t q")
    case None
    with GetPrevNode_step [OF q(1)] q(2) show ?thesis by simp
  next
    case (Some p')
    with GetPrevNode_step [OF q(1)] q(2) have "valid_pos p' t" "pos_index p' t = pos_index p t" by auto
    with Some pos_index_inj [of p' t p] assms show ?thesis by simp
  qed
  with GetNextNode_step [OF assms] GetPrevNode_step [OF assms] show ?thesis
    by (auto split: option.splits)
qed

theorem avl_iteration_correct_witness:
  "GetNextNode ex_tree [] = Some [R] \<and> GetPrevNode ex_tree [R] = Some []"
  using avl_iteration_correct [of "[]" ex_tree] by (simp add: ex_tree_def GetNextNode_def)

text \<open>
  The second node. Inserting a second key into a one-node counted tree leaves the count at its
  old value: the special case returns before \<^verbatim>\<open>IncreaseCount\<close>.
\<close>

theorem avl_second_insert_not_counted:
  assumes "root_of t = Node Null a h Null" "cmp (gk v) (gk a) \<noteq> 0"
  shows "\<exists>t'. AvlTree_Insert cmp gk v t = Some (True, t') \<and> avl_size (root_of t') = 2 \<and> count_of t' = count_of t"
proof (cases "0 < cmp (gk v) (gk a)")
  case True
  with assms(1) show ?thesis by (simp add: AvlTree_Insert_def Avl_InsertWithDuplicate_def)
next
  case False
  with assms have "cmp (gk v) (gk a) < 0" by linarith
  with assms(1) show ?thesis by (simp add: AvlTree_Insert_def Avl_InsertWithDuplicate_def)
qed

theorem avl_second_insert_not_counted_witness:
  "\<exists>t'. AvlTree_Insert int_cmp id 5 \<lparr>root_of = Node Null 7 1 Null, count_of = 1\<rparr> = Some (True, t')
     \<and> avl_size (root_of t') = 2 \<and> count_of t' = 1"
  using avl_second_insert_not_counted [of "\<lparr>root_of = Node Null 7 1 Null, count_of = 1\<rparr>" 7 1 int_cmp id 5]
  by (simp add: int_cmp_def)

end
