(* ===== verification/Blist.thy ===== *)
theory Blist
  imports Prelude
begin

text \<open>
  The doubly linked list of \<^verbatim>\<open>algo/blist.h\<close> on an explicit heap of nodes. \<^verbatim>\<open>header_->prev\<close> is the tail and
  the tail's \<^verbatim>\<open>next\<close> is null. Every read or write goes through the heap: a null or freed pointer, and
  a failed assertion, give \<^term>\<open>None\<close>. \<^verbatim>\<open>CreateNode\<close> stores a fresh node at an unused address.

  Shown: on a well-formed list every operation returns, keeps well-formedness, and acts on the
  sequence of node addresses (hence of values) as the list operation of its name; nodes of other
  lists are left alone.
\<close>

type_synonym addr = nat

record 'a bnode =
  bprev :: "addr option"
  bnext :: "addr option"
  bvalue :: 'a

type_synonym 'a bheap = "addr \<rightharpoonup> 'a bnode"

record blist =
  bheader :: "addr option"
  bcount :: nat

abbreviation blist_new :: blist where
  "blist_new \<equiv> \<lparr>bheader = None, bcount = 0\<rparr>"

definition set_prev :: "addr \<Rightarrow> addr option \<Rightarrow> 'a bheap \<Rightarrow> 'a bheap option" where
  "set_prev a p h = do { n \<leftarrow> h a; Some (h(a \<mapsto> n\<lparr>bprev := p\<rparr>)) }"

definition set_next :: "addr \<Rightarrow> addr option \<Rightarrow> 'a bheap \<Rightarrow> 'a bheap option" where
  "set_next a p h = do { n \<leftarrow> h a; Some (h(a \<mapsto> n\<lparr>bnext := p\<rparr>)) }"

definition assertion :: "bool \<Rightarrow> unit option" where
  "assertion b = (if b then Some () else None)"

definition size_dec :: "nat \<Rightarrow> nat" where
  "size_dec n = (if n = 0 then 2 ^ 64 - 1 else n - 1)"

section \<open>Operations\<close>

definition Blist_CreateNode :: "addr \<Rightarrow> 'a \<Rightarrow> 'a bheap \<Rightarrow> 'a bheap" where
  "Blist_CreateNode a v h = h(a \<mapsto> \<lparr>bprev = None, bnext = None, bvalue = v\<rparr>)"

definition Blist_DropNode :: "addr \<Rightarrow> 'a bheap \<Rightarrow> 'a bheap option" where
  "Blist_DropNode a h = do { _ \<leftarrow> h a; Some (h(a := None)) }"

definition Blist_SetHeader :: "addr \<Rightarrow> 'a bheap \<Rightarrow> blist \<Rightarrow> ('a bheap \<times> blist) option" where
  "Blist_SetHeader a h bl =
     do { h \<leftarrow> set_prev a (Some a) h;
          n \<leftarrow> h a;
          assertion (bnext n = None);
          Some (h, bl\<lparr>bheader := Some a\<rparr>) }"

definition Blist_InsertAfter :: "addr option \<Rightarrow> addr \<Rightarrow> 'a bheap \<Rightarrow> blist \<Rightarrow> ('a bheap \<times> blist) option" where
  "Blist_InsertAfter node new h bl = (case node of
      None \<Rightarrow> None
    | Some a \<Rightarrow>
        do { n \<leftarrow> h a;
             h \<leftarrow> set_prev new (Some a) h;
             h \<leftarrow> set_next new (bnext n) h;
             h \<leftarrow> (case bnext n of
                   Some b \<Rightarrow> set_prev b (Some new) h
                 | None \<Rightarrow> do { hp \<leftarrow> bheader bl; set_prev hp (Some new) h });
             h \<leftarrow> set_next a (Some new) h;
             Some (h, bl\<lparr>bcount := bcount bl + 1\<rparr>) })"

definition Blist_PushFront :: "addr \<Rightarrow> 'a bheap \<Rightarrow> blist \<Rightarrow> (int \<times> 'a bheap \<times> blist) option" where
  "Blist_PushFront a h bl = (case bheader bl of
      None \<Rightarrow> do { (h, bl) \<leftarrow> Blist_SetHeader a h bl; Some (1, h, bl\<lparr>bcount := 1\<rparr>) }
    | Some hp \<Rightarrow>
        if 2 ^ 64 - 1 < bcount bl then Some (0, h, bl)
        else do { h \<leftarrow> set_next a (Some hp) h;
                  n \<leftarrow> h hp;
                  h \<leftarrow> set_prev a (bprev n) h;
                  h \<leftarrow> set_prev hp (Some a) h;
                  Some (1, h, \<lparr>bheader = Some a, bcount = bcount bl + 1\<rparr>) })"

definition Blist_PushBack :: "addr \<Rightarrow> 'a bheap \<Rightarrow> blist \<Rightarrow> (int \<times> 'a bheap \<times> blist) option" where
  "Blist_PushBack a h bl = (case bheader bl of
      None \<Rightarrow> do { (h, bl) \<leftarrow> Blist_SetHeader a h bl; Some (1, h, bl\<lparr>bcount := 1\<rparr>) }
    | Some hp \<Rightarrow>
        if 2 ^ 64 - 1 < bcount bl then Some (0, h, bl)
        else do { n \<leftarrow> h hp;
                  h \<leftarrow> set_prev a (bprev n) h;
                  n \<leftarrow> h hp;
                  t \<leftarrow> bprev n;
                  h \<leftarrow> set_next t (Some a) h;
                  h \<leftarrow> set_prev hp (Some a) h;
                  n \<leftarrow> h a;
                  assertion (bnext n = None);
                  Some (1, h, bl\<lparr>bcount := bcount bl + 1\<rparr>) })"

definition Blist_PopFront :: "'a bheap \<Rightarrow> blist \<Rightarrow> (int \<times> 'a bheap \<times> blist) option" where
  "Blist_PopFront h bl = (case bheader bl of
      None \<Rightarrow> Some (0, h, bl)
    | Some hp \<Rightarrow>
        if bcount bl = 1 then do { h \<leftarrow> Blist_DropNode hp h; Some (1, h, \<lparr>bheader = None, bcount = 0\<rparr>) }
        else do { n \<leftarrow> h hp;
                  b \<leftarrow> bnext n;
                  h \<leftarrow> set_prev b (bprev n) h;
                  h \<leftarrow> Blist_DropNode hp h;
                  Some (1, h, \<lparr>bheader = Some b, bcount = size_dec (bcount bl)\<rparr>) })"

definition Blist_PopBack :: "'a bheap \<Rightarrow> blist \<Rightarrow> (int \<times> 'a bheap \<times> blist) option" where
  "Blist_PopBack h bl = (case bheader bl of
      None \<Rightarrow> Some (0, h, bl)
    | Some hp \<Rightarrow>
        if bcount bl = 1 then do { h \<leftarrow> Blist_DropNode hp h; Some (1, h, \<lparr>bheader = None, bcount = 0\<rparr>) }
        else do { n \<leftarrow> h hp;
                  old_end \<leftarrow> bprev n;
                  e \<leftarrow> h old_end;
                  b \<leftarrow> bprev e;
                  h \<leftarrow> set_next b None h;
                  e \<leftarrow> h old_end;
                  h \<leftarrow> set_prev hp (bprev e) h;
                  h \<leftarrow> Blist_DropNode old_end h;
                  Some (1, h, bl\<lparr>bcount := size_dec (bcount bl)\<rparr>) })"

text \<open>\<^verbatim>\<open>Extract\<close> returns at once on a null node and on one already extracted.\<close>

definition Blist_Extract :: "addr option \<Rightarrow> 'a bheap \<Rightarrow> blist \<Rightarrow> ('a bheap \<times> blist) option" where
  "Blist_Extract node h bl = (case node of
      None \<Rightarrow> Some (h, bl)
    | Some a \<Rightarrow>
        do { n \<leftarrow> h a;
             if bprev n = None then Some (h, bl)
             else do {
               h \<leftarrow> (case bnext n of
                     Some b \<Rightarrow> set_prev b (bprev n) h
                   | None \<Rightarrow> do { hp \<leftarrow> bheader bl;
                                 m \<leftarrow> h hp;
                                 t \<leftarrow> bprev m;
                                 tn \<leftarrow> h t;
                                 assertion (bnext tn = None);
                                 set_prev hp (bprev n) h });
               n \<leftarrow> h a;
               (h, bl) \<leftarrow> (if bheader bl \<noteq> Some a
                     then do { p \<leftarrow> bprev n; h \<leftarrow> set_next p (bnext n) h; Some (h, bl) }
                     else Some (h, bl\<lparr>bheader := bnext n\<rparr>));
               h \<leftarrow> set_next a None h;
               h \<leftarrow> set_prev a None h;
               Some (h, bl\<lparr>bcount := size_dec (bcount bl)\<rparr>) } })"

definition Blist_Erase :: "addr \<Rightarrow> 'a bheap \<Rightarrow> blist \<Rightarrow> ('a bheap \<times> blist) option" where
  "Blist_Erase a h bl =
     do { (h, bl) \<leftarrow> Blist_Extract (Some a) h bl; h \<leftarrow> Blist_DropNode a h; Some (h, bl) }"

text \<open>The \<^verbatim>\<open>Clear\<close> loop; it would not end only on an endless chain of nodes.\<close>

partial_function (option) Blist_Clear_loop :: "addr option \<Rightarrow> 'a bheap \<Rightarrow> 'a bheap option" where
  "Blist_Clear_loop header h = (case header of
      None \<Rightarrow> Some h
    | Some hp \<Rightarrow> do { n \<leftarrow> h hp; h \<leftarrow> Blist_DropNode hp h; Blist_Clear_loop (bnext n) h })"

definition Blist_Clear :: "'a bheap \<Rightarrow> blist \<Rightarrow> ('a bheap \<times> blist) option" where
  "Blist_Clear h bl = do { h \<leftarrow> Blist_Clear_loop (bheader bl) h; Some (h, \<lparr>bheader = None, bcount = 0\<rparr>) }"

definition Blist_Front :: "'a bheap \<Rightarrow> blist \<Rightarrow> 'a option" where
  "Blist_Front h bl = do { hp \<leftarrow> bheader bl; n \<leftarrow> h hp; Some (bvalue n) }"

definition Blist_BackNode :: "'a bheap \<Rightarrow> blist \<Rightarrow> addr option option" where
  "Blist_BackNode h bl = do { hp \<leftarrow> bheader bl; n \<leftarrow> h hp; Some (bprev n) }"

definition Blist_Back :: "'a bheap \<Rightarrow> blist \<Rightarrow> 'a option" where
  "Blist_Back h bl = do { hp \<leftarrow> bheader bl; n \<leftarrow> h hp; t \<leftarrow> bprev n; m \<leftarrow> h t; Some (bvalue m) }"

definition Blist_swap :: "blist \<Rightarrow> blist \<Rightarrow> blist \<times> blist" where
  "Blist_swap bl o' = (o', bl)"

section \<open>Well-formed lists\<close>

definition first :: "addr list \<Rightarrow> addr option \<Rightarrow> addr option" where
  "first as q = (case as of [] \<Rightarrow> q | a # _ \<Rightarrow> Some a)"

definition final :: "addr option \<Rightarrow> addr list \<Rightarrow> addr option" where
  "final p as = (if as = [] then p else Some (last as))"

text \<open>Nodes \<open>as\<close> are linked in both directions, entered from \<open>p\<close> and leaving to \<open>q\<close>.\<close>

fun seg :: "'a bheap \<Rightarrow> addr option \<Rightarrow> addr list \<Rightarrow> addr option \<Rightarrow> bool" where
  "seg h p [] q = True"
| "seg h p (a # as) q = (case h a of None \<Rightarrow> False
     | Some n \<Rightarrow> bprev n = p \<and> bnext n = first as q \<and> seg h (Some a) as q)"

definition blist_ok :: "'a bheap \<Rightarrow> blist \<Rightarrow> addr list \<Rightarrow> bool" where
  "blist_ok h bl as = (distinct as \<and> seg h (final None as) as None
     \<and> bheader bl = first as None \<and> bcount bl = length as)"

definition bvals :: "'a bheap \<Rightarrow> addr list \<Rightarrow> 'a list" where
  "bvals h as = map (\<lambda>a. bvalue (the (h a))) as"

lemma first_simps [simp]: "first [] q = q" "first (a # as) q = Some a"
  by (simp_all add: first_def)

lemma final_simps [simp]: "final p [] = p" "final p (as @ [a]) = Some a"
  "final p (a # as) = final (Some a) as" "final p (as @ bs) = final (final p as) bs"
  by (auto simp: final_def)

lemma first_append: "first (as @ bs) q = first as (first bs q)"
  by (cases as) auto

lemma seg_append: "seg h p (as @ bs) q = (seg h p as (first bs q) \<and> seg h (final p as) bs q)"
  by (induction as arbitrary: p) (auto simp: first_append split: option.splits)

lemma seg_frame [simp]: "a \<notin> set as \<Longrightarrow> seg (h(a := x)) p as q = seg h p as q"
  by (induction as arbitrary: p) (auto split: option.splits)

lemma seg_cong: "(\<And>a. a \<in> set as \<Longrightarrow> h a = h' a) \<Longrightarrow> seg h p as q = seg h' p as q"
  by (induction as arbitrary: p) (auto split: option.splits)

lemma bvals_frame [simp]: "a \<notin> set as \<Longrightarrow> bvals (h(a := x)) as = bvals h as"
  by (auto simp: bvals_def)

lemma bvals_simps [simp]: "bvals h [] = []" "bvals h (a # as) = bvalue (the (h a)) # bvals h as"
  "bvals h (as @ bs) = bvals h as @ bvals h bs"
  by (simp_all add: bvals_def)

lemma seg_alloc: "seg h p as q \<Longrightarrow> a \<in> set as \<Longrightarrow> \<exists>n. h a = Some n"
  by (induction as arbitrary: p) (auto split: option.splits)

text \<open>Relinking writes only pointers, and only of the given nodes.\<close>

definition relinked :: "addr set \<Rightarrow> 'a bheap \<Rightarrow> 'a bheap \<Rightarrow> bool" where
  "relinked S h h' = ((\<forall>b. b \<notin> S \<longrightarrow> h' b = h b) \<and> (\<forall>b. map_option bvalue (h' b) = map_option bvalue (h b)))"

lemma relinked_bvals:
  assumes "relinked S h h'"
  shows "bvals h' as = bvals h as"
proof -
  have "bvalue (the (h' b)) = bvalue (the (h b))" for b
  proof -
    have "map_option bvalue (h' b) = map_option bvalue (h b)" using assms by (simp add: relinked_def)
    then show ?thesis by (cases "h b"; cases "h' b") auto
  qed
  then show ?thesis by (simp add: bvals_def)
qed

lemma relinked_mono: "relinked S h h' \<Longrightarrow> S \<subseteq> T \<Longrightarrow> relinked T h h'"
  by (auto simp: relinked_def)

lemma relinked_trans: "relinked S h h' \<Longrightarrow> relinked S h' h'' \<Longrightarrow> relinked S h h''"
  by (auto simp: relinked_def)

lemma set_prev_eq [heap_simps]: "h a = Some n \<Longrightarrow> set_prev a p h = Some (h(a \<mapsto> n\<lparr>bprev := p\<rparr>))"
  by (simp add: set_prev_def)

lemma set_next_eq [heap_simps]: "h a = Some n \<Longrightarrow> set_next a p h = Some (h(a \<mapsto> n\<lparr>bnext := p\<rparr>))"
  by (simp add: set_next_def)

lemma DropNode_eq [heap_simps]: "h a = Some n \<Longrightarrow> Blist_DropNode a h = Some (h(a := None))"
  by (simp add: Blist_DropNode_def)

lemma assertion_eq [heap_simps]: "assertion True = Some ()"
  by (simp add: assertion_def)

lemma blist_ok_Nil: "blist_ok h bl [] \<longleftrightarrow> bl = blist_new"
  by (auto simp: blist_ok_def)

lemma blist_ok_alloc: "blist_ok h bl as \<Longrightarrow> a \<in> set as \<Longrightarrow> \<exists>n. h a = Some n"
  by (auto simp: blist_ok_def intro: seg_alloc)

lemma blist_ok_frame: "blist_ok h bl as \<Longrightarrow> (\<And>a. a \<in> set as \<Longrightarrow> h' a = h a) \<Longrightarrow> blist_ok h' bl as"
  using seg_cong [of as h' h] by (auto simp: blist_ok_def)

text \<open>A list with at least two nodes, opened at its head and its tail.\<close>

lemma blist_ok_ends:
  assumes "blist_ok h bl (a # as @ [b])"
  obtains n m where "h a = Some n" "bprev n = Some b" "bnext n = first as (Some b)"
    "h b = Some m" "bprev m = final (Some a) as" "bnext m = None" "a \<noteq> b"
    "seg h (Some a) as (Some b)" "bheader bl = Some a" "bcount bl = length as + 2"
proof -
  have sg: "seg h (Some b) (a # as @ [b]) None" "a \<noteq> b"
    "bheader bl = Some a" "bcount bl = length as + 2"
    using assms by (auto simp: blist_ok_def)
  then obtain n m where "h a = Some n" "h b = Some m"
    by (auto simp: seg_append split: option.splits)
  with sg show thesis
    by (intro that [of n m]) (simp_all add: seg_append first_append)
qed

lemma list_ends_cases [case_names Nil single many]:
  obtains "as = []" | a where "as = [a]" | a bs b where "as = a # bs @ [b]"
proof (cases as)
  case (Cons a cs)
  with that show thesis by (cases cs rule: rev_cases) auto
qed (rule that(1))

lemma blist_ok_Cons:
  "blist_ok h bl (c # cs) \<longleftrightarrow> (\<exists>n. h c = Some n \<and> bprev n = final (Some c) cs \<and> bnext n = first cs None)
     \<and> seg h (Some c) cs None \<and> c \<notin> set cs \<and> distinct cs \<and> bheader bl = Some c \<and> bcount bl = Suc (length cs)"
  by (auto simp: blist_ok_def split: option.splits)

lemma PushFront_ok:
  assumes "blist_ok h bl as" "h a = Some n" "bnext n = None" "a \<notin> set as" "length as < 2 ^ 64"
  shows "\<exists>h' bl'. Blist_PushFront a h bl = Some (1, h', bl') \<and> blist_ok h' bl' (a # as)
    \<and> relinked (set (a # as)) h h'"
proof (cases as)
  case Nil
  with assms show ?thesis
    by (simp add: blist_ok_Nil blist_ok_Cons Blist_PushFront_def Blist_SetHeader_def heap_simps relinked_def)
next
  case (Cons c cs)
  with assms obtain m where m: "h c = Some m" "bprev m = final (Some c) cs" "bnext m = first cs None"
      "seg h (Some c) cs None" "c \<notin> set cs" "distinct cs" "bheader bl = Some c" "bcount bl = Suc (length cs)"
    by (auto simp: blist_ok_Cons)
  have ac: "a \<noteq> c" "c \<noteq> a" "a \<notin> set cs" using assms Cons by auto
  let ?h = "h(a \<mapsto> n\<lparr>bnext := Some c, bprev := bprev m\<rparr>, c \<mapsto> m\<lparr>bprev := Some a\<rparr>)"
  have "Blist_PushFront a h bl = Some (1, ?h, \<lparr>bheader = Some a, bcount = bcount bl + 1\<rparr>)"
    using m ac assms(2,5) Cons by (simp add: Blist_PushFront_def heap_simps)
  moreover have "blist_ok ?h \<lparr>bheader = Some a, bcount = bcount bl + 1\<rparr> (a # as)"
    using m ac Cons by (simp add: blist_ok_Cons)
  moreover have "relinked (set (a # as)) h ?h"
    using m(1) assms(2) Cons by (simp add: relinked_def)
  ultimately show ?thesis by blast
qed

lemma PushBack_ok:
  assumes "blist_ok h bl as" "h a = Some n" "bnext n = None" "a \<notin> set as" "length as < 2 ^ 64"
  shows "\<exists>h' bl'. Blist_PushBack a h bl = Some (1, h', bl') \<and> blist_ok h' bl' (as @ [a])
    \<and> relinked (set (a # as)) h h'"
proof (cases as rule: list_ends_cases)
  case Nil
  with assms show ?thesis
    by (simp add: blist_ok_Nil blist_ok_Cons Blist_PushBack_def Blist_SetHeader_def heap_simps relinked_def)
next
  case (single c)
  then show ?thesis using assms
    by (auto simp: blist_ok_Cons Blist_PushBack_def heap_simps relinked_def)
next
  case (many c bs d)
  obtain m k where o: "h c = Some m" "bprev m = Some d" "bnext m = first bs (Some d)"
      "h d = Some k" "bprev k = final (Some c) bs" "bnext k = None" "c \<noteq> d"
      "seg h (Some c) bs (Some d)" "bheader bl = Some c" "bcount bl = length bs + 2"
    using assms(1) unfolding many by (rule blist_ok_ends)
  have dist: "distinct (a # c # bs @ [d])" using assms many by (auto simp: blist_ok_def)
  let ?h = "h(a \<mapsto> n\<lparr>bprev := Some d\<rparr>, d \<mapsto> k\<lparr>bnext := Some a\<rparr>, c \<mapsto> m\<lparr>bprev := Some a\<rparr>)"
  have "Blist_PushBack a h bl = Some (1, ?h, bl\<lparr>bcount := bcount bl + 1\<rparr>)"
    using o dist assms(2,3,5) many by (auto simp: Blist_PushBack_def heap_simps)
  moreover have "blist_ok ?h (bl\<lparr>bcount := bcount bl + 1\<rparr>) (as @ [a])"
    using o dist many assms(3) by (auto simp: blist_ok_Cons seg_append first_append)
  moreover have "relinked (set (a # as)) h ?h"
    using o assms(2) many by (simp add: relinked_def)
  ultimately show ?thesis by blast
qed

lemma PopFront_ok:
  assumes "blist_ok h bl (a # as)"
  shows "\<exists>h' bl'. Blist_PopFront h bl = Some (1, h', bl') \<and> blist_ok h' bl' as
    \<and> relinked (set as) (h(a := None)) h'"
proof (cases as)
  case Nil
  with assms show ?thesis
    by (auto simp: blist_ok_Cons blist_ok_Nil Blist_PopFront_def heap_simps relinked_def)
next
  case (Cons b bs)
  with assms obtain n m where o: "h a = Some n" "bprev n = final (Some b) bs" "bnext n = Some b"
      "h b = Some m" "bprev m = Some a" "bnext m = first bs None" "seg h (Some b) bs None"
      "bheader bl = Some a" "bcount bl = length bs + 2" "distinct (a # b # bs)"
    by (auto simp: blist_ok_Cons split: option.splits)
  let ?h = "h(b \<mapsto> m\<lparr>bprev := bprev n\<rparr>, a := None)"
  have "Blist_PopFront h bl = Some (1, ?h, \<lparr>bheader = Some b, bcount = Suc (length bs)\<rparr>)"
    using o by (auto simp: Blist_PopFront_def heap_simps size_dec_def)
  moreover have "blist_ok ?h \<lparr>bheader = Some b, bcount = Suc (length bs)\<rparr> as"
    using o Cons by (auto simp: blist_ok_Cons)
  moreover have "relinked (set as) (h(a := None)) ?h"
    using o Cons by (simp add: relinked_def)
  ultimately show ?thesis by blast
qed

lemma PopBack_ok:
  assumes "blist_ok h bl (as @ [a])"
  shows "\<exists>h' bl'. Blist_PopBack h bl = Some (1, h', bl') \<and> blist_ok h' bl' as
    \<and> relinked (set as) (h(a := None)) h'"
proof (cases as rule: list_ends_cases)
  case Nil
  with assms show ?thesis
    by (auto simp: blist_ok_Cons blist_ok_Nil Blist_PopBack_def heap_simps relinked_def)
next
  case (single c)
  with assms show ?thesis
    by (auto simp: blist_ok_Cons Blist_PopBack_def heap_simps relinked_def size_dec_def split: option.splits)
next
  case (many c bs d)
  have ok: "blist_ok h bl (c # (bs @ [d]) @ [a])" using assms many by simp
  obtain m k where o: "h c = Some m" "bprev m = Some a" "bnext m = first (bs @ [d]) (Some a)"
      "h a = Some k" "bprev k = final (Some c) (bs @ [d])" "bnext k = None" "c \<noteq> a"
      "seg h (Some c) (bs @ [d]) (Some a)" "bheader bl = Some c" "bcount bl = length (bs @ [d]) + 2"
    using ok by (rule blist_ok_ends)
  then obtain j where j: "h d = Some j" "bprev j = final (Some c) bs" "bnext j = Some a"
    by (auto simp: seg_append split: option.splits)
  have dist: "distinct (c # bs @ [d, a])" using ok by (simp add: blist_ok_def)
  let ?h = "h(d \<mapsto> j\<lparr>bnext := None\<rparr>, c \<mapsto> m\<lparr>bprev := Some d\<rparr>, a := None)"
  have "Blist_PopBack h bl = Some (1, ?h, bl\<lparr>bcount := length bs + 2\<rparr>)"
    using o j dist by (auto simp: Blist_PopBack_def heap_simps size_dec_def)
  moreover have "blist_ok ?h (bl\<lparr>bcount := length bs + 2\<rparr>) as"
    using o j dist many by (auto simp: blist_ok_Cons seg_append first_append)
  moreover have "relinked (set as) (h(a := None)) ?h"
    using o j dist many by (auto simp: relinked_def)
  ultimately show ?thesis by blast
qed

definition unlinked :: "addr \<Rightarrow> 'a bheap \<Rightarrow> bool" where
  "unlinked a h = (case h a of None \<Rightarrow> False | Some n \<Rightarrow> bprev n = None \<and> bnext n = None)"

lemma Extract_head:
  assumes "blist_ok h bl (a # vs)"
  shows "\<exists>h' bl'. Blist_Extract (Some a) h bl = Some (h', bl') \<and> blist_ok h' bl' vs
    \<and> relinked (set (a # vs)) h h' \<and> unlinked a h'"
proof (cases vs)
  case Nil
  with assms obtain n where o: "h a = Some n" "bprev n = Some a" "bnext n = None"
      "bheader bl = Some a" "bcount bl = 1"
    by (auto simp: blist_ok_Cons)
  let ?h = "h(a \<mapsto> n\<lparr>bnext := None, bprev := None\<rparr>)"
  from o have "Blist_Extract (Some a) h bl = Some (?h, blist_new)"
    by (simp add: Blist_Extract_def heap_simps size_dec_def)
  moreover have "relinked (set (a # vs)) h ?h" "unlinked a ?h"
    using o by (auto simp: relinked_def unlinked_def)
  ultimately show ?thesis using Nil by (auto simp: blist_ok_Nil)
next
  case (Cons b bs)
  with assms obtain n m where o: "h a = Some n" "bprev n = final (Some b) bs" "bnext n = Some b"
      "h b = Some m" "bprev m = Some a" "bnext m = first bs None" "seg h (Some b) bs None"
      "bheader bl = Some a" "bcount bl = length bs + 2" "distinct (a # b # bs)"
    by (auto simp: blist_ok_Cons split: option.splits)
  let ?h = "h(b \<mapsto> m\<lparr>bprev := bprev n\<rparr>, a \<mapsto> n\<lparr>bnext := None, bprev := None\<rparr>)"
  let ?bl = "\<lparr>bheader = Some b, bcount = Suc (length bs)\<rparr>"
  have "bprev n \<noteq> None" using o by (simp add: final_def)
  with o have "Blist_Extract (Some a) h bl = Some (?h, ?bl)"
    by (auto simp: Blist_Extract_def heap_simps size_dec_def)
  moreover have "blist_ok ?h ?bl vs" using o Cons by (auto simp: blist_ok_Cons)
  moreover have "relinked (set (a # vs)) h ?h" "unlinked a ?h"
    using o Cons by (auto simp: relinked_def unlinked_def)
  ultimately show ?thesis by blast
qed

lemma Extract_tail:
  assumes "blist_ok h bl (us @ [a])" "us \<noteq> []"
  shows "\<exists>h' bl'. Blist_Extract (Some a) h bl = Some (h', bl') \<and> blist_ok h' bl' us
    \<and> relinked (set (us @ [a])) h h' \<and> unlinked a h'"
proof (cases us rule: list_ends_cases)
  case (single c)
  with assms(1) obtain n m where o: "h c = Some m" "bprev m = Some a" "bnext m = Some a"
      "h a = Some n" "bprev n = Some c" "bnext n = None" "bheader bl = Some c" "bcount bl = 2" "a \<noteq> c"
    by (auto simp: blist_ok_Cons split: option.splits)
  let ?h = "h(c \<mapsto> m\<lparr>bprev := Some c, bnext := None\<rparr>, a \<mapsto> n\<lparr>bnext := None, bprev := None\<rparr>)"
  from o have "Blist_Extract (Some a) h bl = Some (?h, bl\<lparr>bcount := 1\<rparr>)"
    by (auto simp: Blist_Extract_def heap_simps size_dec_def)
  moreover have "blist_ok ?h (bl\<lparr>bcount := 1\<rparr>) us" using o single by (auto simp: blist_ok_Cons)
  moreover have "relinked (set (us @ [a])) h ?h" "unlinked a ?h"
    using o single by (auto simp: relinked_def unlinked_def)
  ultimately show ?thesis by blast
next
  case (many c bs d)
  have ok: "blist_ok h bl (c # (bs @ [d]) @ [a])" using assms many by simp
  obtain m k where o: "h c = Some m" "bprev m = Some a" "bnext m = first (bs @ [d]) (Some a)"
      "h a = Some k" "bprev k = final (Some c) (bs @ [d])" "bnext k = None" "c \<noteq> a"
      "seg h (Some c) (bs @ [d]) (Some a)" "bheader bl = Some c" "bcount bl = length (bs @ [d]) + 2"
    using ok by (rule blist_ok_ends)
  then obtain j where j: "h d = Some j" "bprev j = final (Some c) bs" "bnext j = Some a"
    by (auto simp: seg_append split: option.splits)
  have dist: "distinct (c # bs @ [d, a])" using ok by (simp add: blist_ok_def)
  let ?h = "h(c \<mapsto> m\<lparr>bprev := Some d\<rparr>, d \<mapsto> j\<lparr>bnext := None\<rparr>, a \<mapsto> k\<lparr>bnext := None, bprev := None\<rparr>)"
  have "Blist_Extract (Some a) h bl = Some (?h, bl\<lparr>bcount := length bs + 2\<rparr>)"
    using o j dist by (auto simp: Blist_Extract_def heap_simps size_dec_def)
  moreover have "blist_ok ?h (bl\<lparr>bcount := length bs + 2\<rparr>) us"
    using o j dist many by (auto simp: blist_ok_Cons seg_append first_append)
  moreover have "relinked (set (us @ [a])) h ?h" "unlinked a ?h"
    using o j dist many by (auto simp: relinked_def unlinked_def)
  ultimately show ?thesis by blast
qed (use assms in simp)

lemma Extract_middle:
  assumes "blist_ok h bl (us @ u # a # v # vs)"
  shows "\<exists>h' bl'. Blist_Extract (Some a) h bl = Some (h', bl') \<and> blist_ok h' bl' (us @ u # v # vs)
    \<and> relinked (set (us @ u # a # v # vs)) h h' \<and> unlinked a h'"
proof -
  from assms obtain j n m where o: "h u = Some j" "bnext j = Some a" "h a = Some n" "bprev n = Some u"
      "bnext n = Some v" "h v = Some m" "bprev m = Some a"
    by (auto simp: blist_ok_def seg_append split: option.splits)
  have dist: "distinct (us @ u # a # v # vs)" and hdr: "bheader bl = first us (Some u)"
    using assms by (auto simp: blist_ok_def first_append)
  have "bheader bl \<noteq> Some a" using dist hdr by (cases us) auto
  let ?h = "h(v \<mapsto> m\<lparr>bprev := Some u\<rparr>, u \<mapsto> j\<lparr>bnext := Some v\<rparr>, a \<mapsto> n\<lparr>bnext := None, bprev := None\<rparr>)"
  let ?bl = "bl\<lparr>bcount := length us + length vs + 2\<rparr>"
  have "bcount bl = length us + length vs + 3" using assms by (simp add: blist_ok_def)
  then have "Blist_Extract (Some a) h bl = Some (?h, ?bl)"
    using o dist \<open>bheader bl \<noteq> Some a\<close> by (auto simp: Blist_Extract_def heap_simps size_dec_def)
  moreover have "blist_ok ?h ?bl (us @ u # v # vs)"
    using assms o dist by (auto simp: blist_ok_def seg_append first_append split: option.splits)
  moreover have "relinked (set (us @ u # a # v # vs)) h ?h" "unlinked a ?h"
    using o dist by (auto simp: relinked_def unlinked_def)
  ultimately show ?thesis by blast
qed

lemma Blist_Extract_ok:
  assumes "blist_ok h bl (us @ a # vs)"
  shows "\<exists>h' bl'. Blist_Extract (Some a) h bl = Some (h', bl') \<and> blist_ok h' bl' (us @ vs)
    \<and> relinked (set (us @ a # vs)) h h' \<and> unlinked a h'"
proof (cases us rule: rev_cases)
  case Nil
  with assms Extract_head show ?thesis by fastforce
next
  case (snoc us' u)
  show ?thesis
  proof (cases vs)
    case Nil
    with assms snoc Extract_tail [of h bl us a] show ?thesis by simp
  next
    case (Cons v vs')
    with assms snoc Extract_middle [of h bl us' u a v vs'] show ?thesis by simp
  qed
qed

lemma Erase_ok:
  assumes "blist_ok h bl (us @ a # vs)"
  shows "\<exists>h' bl'. Blist_Erase a h bl = Some (h', bl') \<and> blist_ok h' bl' (us @ vs)
    \<and> relinked (set (us @ vs)) (h(a := None)) h'"
proof -
  from Blist_Extract_ok [OF assms] obtain h1 bl1 where e: "Blist_Extract (Some a) h bl = Some (h1, bl1)"
      "blist_ok h1 bl1 (us @ vs)" "relinked (set (us @ a # vs)) h h1" "unlinked a h1"
    by blast
  then obtain n where n: "h1 a = Some n" by (auto simp: unlinked_def split: option.splits)
  have a: "a \<notin> set (us @ vs)" using assms by (simp add: blist_ok_def)
  have "Blist_Erase a h bl = Some (h1(a := None), bl1)" using e n by (simp add: Blist_Erase_def heap_simps)
  moreover have "blist_ok (h1(a := None)) bl1 (us @ vs)" using a by (intro blist_ok_frame [OF e(2)]) auto
  moreover have "relinked (set (us @ vs)) (h(a := None)) (h1(a := None))"
    using e(3) by (auto simp: relinked_def)
  ultimately show ?thesis by blast
qed

lemma InsertAfter_ok:
  assumes "blist_ok h bl (us @ a # vs)" "h new = Some n" "new \<notin> set (us @ a # vs)"
  shows "\<exists>h' bl'. Blist_InsertAfter (Some a) new h bl = Some (h', bl') \<and> blist_ok h' bl' (us @ a # new # vs)
    \<and> relinked (set (us @ a # new # vs)) h h'"
proof (cases vs)
  case (Cons v vs')
  from assms Cons obtain j m where o: "h a = Some j" "bnext j = Some v" "h v = Some m" "bprev m = Some a"
    by (auto simp: blist_ok_def seg_append split: option.splits)
  have dist: "distinct (new # us @ a # v # vs')" using assms Cons by (auto simp: blist_ok_def)
  let ?h = "h(new \<mapsto> n\<lparr>bprev := Some a, bnext := Some v\<rparr>, v \<mapsto> m\<lparr>bprev := Some new\<rparr>, a \<mapsto> j\<lparr>bnext := Some new\<rparr>)"
  have "Blist_InsertAfter (Some a) new h bl = Some (?h, bl\<lparr>bcount := bcount bl + 1\<rparr>)"
    using o dist assms(2) by (auto simp: Blist_InsertAfter_def heap_simps)
  moreover have "blist_ok ?h (bl\<lparr>bcount := bcount bl + 1\<rparr>) (us @ a # new # vs)"
    using assms(1) o dist Cons by (auto simp: blist_ok_def seg_append first_append split: option.splits)
  moreover have "relinked (set (us @ a # new # vs)) h ?h"
    using o assms(2) Cons by (auto simp: relinked_def)
  ultimately show ?thesis by blast
next
  case Nil
  show ?thesis
  proof (cases us)
    case (Cons c us')
    with assms Nil obtain j m where o: "h a = Some j" "bnext j = None" "bheader bl = Some c" "h c = Some m"
        "bprev m = Some a"
      by (auto simp: blist_ok_def seg_append split: option.splits)
    have dist: "distinct (new # c # us' @ [a])" using assms Cons Nil by (auto simp: blist_ok_def)
    let ?h = "h(new \<mapsto> n\<lparr>bprev := Some a, bnext := None\<rparr>, c \<mapsto> m\<lparr>bprev := Some new\<rparr>, a \<mapsto> j\<lparr>bnext := Some new\<rparr>)"
    have "Blist_InsertAfter (Some a) new h bl = Some (?h, bl\<lparr>bcount := bcount bl + 1\<rparr>)"
      using o dist assms(2) by (auto simp: Blist_InsertAfter_def heap_simps)
    moreover have "blist_ok ?h (bl\<lparr>bcount := bcount bl + 1\<rparr>) (us @ a # new # vs)"
      using assms(1) o dist Cons Nil by (auto simp: blist_ok_def seg_append first_append split: option.splits)
    moreover have "relinked (set (us @ a # new # vs)) h ?h"
      using o assms(2) Cons by (auto simp: relinked_def)
    ultimately show ?thesis by blast
  next
    assume us: "us = []"
    with assms Nil obtain j where o: "h a = Some j" "bnext j = None" "bprev j = Some a" "bheader bl = Some a"
        "bcount bl = 1" "a \<noteq> new"
      by (auto simp: blist_ok_def split: option.splits)
    let ?h = "h(new \<mapsto> n\<lparr>bprev := Some a, bnext := None\<rparr>, a \<mapsto> j\<lparr>bprev := Some new, bnext := Some new\<rparr>)"
    have "Blist_InsertAfter (Some a) new h bl = Some (?h, bl\<lparr>bcount := bcount bl + 1\<rparr>)"
      using o assms(2) by (auto simp: Blist_InsertAfter_def heap_simps)
    moreover have "blist_ok ?h (bl\<lparr>bcount := bcount bl + 1\<rparr>) (us @ a # new # vs)"
      using o us Nil by (auto simp: blist_ok_def)
    moreover have "relinked (set (us @ a # new # vs)) h ?h"
      using o assms(2) by (auto simp: relinked_def)
    ultimately show ?thesis by blast
  qed
qed

lemma Clear_loop_seg:
  "seg h p as None \<Longrightarrow> distinct as \<Longrightarrow>
   Blist_Clear_loop (first as None) h = Some (\<lambda>a. if a \<in> set as then None else h a)"
proof (induction as arbitrary: p h)
  case Nil
  then show ?case by (simp add: Blist_Clear_loop.simps)
next
  case (Cons a as)
  then obtain n where n: "h a = Some n" "bnext n = first as None" "seg h (Some a) as None" "a \<notin> set as"
    by (auto split: option.splits)
  have "seg (h(a := None)) (Some a) as None" using n by simp
  then have "Blist_Clear_loop (first as None) (h(a := None)) = Some (\<lambda>b. if b \<in> set as then None else (h(a := None)) b)"
    using Cons.prems by (intro Cons.IH) (assumption, simp)
  moreover have "(\<lambda>b. if b \<in> set as then None else (h(a := None)) b) = (\<lambda>b. if b \<in> set (a # as) then None else h b)"
    by auto
  ultimately show ?case using n by (subst Blist_Clear_loop.simps) (simp add: heap_simps)
qed

lemma Blist_Clear_ok:
  assumes "blist_ok h bl as"
  shows "Blist_Clear h bl = Some (\<lambda>a. if a \<in> set as then None else h a, blist_new)"
  using assms Clear_loop_seg [of h "final None as" as] by (simp add: Blist_Clear_def blist_ok_def)

lemma ends_ok:
  assumes "blist_ok h bl as" "as \<noteq> []"
  shows "bheader bl = Some (hd as)" "Blist_BackNode h bl = Some (Some (last as))"
    "Blist_Front h bl = Some (hd (bvals h as))" "Blist_Back h bl = Some (last (bvals h as))"
proof -
  from assms obtain c cs where as: "as = c # cs" by (cases as) auto
  with assms obtain n where n: "h c = Some n" "bprev n = Some (last as)" "bheader bl = Some c"
    by (auto simp: blist_ok_Cons final_def)
  obtain m where m: "h (last as) = Some m" using blist_ok_alloc [OF assms(1)] assms(2) by fastforce
  show "bheader bl = Some (hd as)" using n as by simp
  show "Blist_BackNode h bl = Some (Some (last as))" using n by (simp add: Blist_BackNode_def)
  show "Blist_Front h bl = Some (hd (bvals h as))" using n as by (simp add: Blist_Front_def)
  have "last (bvals h as) = bvalue m" using m assms(2) by (simp add: bvals_def last_map)
  then show "Blist_Back h bl = Some (last (bvals h as))" using n m by (simp add: Blist_Back_def)
qed

section \<open>Properties\<close>

lemma create_push:
  assumes "blist_ok h bl as" "h a = None"
  shows "blist_ok (Blist_CreateNode a v h) bl as" "a \<notin> set as"
    "Blist_CreateNode a v h a = Some \<lparr>bprev = None, bnext = None, bvalue = v\<rparr>"
    "bvals (Blist_CreateNode a v h) (a # as) = v # bvals h as"
    "bvals (Blist_CreateNode a v h) (as @ [a]) = bvals h as @ [v]"
proof -
  show a: "a \<notin> set as" using assms blist_ok_alloc [of h bl as a] by auto
  then show "blist_ok (Blist_CreateNode a v h) bl as"
    using assms(1) by (intro blist_ok_frame [OF assms(1)]) (auto simp: Blist_CreateNode_def)
qed (use assms blist_ok_alloc [of h bl as a] in \<open>auto simp: Blist_CreateNode_def bvals_def\<close>)

text \<open>
  C30. The list operations implement a double-ended queue. On a well-formed list, with a node
  created at an unused address, \<^verbatim>\<open>PushFront\<close> and \<^verbatim>\<open>PushBack\<close> return 1 and add the value at the end they
  name; \<^verbatim>\<open>PopFront\<close> and \<^verbatim>\<open>PopBack\<close> of a non-empty list return 1, remove the value at their end and free
  its node. All results are well-formed.
\<close>

theorem blist_deque_refinement:
  assumes "blist_ok h bl as" "h a = None" "length as < 2 ^ 64"
  shows "(case Blist_PushFront a (Blist_CreateNode a v h) bl of None \<Rightarrow> False | Some (r, h', bl') \<Rightarrow>
           r = 1 \<and> blist_ok h' bl' (a # as) \<and> bvals h' (a # as) = v # bvals h as)
    \<and> (case Blist_PushBack a (Blist_CreateNode a v h) bl of None \<Rightarrow> False | Some (r, h', bl') \<Rightarrow>
           r = 1 \<and> blist_ok h' bl' (as @ [a]) \<and> bvals h' (as @ [a]) = bvals h as @ [v])
    \<and> (as \<noteq> [] \<longrightarrow> (case Blist_PopFront h bl of None \<Rightarrow> False | Some (r, h', bl') \<Rightarrow>
           r = 1 \<and> blist_ok h' bl' (tl as) \<and> bvals h' (tl as) = tl (bvals h as) \<and> h' (hd as) = None))
    \<and> (as \<noteq> [] \<longrightarrow> (case Blist_PopBack h bl of None \<Rightarrow> False | Some (r, h', bl') \<Rightarrow>
           r = 1 \<and> blist_ok h' bl' (butlast as) \<and> bvals h' (butlast as) = butlast (bvals h as) \<and> h' (last as) = None))"
proof (intro conjI impI)
  note c = create_push [OF assms(1,2)]
  obtain h1 bl1 where p: "Blist_PushFront a (Blist_CreateNode a v h) bl = Some (1, h1, bl1)"
      "blist_ok h1 bl1 (a # as)" "relinked (set (a # as)) (Blist_CreateNode a v h) h1"
    using PushFront_ok [OF c(1) [of v] c(3) [of v] _ c(2) assms(3)] by auto
  with c(4) relinked_bvals [OF p(3)] show "case Blist_PushFront a (Blist_CreateNode a v h) bl of None \<Rightarrow> False
      | Some (r, h', bl') \<Rightarrow> r = 1 \<and> blist_ok h' bl' (a # as) \<and> bvals h' (a # as) = v # bvals h as"
    by (simp del: bvals_simps)
  obtain h2 bl2 where q: "Blist_PushBack a (Blist_CreateNode a v h) bl = Some (1, h2, bl2)"
      "blist_ok h2 bl2 (as @ [a])" "relinked (set (a # as)) (Blist_CreateNode a v h) h2"
    using PushBack_ok [OF c(1) [of v] c(3) [of v] _ c(2) assms(3)] by auto
  with c(5) relinked_bvals [OF q(3)] show "case Blist_PushBack a (Blist_CreateNode a v h) bl of None \<Rightarrow> False
      | Some (r, h', bl') \<Rightarrow> r = 1 \<and> blist_ok h' bl' (as @ [a]) \<and> bvals h' (as @ [a]) = bvals h as @ [v]"
    by (simp del: bvals_simps)
next
  assume "as \<noteq> []"
  then obtain b bs where as: "as = b # bs" by (cases as) auto
  have b: "b \<notin> set bs" using assms(1) as by (simp add: blist_ok_def)
  obtain h1 bl1 where p: "Blist_PopFront h bl = Some (1, h1, bl1)" "blist_ok h1 bl1 bs"
      "relinked (set bs) (h(b := None)) h1"
    using PopFront_ok [of h bl b bs] assms(1) as by auto
  have "h1 b = None" using p(3) b by (simp add: relinked_def)
  with p relinked_bvals [OF p(3)] as b show "case Blist_PopFront h bl of None \<Rightarrow> False | Some (r, h', bl') \<Rightarrow>
      r = 1 \<and> blist_ok h' bl' (tl as) \<and> bvals h' (tl as) = tl (bvals h as) \<and> h' (hd as) = None"
    by simp
next
  assume "as \<noteq> []"
  then obtain b bs where as: "as = bs @ [b]" by (cases as rule: rev_cases) auto
  have b: "b \<notin> set bs" using assms(1) as by (simp add: blist_ok_def)
  obtain h1 bl1 where p: "Blist_PopBack h bl = Some (1, h1, bl1)" "blist_ok h1 bl1 bs"
      "relinked (set bs) (h(b := None)) h1"
    using PopBack_ok [of h bl bs b] assms(1) as by auto
  have "h1 b = None" using p(3) b by (simp add: relinked_def)
  with p relinked_bvals [OF p(3)] as b show "case Blist_PopBack h bl of None \<Rightarrow> False | Some (r, h', bl') \<Rightarrow>
      r = 1 \<and> blist_ok h' bl' (butlast as) \<and> bvals h' (butlast as) = butlast (bvals h as) \<and> h' (last as) = None"
    by simp
qed

definition ex_heap :: "string bheap" where
  "ex_heap = [10 \<mapsto> \<lparr>bprev = Some 30, bnext = Some 20, bvalue = ''a''\<rparr>,
              20 \<mapsto> \<lparr>bprev = Some 10, bnext = Some 30, bvalue = ''b''\<rparr>,
              30 \<mapsto> \<lparr>bprev = Some 20, bnext = None, bvalue = ''c''\<rparr>]"

definition ex_blist :: blist where
  "ex_blist = \<lparr>bheader = Some 10, bcount = 3\<rparr>"

lemma ex_blist_ok: "blist_ok ex_heap ex_blist [10, 20, 30]" "ex_heap 40 = None"
  "bvals ex_heap [10, 20, 30] = [''a'', ''b'', ''c'']"
  by (simp_all add: blist_ok_def ex_heap_def ex_blist_def)

theorem blist_deque_refinement_witness:
  "case Blist_PushBack 40 (Blist_CreateNode 40 ''d'' ex_heap) ex_blist of None \<Rightarrow> False
   | Some (r, h', bl') \<Rightarrow> r = 1 \<and> bvals h' [10, 20, 30, 40] = [''a'', ''b'', ''c'', ''d'']"
  using blist_deque_refinement [OF ex_blist_ok(1,2), of "''d''"] ex_blist_ok(3)
  by (auto simp del: bvals_simps split: option.splits)

text \<open>
  Extraction by node pointer. From a well-formed list \<^verbatim>\<open>Extract\<close> removes exactly the given node,
  wherever it stands, and leaves it unlinked so that a second \<^verbatim>\<open>Extract\<close> of it changes nothing;
  the other nodes keep their order and values, nodes of other lists are not touched.
\<close>

theorem blist_extract_correct:
  assumes "blist_ok h bl (us @ a # vs)"
  shows "case Blist_Extract (Some a) h bl of None \<Rightarrow> False | Some (h', bl') \<Rightarrow>
    blist_ok h' bl' (us @ vs) \<and> bvals h' (us @ a # vs) = bvals h (us @ a # vs)
    \<and> (\<forall>b. b \<notin> set (us @ a # vs) \<longrightarrow> h' b = h b)
    \<and> Blist_Extract (Some a) h' bl' = Some (h', bl')"
proof -
  obtain h' bl' where e: "Blist_Extract (Some a) h bl = Some (h', bl')" "blist_ok h' bl' (us @ vs)"
      "relinked (set (us @ a # vs)) h h'" "unlinked a h'"
    using Blist_Extract_ok [OF assms] by blast
  have "Blist_Extract (Some a) h' bl' = Some (h', bl')"
    using e(4) by (auto simp: unlinked_def Blist_Extract_def split: option.splits)
  with e relinked_bvals [OF e(3)] show ?thesis by (simp add: relinked_def del: bvals_simps)
qed

theorem blist_extract_correct_witness:
  "case Blist_Extract (Some 20) ex_heap ex_blist of None \<Rightarrow> False | Some (h', bl') \<Rightarrow>
     blist_ok h' bl' [10, 30] \<and> bcount bl' = 2"
  using blist_extract_correct [of ex_heap ex_blist "[10]" 20 "[30]"] ex_blist_ok(1)
  by (auto simp: blist_ok_def split: option.splits)

text \<open>
  \<^verbatim>\<open>Clear\<close> terminates on every well-formed list, frees exactly its nodes and leaves the empty list.
\<close>

theorem blist_clear_terminates:
  assumes "blist_ok h bl as"
  shows "Blist_Clear h bl = Some (\<lambda>a. if a \<in> set as then None else h a, \<lparr>bheader = None, bcount = 0\<rparr>)"
  using Blist_Clear_ok [OF assms] .

theorem blist_clear_terminates_witness: "Blist_Clear ex_heap ex_blist = Some (\<lambda>a. None, \<lparr>bheader = None, bcount = 0\<rparr>)"
  unfolding blist_clear_terminates [OF ex_blist_ok(1)] by (auto simp: ex_heap_def)

end
