(* ===== verification/Slist.thy ===== *)
theory Slist
  imports Prelude
begin

text \<open>
  The singly linked bucket list of \<^verbatim>\<open>algo/slist.h\<close> and the fixed-size array of
  \<^verbatim>\<open>algo/reserved_array.h\<close>, the storage of the hash tables. A list is the sequence of its node values
  from \<^verbatim>\<open>header_\<close>; an operation that dereferences null or fails an assertion returns \<^term>\<open>None\<close>.
  Shown: \<^verbatim>\<open>ExtractNodeIf\<close> removes the first match, and copy assignment copies its argument except
  from an empty list, where it dereferences a null header.
\<close>

section \<open>Slist\<close>

definition Slist_EmplaceFront :: "'a \<Rightarrow> 'a list \<Rightarrow> 'a list" where
  "Slist_EmplaceFront x header = x # header"

fun Slist_ExtractFront :: "'a list \<Rightarrow> ('a \<times> 'a list) option" where
  "Slist_ExtractFront [] = None"
| "Slist_ExtractFront (x # xs) = Some (x, xs)"

definition Slist_PopFront :: "'a list \<Rightarrow> 'a list option" where
  "Slist_PopFront header = do { (_, rest) \<leftarrow> Slist_ExtractFront header; Some rest }"

fun Slist_SearchNodeIf :: "('a \<Rightarrow> bool) \<Rightarrow> 'a list \<Rightarrow> 'a option" where
  "Slist_SearchNodeIf pred [] = None"
| "Slist_SearchNodeIf pred (x # xs) = (if pred x then Some x else Slist_SearchNodeIf pred xs)"

text \<open>The loop of \<^verbatim>\<open>ExtractNodeIf\<close> looks at \<^verbatim>\<open>header->next\<close>; the head itself is tested first.\<close>

fun Slist_ExtractNext :: "('a \<Rightarrow> bool) \<Rightarrow> 'a \<Rightarrow> 'a list \<Rightarrow> 'a option \<times> 'a list" where
  "Slist_ExtractNext pred hdr [] = (None, [hdr])"
| "Slist_ExtractNext pred hdr (y # ys) =
     (if pred y then (Some y, hdr # ys)
      else (let (ret, rest) = Slist_ExtractNext pred y ys in (ret, hdr # rest)))"

fun Slist_ExtractNodeIf :: "('a \<Rightarrow> bool) \<Rightarrow> 'a list \<Rightarrow> 'a option \<times> 'a list" where
  "Slist_ExtractNodeIf pred [] = (None, [])"
| "Slist_ExtractNodeIf pred (x # xs) = (if pred x then (Some x, xs) else Slist_ExtractNext pred x xs)"

definition Slist_EraseIf :: "('a \<Rightarrow> bool) \<Rightarrow> 'a list \<Rightarrow> nat \<times> 'a list" where
  "Slist_EraseIf pred header = (case Slist_ExtractNodeIf pred header of
      (Some _, rest) \<Rightarrow> (1, rest) | (None, rest) \<Rightarrow> (0, rest))"

definition Slist_InsertAfterNode :: "nat \<Rightarrow> 'a \<Rightarrow> 'a list \<Rightarrow> 'a list option" where
  "Slist_InsertAfterNode pos v header =
     (if pos < length header then Some (take (Suc pos) header @ v # drop (Suc pos) header) else None)"

definition Slist_EraseAfterNode :: "nat \<Rightarrow> 'a list \<Rightarrow> 'a list option" where
  "Slist_EraseAfterNode pos header =
     (if Suc pos < length header then Some (take (Suc pos) header @ drop (Suc (Suc pos)) header) else None)"

fun Slist_Clear :: "'a list \<Rightarrow> 'a list" where
  "Slist_Clear [] = []"
| "Slist_Clear (x # xs) = Slist_Clear xs"

fun Slist_GetSize :: "'a list \<Rightarrow> nat" where
  "Slist_GetSize [] = 0"
| "Slist_GetSize (x # xs) = 1 + Slist_GetSize xs"

text \<open>The copying constructor: the front, then each further value after the last copied node.\<close>

fun Slist_copy_loop :: "'a list \<Rightarrow> 'a list \<Rightarrow> 'a list" where
  "Slist_copy_loop copied [] = copied"
| "Slist_copy_loop copied (x # xs) = Slist_copy_loop (copied @ [x]) xs"

fun Slist_copy :: "'a list \<Rightarrow> 'a list" where
  "Slist_copy [] = []"
| "Slist_copy (x # xs) = Slist_copy_loop (Slist_EmplaceFront x []) xs"

text \<open>
  Copy assignment between different lists. The loop overwrites values pairwise, then appends the
  rest of the source or erases the rest of the target. An empty target is first replaced by a
  copy, after which the same loop runs on the two lists.
\<close>

fun Slist_assign_loop :: "'a list \<Rightarrow> 'a list \<Rightarrow> 'a list option" where
  "Slist_assign_loop (x # xs) (y # ys) =
     (if xs = [] then Some (y # ys)
      else if ys = [] then Some [y]
      else do { rest \<leftarrow> Slist_assign_loop xs ys; Some (y # rest) })"
| "Slist_assign_loop _ _ = None"

definition Slist_assign :: "'a list \<Rightarrow> 'a list \<Rightarrow> 'a list option" where
  "Slist_assign xs other =
     (let xs = (if xs = [] then Slist_copy other else xs) in Slist_assign_loop xs other)"

section \<open>ReservedArray\<close>

definition ReservedArray_Grow :: "'b \<Rightarrow> nat \<Rightarrow> 'b list \<Rightarrow> 'b list" where
  "ReservedArray_Grow dflt n arr = (if n \<le> length arr then arr else arr @ replicate (n - length arr) dflt)"

definition ReservedArray_Shrink :: "nat \<Rightarrow> 'b list \<Rightarrow> 'b list" where
  "ReservedArray_Shrink n arr = (if length arr \<le> n then arr else take n arr)"

definition ReservedArray_at :: "'b list \<Rightarrow> nat \<Rightarrow> 'b option" where
  "ReservedArray_at arr i = (if i < length arr then Some (arr ! i) else None)"

section \<open>Lemmas\<close>

lemma SearchNodeIf_find [simp]: "Slist_SearchNodeIf pred xs = List.find pred xs"
  by (induction xs) auto

lemma ExtractNext_remove:
  "Slist_ExtractNext pred x xs = (List.find pred xs, x # snd (Slist_ExtractNodeIf pred xs))"
  "Slist_ExtractNodeIf pred xs = (List.find pred xs, snd (Slist_ExtractNodeIf pred xs))"
proof -
  have "Slist_ExtractNext pred x xs = (List.find pred xs, x # snd (Slist_ExtractNodeIf pred xs)) \<and>
        Slist_ExtractNodeIf pred xs = (List.find pred xs, snd (Slist_ExtractNodeIf pred xs))"
  proof (induction xs arbitrary: x)
    case (Cons y ys)
    show ?case by (simp add: Cons.IH [THEN conjunct1])
  qed simp
  then show "Slist_ExtractNext pred x xs = (List.find pred xs, x # snd (Slist_ExtractNodeIf pred xs))"
    "Slist_ExtractNodeIf pred xs = (List.find pred xs, snd (Slist_ExtractNodeIf pred xs))"
    by blast+
qed

lemma ExtractNodeIf_split:
  "Slist_ExtractNodeIf pred (us @ x # vs) = (Some x, us @ vs)" if "pred x" "\<And>u. u \<in> set us \<Longrightarrow> \<not> pred u"
  using that
proof (induction us)
  case (Cons u us)
  then show ?case using ExtractNext_remove(1) [of pred u "us @ x # vs"] by (auto simp: find_append find_NoneI)
qed simp

lemma ExtractNodeIf_cases:
  obtains (none) "Slist_ExtractNodeIf pred xs = (None, xs)" "\<And>x. x \<in> set xs \<Longrightarrow> \<not> pred x"
  | (some) us x vs where "Slist_ExtractNodeIf pred xs = (Some x, us @ vs)" "xs = us @ x # vs" "pred x"
      "\<And>u. u \<in> set us \<Longrightarrow> \<not> pred u"
proof (cases "\<exists>x \<in> set xs. pred x")
  case True
  then obtain us x vs where x: "xs = us @ x # vs" "pred x" "\<forall>u \<in> set us. \<not> pred u"
    using split_list_first_prop [of xs pred] by blast
  with ExtractNodeIf_split [of pred x us vs] show thesis by (intro some [of x us vs]) auto
next
  case False
  have "snd (Slist_ExtractNodeIf pred xs) = xs" using False
  proof (induction xs)
    case (Cons x xs)
    then show ?case by (simp add: ExtractNext_remove(1))
  qed simp
  with False none show thesis using ExtractNext_remove(2) [of pred xs] by (auto simp: find_NoneI)
qed

lemma Slist_copy_id [simp]: "Slist_copy xs = xs"
proof -
  have "Slist_copy_loop ys zs = ys @ zs" for ys zs :: "'a list"
    by (induction zs arbitrary: ys) auto
  then show ?thesis by (cases xs) (auto simp: Slist_EmplaceFront_def)
qed

text \<open>
  Copy assignment makes the target equal to a non-empty source, whatever the target held;
  from an empty source it always dereferences a null header.
\<close>

theorem slist_assign_correct:
  "Slist_assign xs other = (if other = [] then None else Some other)"
proof -
  have "xs \<noteq> [] \<Longrightarrow> ys \<noteq> [] \<Longrightarrow> Slist_assign_loop xs ys = Some ys" for xs ys :: "'a list"
    by (induction xs ys rule: Slist_assign_loop.induct) auto
  then show ?thesis by (cases "xs = []"; cases "other = []") (auto simp: Slist_assign_def Let_def neq_Nil_conv)
qed

end
