(* ===== verification/Interfaces.thy ===== *)
theory Interfaces
  imports Prelude
begin

text \<open>
  The contract the database layers rely on for a keyed container: lookup, insertion that reports a
  duplicate, and erasure, each possibly reorganising the container, each total on well-formed
  states, together implementing a finite map. Sequences of operations are compared with the map.
\<close>

datatype ('k, 'e) dict_op = OpFind 'k | OpInsert 'e | OpErase 'k

datatype 'e dict_out = Found "'e option" | Inserted bool 'e | Erased bool

text \<open>The container's operations, and the map they should implement, over a sequence of operations.\<close>

fun run_dict :: "('k \<Rightarrow> 's \<Rightarrow> ('e option \<times> 's) option) \<Rightarrow> ('e \<Rightarrow> 's \<Rightarrow> (bool \<times> 'e \<times> 's) option)
    \<Rightarrow> ('k \<Rightarrow> 's \<Rightarrow> (nat \<times> 's) option) \<Rightarrow> ('k, 'e) dict_op list \<Rightarrow> 's \<Rightarrow> ('e dict_out list \<times> 's) option" where
  "run_dict dfind dins derase [] s = Some ([], s)"
| "run_dict dfind dins derase (OpFind k # ops) s =
     do { (r, s) \<leftarrow> dfind k s; (outs, s) \<leftarrow> run_dict dfind dins derase ops s; Some (Found r # outs, s) }"
| "run_dict dfind dins derase (OpInsert e # ops) s =
     do { (ok, d, s) \<leftarrow> dins e s; (outs, s) \<leftarrow> run_dict dfind dins derase ops s; Some (Inserted ok d # outs, s) }"
| "run_dict dfind dins derase (OpErase k # ops) s =
     do { (n, s) \<leftarrow> derase k s; (outs, s) \<leftarrow> run_dict dfind dins derase ops s; Some (Erased (n = 1) # outs, s) }"

fun spec_dict :: "('e \<Rightarrow> 'k) \<Rightarrow> ('k, 'e) dict_op list \<Rightarrow> ('k \<rightharpoonup> 'e) \<Rightarrow> 'e dict_out list \<times> ('k \<rightharpoonup> 'e)" where
  "spec_dict gk [] m = ([], m)"
| "spec_dict gk (OpFind k # ops) m = (let (outs, m') = spec_dict gk ops m in (Found (m k) # outs, m'))"
| "spec_dict gk (OpInsert e # ops) m = (case m (gk e) of
      Some d \<Rightarrow> (let (outs, m') = spec_dict gk ops m in (Inserted False d # outs, m'))
    | None \<Rightarrow> (let (outs, m') = spec_dict gk ops (m(gk e \<mapsto> e)) in (Inserted True e # outs, m')))"
| "spec_dict gk (OpErase k # ops) m =
     (let (outs, m') = spec_dict gk ops (m(k := None)) in (Erased (m k \<noteq> None) # outs, m'))"

fun op_ok :: "('k \<Rightarrow> bool) \<Rightarrow> ('e \<Rightarrow> 'k) \<Rightarrow> ('k, 'e) dict_op \<Rightarrow> bool" where
  "op_ok P gk (OpFind k) = P k"
| "op_ok P gk (OpInsert e) = P (gk e)"
| "op_ok P gk (OpErase k) = P k"

locale dictionary_spec =
  fixes gk :: "'e \<Rightarrow> 'k"
    and key_ok :: "'k \<Rightarrow> bool"
    and invar :: "'s \<Rightarrow> bool"
    and lookup :: "'s \<Rightarrow> 'k \<Rightarrow> 'e option"
    and dfind :: "'k \<Rightarrow> 's \<Rightarrow> ('e option \<times> 's) option"
    and dins :: "'e \<Rightarrow> 's \<Rightarrow> (bool \<times> 'e \<times> 's) option"
    and derase :: "'k \<Rightarrow> 's \<Rightarrow> (nat \<times> 's) option"
  assumes find_law: "invar s \<Longrightarrow> key_ok k \<Longrightarrow>
      \<exists>s'. dfind k s = Some (lookup s k, s') \<and> invar s' \<and> lookup s' = lookup s"
    and ins_new: "invar s \<Longrightarrow> key_ok (gk e) \<Longrightarrow> lookup s (gk e) = None \<Longrightarrow>
      \<exists>s'. dins e s = Some (True, e, s') \<and> invar s' \<and> lookup s' = (lookup s)(gk e \<mapsto> e)"
    and ins_dup: "invar s \<Longrightarrow> key_ok (gk e) \<Longrightarrow> lookup s (gk e) = Some d \<Longrightarrow>
      \<exists>s'. dins e s = Some (False, d, s') \<and> invar s' \<and> lookup s' = lookup s"
    and erase_law: "invar s \<Longrightarrow> key_ok k \<Longrightarrow>
      \<exists>s'. derase k s = Some (if lookup s k = None then 0 else 1, s') \<and> invar s' \<and> lookup s' = (lookup s)(k := None)"
begin

lemma find_eq:
  assumes "invar s" "key_ok k" "dfind k s = Some (r, s')"
  shows "r = lookup s k \<and> invar s' \<and> lookup s' = lookup s"
  using find_law [OF assms(1,2)] assms(3) by auto

lemma find_after_insert:
  assumes "invar s" "key_ok (gk e)" "key_ok k" "dins e s = Some (ok, d, s')" "dfind k s' = Some (r, s'')"
  shows "r = (if k = gk e \<and> ok then Some e else lookup s k)"
proof (cases "lookup s (gk e)")
  case None
  then have "lookup s' = (lookup s)(gk e \<mapsto> e) \<and> invar s' \<and> ok" using ins_new [OF assms(1,2)] assms(4) by auto
  with find_eq [OF _ assms(3,5)] None show ?thesis by auto
next
  case (Some x)
  then have "lookup s' = lookup s \<and> invar s' \<and> \<not> ok" using ins_dup [OF assms(1,2)] assms(4) by auto
  with find_eq [OF _ assms(3,5)] show ?thesis by auto
qed

lemma run_dict_spec:
  "invar s \<Longrightarrow> \<forall>x \<in> set ops. op_ok key_ok gk x \<Longrightarrow>
   \<exists>s'. run_dict dfind dins derase ops s = Some (fst (spec_dict gk ops (lookup s)), s') \<and> invar s'
     \<and> lookup s' = snd (spec_dict gk ops (lookup s))"
proof (induction ops arbitrary: s)
  case (Cons x ops)
  show ?case
  proof (cases x)
    case (OpFind k)
    with Cons.prems obtain s1 where "dfind k s = Some (lookup s k, s1)" "invar s1" "lookup s1 = lookup s"
      using find_law [of s k] by auto
    with Cons.IH [of s1] Cons.prems OpFind show ?thesis by (auto simp del: fun_upd_apply split: prod.splits)
  next
    case (OpInsert e)
    show ?thesis
    proof (cases "lookup s (gk e)")
      case None
      with Cons.prems OpInsert obtain s1 where "dins e s = Some (True, e, s1)" "invar s1" "lookup s1 = (lookup s)(gk e \<mapsto> e)"
        using ins_new [of s e] by auto
      with Cons.IH [of s1] Cons.prems OpInsert None show ?thesis by (auto simp del: fun_upd_apply split: prod.splits)
    next
      case (Some d)
      with Cons.prems OpInsert obtain s1 where "dins e s = Some (False, d, s1)" "invar s1" "lookup s1 = lookup s"
        using ins_dup [of s e d] by auto
      with Cons.IH [of s1] Cons.prems OpInsert Some show ?thesis by (auto simp del: fun_upd_apply split: prod.splits)
    qed
  next
    case (OpErase k)
    with Cons.prems obtain s1 where "derase k s = Some (if lookup s k = None then 0 else 1, s1)" "invar s1"
        "lookup s1 = (lookup s)(k := None)"
      using erase_law [of s k] by auto
    with Cons.IH [of s1] Cons.prems OpErase show ?thesis by (auto simp del: fun_upd_apply split: prod.splits)
  qed
qed simp

end

end
