(* ===== verification/HashTable.thy ===== *)
theory HashTable
  imports Slist Interfaces
begin

text \<open>
  The incrementally rehashed hash table of \<^verbatim>\<open>algo/hash_table.h\<close> and \<^verbatim>\<open>algo/internal/hash_table_impl.h\<close>
  with \<^verbatim>\<open>Slist\<close> buckets. \<open>hf\<close> is the hash functor (a 64-bit value as a natural number), \<open>gk\<close> the key
  functor. An index into a table is checked, as \<^verbatim>\<open>ReservedArray::operator[]\<close> asserts it; out of range is
  \<^term>\<open>None\<close>. \<^verbatim>\<open>rehash_move_bucket_index_ == (size_type)-1\<close> is \<open>rehash_idx = None\<close>. Array sizes are natural
  numbers: an array with \<open>2 ^ 64\<close> buckets does not fit into memory.

  Shown: every operation returns and keeps the table invariant; lookup, insertion and erasure
  implement a finite map whatever the hash function is and however far a rehash has progressed;
  a rehash in progress ends after as many operations as the first table has buckets left.
\<close>

section \<open>Tables\<close>

text \<open>
  The two hash tables share this layout: buckets are \<^verbatim>\<open>Slist\<close>s here and AVL trees in the tree table.
\<close>

record 'b gtable =
  buckets :: "'b list"
  used :: nat
  size_mask :: nat

record 'b ghash_table =
  table1 :: "'b gtable"
  table2 :: "'b gtable"
  rehash_idx :: "nat option"

type_synonym 'a table = "'a list gtable"
type_synonym 'a hash_table = "'a list ghash_table"

abbreviation tsize :: "'b gtable \<Rightarrow> nat" where
  "tsize t \<equiv> length (buckets t)"

definition Table_new :: "'b gtable" where
  "Table_new = \<lparr>buckets = [], used = 0, size_mask = 2 ^ 64 - 1\<rparr>"

definition mask_of :: "nat \<Rightarrow> nat" where
  "mask_of n = (if n = 0 then 2 ^ 64 - 1 else n - 1)"

definition Table_Grow :: "'b \<Rightarrow> nat \<Rightarrow> 'b gtable \<Rightarrow> 'b gtable" where
  "Table_Grow dflt n t = (let bs = ReservedArray_Grow dflt n (buckets t) in t\<lparr>buckets := bs, size_mask := mask_of (length bs)\<rparr>)"

definition Table_Shrink :: "nat \<Rightarrow> 'b gtable \<Rightarrow> 'b gtable" where
  "Table_Shrink n t = (let bs = ReservedArray_Shrink n (buckets t) in t\<lparr>buckets := bs, size_mask := mask_of (length bs)\<rparr>)"

definition Table_Reset :: "'a table \<Rightarrow> 'a table" where
  "Table_Reset t = Table_Shrink 0 t"

definition Table_swap :: "'b gtable \<Rightarrow> 'b gtable \<Rightarrow> 'b gtable \<times> 'b gtable" where
  "Table_swap t o' = (t\<lparr>buckets := buckets o', size_mask := size_mask o'\<rparr>,
                      o'\<lparr>buckets := buckets t, size_mask := size_mask t\<rparr>)"

definition bucket_index :: "'b gtable \<Rightarrow> nat \<Rightarrow> nat" where
  "bucket_index t hash_val = hash_val AND size_mask t"

definition HashTable_new :: "'a hash_table" where
  "HashTable_new = \<lparr>table1 = Table_Grow [] 4 Table_new, table2 = Table_new, rehash_idx = None\<rparr>"

definition InRehashing :: "'b ghash_table \<Rightarrow> bool" where
  "InRehashing ht = (rehash_idx ht \<noteq> None)"

definition set_bucket :: "nat \<Rightarrow> 'b \<Rightarrow> 'b gtable \<Rightarrow> 'b gtable" where
  "set_bucket i b t = t\<lparr>buckets := (buckets t)[i := b]\<rparr>"

section \<open>Rehashing\<close>

definition Rehash :: "'a hash_table \<Rightarrow> 'a hash_table" where
  "Rehash ht = (if \<not> InRehashing ht \<and> tsize (table1 ht) \<le> used (table1 ht)
     then ht\<lparr>table2 := Table_Grow [] (2 * tsize (table1 ht)) (table2 ht), rehash_idx := Some 0\<rparr>
     else ht)"

text \<open>The loop moving one bucket of the first table, front to front, into the second.\<close>

fun rehash_move :: "('k \<Rightarrow> nat) \<Rightarrow> ('a \<Rightarrow> 'k) \<Rightarrow> 'a list \<Rightarrow> 'a table \<Rightarrow> 'a table option" where
  "rehash_move hf gk [] t2 = Some t2"
| "rehash_move hf gk (x # xs) t2 =
     (let i = bucket_index t2 (hf (gk x)) in
      do { b \<leftarrow> ReservedArray_at (buckets t2) i;
           rehash_move hf gk xs (set_bucket i (Slist_EmplaceFront x b) t2) })"

definition IncrementalRehash :: "('k \<Rightarrow> nat) \<Rightarrow> ('a \<Rightarrow> 'k) \<Rightarrow> 'a hash_table \<Rightarrow> 'a hash_table option" where
  "IncrementalRehash hf gk ht = (case rehash_idx ht of
      None \<Rightarrow> Some ht
    | Some i \<Rightarrow>
        do { b \<leftarrow> ReservedArray_at (buckets (table1 ht)) i;
             t2 \<leftarrow> rehash_move hf gk b (table2 ht);
             let t1 = set_bucket i [] (table1 ht);
             if i + 1 = tsize t1
             then (if buckets t2 \<noteq> []
                   then (let (t1', t2') = Table_swap t1 t2 in
                         Some \<lparr>table1 = t1', table2 = Table_Reset t2', rehash_idx = None\<rparr>)
                   else Some \<lparr>table1 = t1, table2 = t2, rehash_idx = None\<rparr>)
             else Some \<lparr>table1 = t1, table2 = t2, rehash_idx = Some (i + 1)\<rparr> })"

section \<open>Insertion\<close>

definition GetDuplicate :: "('a \<Rightarrow> 'k) \<Rightarrow> 'a list \<Rightarrow> 'a \<Rightarrow> 'a option" where
  "GetDuplicate gk bucket elem = Slist_SearchNodeIf (\<lambda>val. gk elem = gk val) bucket"

text \<open>\<open>emplace_in False\<close> puts the element in front of its bucket in the first table.\<close>

definition emplace_in :: "bool \<Rightarrow> nat \<Rightarrow> 'a list \<Rightarrow> 'a \<Rightarrow> 'a hash_table \<Rightarrow> 'a hash_table" where
  "emplace_in second i b elem ht =
     (let ht = (if second then ht\<lparr>table2 := set_bucket i (Slist_EmplaceFront elem b) (table2 ht)\<rparr>
                else ht\<lparr>table1 := set_bucket i (Slist_EmplaceFront elem b) (table1 ht)\<rparr>)
      in ht\<lparr>table1 := (table1 ht)\<lparr>used := used (table1 ht) + 1\<rparr>\<rparr>)"

definition InsertWithDuplicate :: "('k \<Rightarrow> nat) \<Rightarrow> ('a \<Rightarrow> 'k) \<Rightarrow> 'a \<Rightarrow> 'a hash_table
    \<Rightarrow> (bool \<times> 'a \<times> 'a hash_table) option" where
  "InsertWithDuplicate hf gk elem ht0 =
     do { ht \<leftarrow> IncrementalRehash hf gk (Rehash ht0);
          let hash_val = hf (gk elem);
          let i1 = bucket_index (table1 ht) hash_val;
          case rehash_idx ht of
            None \<Rightarrow>
              do { b \<leftarrow> ReservedArray_at (buckets (table1 ht)) i1;
                   (case GetDuplicate gk b elem of
                      Some d \<Rightarrow> Some (False, d, ht)
                    | None \<Rightarrow> Some (True, elem, emplace_in False i1 b elem ht)) }
          | Some idx \<Rightarrow>
              let i2 = bucket_index (table2 ht) hash_val in
              if i1 < idx then
                do { b \<leftarrow> ReservedArray_at (buckets (table2 ht)) i2;
                     (case GetDuplicate gk b elem of
                        Some d \<Rightarrow> Some (False, d, ht)
                      | None \<Rightarrow> Some (True, elem, emplace_in True i2 b elem ht)) }
              else
                do { b1 \<leftarrow> ReservedArray_at (buckets (table1 ht)) i1;
                     (case GetDuplicate gk b1 elem of
                        Some d \<Rightarrow> Some (False, d, ht)
                      | None \<Rightarrow>
                          do { b2 \<leftarrow> ReservedArray_at (buckets (table2 ht)) i2;
                               (case GetDuplicate gk b2 elem of
                                  Some d \<Rightarrow> Some (False, d, ht)
                                | None \<Rightarrow> Some (True, elem, emplace_in True i2 b2 elem ht)) }) } }"

definition HashTable_Insert :: "('k \<Rightarrow> nat) \<Rightarrow> ('a \<Rightarrow> 'k) \<Rightarrow> 'a \<Rightarrow> 'a hash_table
    \<Rightarrow> ('a option \<times> 'a hash_table) option" where
  "HashTable_Insert hf gk elem ht =
     do { (ok, d, ht') \<leftarrow> InsertWithDuplicate hf gk elem ht; Some (if ok then Some d else None, ht') }"

section \<open>Lookup and removal\<close>

text \<open>
  \<^verbatim>\<open>ExtractNodeIf\<close> in the bucket of the key, in the first table and, while rehashing, in the second:
  the table the node was found in, the node, and the table without it.
\<close>

definition extract_from :: "('k \<Rightarrow> nat) \<Rightarrow> ('a \<Rightarrow> 'k) \<Rightarrow> 'k \<Rightarrow> 'a table \<Rightarrow> ('a option \<times> 'a table) option" where
  "extract_from hf gk k t =
     (let i = bucket_index t (hf k) in
      do { b \<leftarrow> ReservedArray_at (buckets t) i;
           let (r, b') = Slist_ExtractNodeIf (\<lambda>v. gk v = k) b;
           Some (r, set_bucket i b' t) })"

definition emplace_front_at :: "nat \<Rightarrow> 'a \<Rightarrow> 'a table \<Rightarrow> 'a table option" where
  "emplace_front_at i x t =
     do { b \<leftarrow> ReservedArray_at (buckets t) i; Some (set_bucket i (Slist_EmplaceFront x b) t) }"

text \<open>\<^verbatim>\<open>FindSlot\<close> moves the node it finds to the front of its bucket.\<close>

definition HashTable_FindSlot :: "('k \<Rightarrow> nat) \<Rightarrow> ('a \<Rightarrow> 'k) \<Rightarrow> 'k \<Rightarrow> 'a hash_table
    \<Rightarrow> ('a option \<times> 'a hash_table) option" where
  "HashTable_FindSlot hf gk k ht0 =
     do { ht \<leftarrow> IncrementalRehash hf gk ht0;
          (r1, t1) \<leftarrow> extract_from hf gk k (table1 ht);
          case r1 of
            Some x \<Rightarrow> do { t1' \<leftarrow> emplace_front_at (bucket_index t1 (hf k)) x t1;
                          Some (Some x, ht\<lparr>table1 := t1'\<rparr>) }
          | None \<Rightarrow>
              if InRehashing ht then
                do { (r2, t2) \<leftarrow> extract_from hf gk k (table2 ht);
                     case r2 of
                       Some x \<Rightarrow> do { t2' \<leftarrow> emplace_front_at (bucket_index t2 (hf k)) x t2;
                                     Some (Some x, ht\<lparr>table1 := t1, table2 := t2'\<rparr>) }
                     | None \<Rightarrow> Some (None, ht\<lparr>table1 := t1, table2 := t2\<rparr>) }
              else Some (None, ht\<lparr>table1 := t1\<rparr>) }"

definition HashTable_Find :: "('k \<Rightarrow> nat) \<Rightarrow> ('a \<Rightarrow> 'k) \<Rightarrow> 'k \<Rightarrow> 'a hash_table
    \<Rightarrow> ('a option \<times> 'a hash_table) option" where
  "HashTable_Find hf gk k ht = HashTable_FindSlot hf gk k ht"

definition dec_used :: "'b gtable \<Rightarrow> 'b gtable" where
  "dec_used t = t\<lparr>used := (if used t = 0 then 2 ^ 64 - 1 else used t - 1)\<rparr>"

definition HashTable_Extract :: "('k \<Rightarrow> nat) \<Rightarrow> ('a \<Rightarrow> 'k) \<Rightarrow> 'k \<Rightarrow> 'a hash_table
    \<Rightarrow> ('a option \<times> 'a hash_table) option" where
  "HashTable_Extract hf gk k ht0 =
     do { ht \<leftarrow> IncrementalRehash hf gk ht0;
          (r1, t1) \<leftarrow> extract_from hf gk k (table1 ht);
          case r1 of
            Some x \<Rightarrow> Some (Some x, ht\<lparr>table1 := dec_used t1\<rparr>)
          | None \<Rightarrow>
              if InRehashing ht then
                do { (r2, t2) \<leftarrow> extract_from hf gk k (table2 ht);
                     case r2 of
                       Some x \<Rightarrow> Some (Some x, ht\<lparr>table1 := dec_used t1, table2 := t2\<rparr>)
                     | None \<Rightarrow> Some (None, ht\<lparr>table1 := t1, table2 := t2\<rparr>) }
              else Some (None, ht\<lparr>table1 := t1\<rparr>) }"

definition HashTable_Erase :: "('k \<Rightarrow> nat) \<Rightarrow> ('a \<Rightarrow> 'k) \<Rightarrow> 'k \<Rightarrow> 'a hash_table
    \<Rightarrow> (nat \<times> 'a hash_table) option" where
  "HashTable_Erase hf gk k ht =
     do { (r, ht') \<leftarrow> HashTable_Extract hf gk k ht; Some (case r of None \<Rightarrow> 0 | Some _ \<Rightarrow> 1, ht') }"

text \<open>
  \<^verbatim>\<open>EraseAfterFindSlot\<close> drops the front node of the bucket \<^verbatim>\<open>FindSlot\<close> returned a slot of; the count is
  left as it is. A write through the pointer \<^verbatim>\<open>Find\<close> returned changes the value in that front node.
\<close>

definition HashTable_EraseAfterFindSlot :: "('k \<Rightarrow> nat) \<Rightarrow> ('a \<Rightarrow> 'k) \<Rightarrow> 'k \<Rightarrow> 'a hash_table
    \<Rightarrow> 'a hash_table option" where
  "HashTable_EraseAfterFindSlot hf gk k ht =
     do { (r1, t1) \<leftarrow> extract_from hf gk k (table1 ht);
          case r1 of
            Some x \<Rightarrow> Some (ht\<lparr>table1 := t1\<rparr>)
          | None \<Rightarrow> do { (r2, t2) \<leftarrow> extract_from hf gk k (table2 ht); Some (ht\<lparr>table2 := t2\<rparr>) } }"

section \<open>Clearing and copying\<close>

fun Clear_loop :: "nat list \<Rightarrow> 'a table \<Rightarrow> 'a table option" where
  "Clear_loop [] t = Some t"
| "Clear_loop (i # is) t =
     do { b \<leftarrow> ReservedArray_at (buckets t) i; Clear_loop is (set_bucket i (Slist_Clear b) t) }"

definition HashTable_Clear :: "'a hash_table \<Rightarrow> 'a hash_table option" where
  "HashTable_Clear ht =
     do { t1 \<leftarrow> Clear_loop [0, 1, 2, 3] (Table_Shrink 4 (table1 ht));
          Some \<lparr>table1 = t1\<lparr>used := 0\<rparr>,
                table2 = (if InRehashing ht then Table_Shrink 0 (table2 ht) else table2 ht),
                rehash_idx = None\<rparr> }"

text \<open>
  \<^verbatim>\<open>Clone\<close> into a table \<open>t\<close> bucket by bucket, each bucket front to front; the buckets not yet moved by
  a rehash of the source are placed by \<^verbatim>\<open>HASH_FUNC(val)\<close>, the hash \<open>hv\<close> of the whole value.
\<close>

fun Clone_buckets :: "nat \<Rightarrow> 'a list list \<Rightarrow> 'a table \<Rightarrow> 'a table option" where
  "Clone_buckets i [] t = Some t"
| "Clone_buckets i (olst # os) t =
     do { lst \<leftarrow> ReservedArray_at (buckets t) i;
          Clone_buckets (i + 1) os (set_bucket i (fold Slist_EmplaceFront olst lst) t) }"

fun Clone_values :: "('a \<Rightarrow> nat) \<Rightarrow> 'a list \<Rightarrow> 'a table \<Rightarrow> 'a table option" where
  "Clone_values hv [] t = Some t"
| "Clone_values hv (val # vals) t =
     do { t \<leftarrow> emplace_front_at (bucket_index t (hv val)) val t; Clone_values hv vals t }"

definition HashTable_Clone :: "('a \<Rightarrow> nat) \<Rightarrow> 'a hash_table \<Rightarrow> 'a hash_table \<Rightarrow> 'a hash_table option" where
  "HashTable_Clone hv src dst =
     do { t \<leftarrow> (case rehash_idx src of
              Some idx \<Rightarrow>
                do { t \<leftarrow> Clone_buckets 0 (buckets (table2 src)) (Table_Grow [] (tsize (table2 src)) (table1 dst));
                     Clone_values hv (concat (drop idx (buckets (table1 src)))) t }
            | None \<Rightarrow> Clone_buckets 0 (buckets (table1 src)) (Table_Grow [] (tsize (table1 src)) (table1 dst)));
          Some (dst\<lparr>table1 := t\<lparr>used := used (table1 src)\<rparr>\<rparr>) }"

section \<open>Invariant and abstraction\<close>

abbreviation telems :: "'a table \<Rightarrow> 'a list" where
  "telems t \<equiv> concat (buckets t)"

definition ht_elems :: "'a hash_table \<Rightarrow> 'a list" where
  "ht_elems ht = telems (table1 ht) @ telems (table2 ht)"

definition table_ok :: "('k \<Rightarrow> nat) \<Rightarrow> ('a \<Rightarrow> 'k) \<Rightarrow> 'a table \<Rightarrow> bool" where
  "table_ok hf gk t = (0 < tsize t \<and> size_mask t = tsize t - 1
     \<and> (\<forall>i < tsize t. \<forall>x \<in> set (buckets t ! i). bucket_index t (hf (gk x)) = i))"

definition rehash_ok :: "('k \<Rightarrow> nat) \<Rightarrow> ('a \<Rightarrow> 'k) \<Rightarrow> 'a hash_table \<Rightarrow> bool" where
  "rehash_ok hf gk ht = (case rehash_idx ht of
      None \<Rightarrow> buckets (table2 ht) = []
    | Some i \<Rightarrow> table_ok hf gk (table2 ht) \<and> tsize (table2 ht) = 2 * tsize (table1 ht)
        \<and> i < tsize (table1 ht) \<and> (\<forall>j < i. buckets (table1 ht) ! j = []))"

definition ht_inv :: "('k \<Rightarrow> nat) \<Rightarrow> ('a \<Rightarrow> 'k) \<Rightarrow> 'a hash_table \<Rightarrow> bool" where
  "ht_inv hf gk ht = (table_ok hf gk (table1 ht) \<and> 4 \<le> tsize (table1 ht) \<and> rehash_ok hf gk ht
     \<and> distinct (map gk (ht_elems ht)) \<and> length (ht_elems ht) \<le> used (table1 ht))"

definition ht_map :: "('a \<Rightarrow> 'k) \<Rightarrow> 'a hash_table \<Rightarrow> 'k \<rightharpoonup> 'a" where
  "ht_map gk ht = keyed_map gk (ht_elems ht)"

text \<open>Buckets of the first table a rehash has still to move.\<close>

definition rehash_left :: "'b ghash_table \<Rightarrow> nat" where
  "rehash_left ht = (case rehash_idx ht of None \<Rightarrow> 0 | Some i \<Rightarrow> tsize (table1 ht) - i)"

lemma table_ok_cong:
  "buckets t = buckets t' \<Longrightarrow> size_mask t = size_mask t' \<Longrightarrow> table_ok hf gk t = table_ok hf gk t'"
  by (simp add: table_ok_def bucket_index_def)

lemma bucket_index_less:
  assumes "table_ok hf gk t"
  shows "bucket_index t h < tsize t"
proof -
  have "0 < tsize t" "size_mask t = tsize t - 1" using assms by (simp_all add: table_ok_def)
  with and_nat_le [of h "size_mask t"] show ?thesis unfolding bucket_index_def by linarith
qed

lemma bucket_at: "table_ok hf gk t \<Longrightarrow>
  ReservedArray_at (buckets t) (bucket_index t h) = Some (buckets t ! bucket_index t h)"
  by (simp add: ReservedArray_at_def bucket_index_less)

lemma set_bucket_simps [simp]:
  "buckets (set_bucket i b t) = (buckets t)[i := b]" "size_mask (set_bucket i b t) = size_mask t"
  "used (set_bucket i b t) = used t" "bucket_index (set_bucket i b t) h = bucket_index t h"
  by (simp_all add: set_bucket_def bucket_index_def)

lemma table_ok_set_bucket:
  assumes "table_ok hf gk t" "\<And>x. x \<in> set b \<Longrightarrow> bucket_index t (hf (gk x)) = i"
  shows "table_ok hf gk (set_bucket i b t)"
  using assms by (cases "i < tsize t") (auto simp: table_ok_def nth_list_update split: if_splits)

lemma table_ok_in_bucket:
  assumes "table_ok hf gk t" "x \<in> set (telems t)"
  shows "x \<in> set (buckets t ! bucket_index t (hf (gk x)))"
proof -
  from assms(2) obtain i where i: "i < tsize t" "x \<in> set (buckets t ! i)"
    by (auto simp: in_set_conv_nth [of _ "buckets t"])
  with assms(1) show ?thesis by (auto simp: table_ok_def)
qed

lemma bucket_in_telems: "i < tsize t \<Longrightarrow> x \<in> set (buckets t ! i) \<Longrightarrow> x \<in> set (telems t)"
  by force

lemma Table_Reset_buckets [simp]: "buckets (Table_Reset t) = []"
  by (simp add: Table_Reset_def Table_Shrink_def ReservedArray_Shrink_def Let_def)

text \<open>The map depends only on the multiset of elements.\<close>

lemmas ht_map_mset_eq = keyed_map_mset_eq [where xs = "ht_elems ht" and ys = "ht_elems ht'" for ht ht',
    folded ht_map_def]

lemmas ht_map_Some = keyed_map_Some [where xs = "ht_elems ht" for ht, folded ht_map_def]

lemmas ht_map_None = keyed_map_None [where xs = "ht_elems ht" for ht, folded ht_map_def]

section \<open>Rehashing keeps the elements\<close>

lemma rehash_move_ok:
  "table_ok hf gk t \<Longrightarrow> \<exists>t'. rehash_move hf gk xs t = Some t' \<and> table_ok hf gk t' \<and> tsize t' = tsize t
     \<and> mset (telems t') = mset xs + mset (telems t)"
proof (induction xs arbitrary: t)
  case (Cons x xs)
  let ?i = "bucket_index t (hf (gk x))"
  let ?t = "set_bucket ?i (Slist_EmplaceFront x (buckets t ! ?i)) t"
  have i: "?i < tsize t" using Cons.prems by (rule bucket_index_less)
  have ok: "table_ok hf gk ?t"
    using Cons.prems i by (intro table_ok_set_bucket) (auto simp: Slist_EmplaceFront_def table_ok_def)
  obtain t' where t': "rehash_move hf gk xs ?t = Some t'" "table_ok hf gk t'" "tsize t' = tsize ?t"
      "mset (telems t') = mset xs + mset (telems ?t)"
    using Cons.IH [OF ok] by blast
  have "mset (telems ?t) = add_mset x (mset (telems t))"
    using concat_update_mset [OF i, of "x # buckets t ! ?i" "{#}" "{#x#}"] by (simp add: Slist_EmplaceFront_def)
  with t' show ?case using bucket_at [OF Cons.prems, of "hf (gk x)"] by (simp add: Let_def)
qed simp

lemma IncrementalRehash_ok:
  assumes inv: "ht_inv hf gk ht"
  shows "\<exists>ht'. IncrementalRehash hf gk ht = Some ht' \<and> ht_inv hf gk ht' \<and> mset (ht_elems ht') = mset (ht_elems ht)
    \<and> used (table1 ht') = used (table1 ht)
    \<and> (\<forall>i. rehash_idx ht = Some i \<longrightarrow> rehash_idx ht' = (if i + 1 = tsize (table1 ht) then None else Some (i + 1))
          \<and> (rehash_idx ht' \<noteq> None \<longrightarrow> tsize (table1 ht') = tsize (table1 ht)))
    \<and> (rehash_idx ht = None \<longrightarrow> ht' = ht)"
proof (cases "rehash_idx ht")
  case None
  with inv show ?thesis by (simp add: IncrementalRehash_def)
next
  case (Some i)
  let ?t1 = "set_bucket i [] (table1 ht)"
  have i: "i < tsize (table1 ht)" and t2: "table_ok hf gk (table2 ht)" "tsize (table2 ht) = 2 * tsize (table1 ht)"
    and emp: "\<forall>j < i. buckets (table1 ht) ! j = []" and t1: "table_ok hf gk (table1 ht)"
    using inv Some by (auto simp: ht_inv_def rehash_ok_def)
  obtain t2' where m: "rehash_move hf gk (buckets (table1 ht) ! i) (table2 ht) = Some t2'" "table_ok hf gk t2'"
      "tsize t2' = tsize (table2 ht)" "mset (telems t2') = mset (buckets (table1 ht) ! i) + mset (telems (table2 ht))"
    using rehash_move_ok [OF t2(1)] by blast
  have ok1: "table_ok hf gk ?t1" using t1 by (intro table_ok_set_bucket) auto
  have el: "mset (telems ?t1) + mset (buckets (table1 ht) ! i) = mset (telems (table1 ht))"
    using mset_concat_update [OF i, of "[]"] by simp
  have ne: "buckets t2' \<noteq> []" using m(2) by (auto simp: table_ok_def)
  have d: "distinct (map gk (ht_elems ht))" using inv by (simp add: ht_inv_def)
  show ?thesis
  proof (cases "i + 1 = tsize (table1 ht)")
    case True
    let ?ht = "\<lparr>table1 = ?t1\<lparr>buckets := buckets t2', size_mask := size_mask t2'\<rparr>,
      table2 = Table_Reset (t2'\<lparr>buckets := buckets ?t1, size_mask := size_mask ?t1\<rparr>), rehash_idx = None\<rparr>"
    have all: "telems ?t1 = []"
    proof -
      have "(buckets (table1 ht))[i := []] ! j = []" if "j < tsize (table1 ht)" for j
        using that emp True i by (cases "j = i") auto
      then show ?thesis by (auto simp: in_set_conv_nth)
    qed
    have step: "IncrementalRehash hf gk ht = Some ?ht"
      using Some m True i ne by (simp add: IncrementalRehash_def ReservedArray_at_def Table_swap_def)
    have "mset (buckets (table1 ht) ! i) = mset (telems (table1 ht))" using el unfolding all by simp
    then have ms: "mset (ht_elems ?ht) = mset (ht_elems ht)"
      using m(4) by (simp add: ht_elems_def)
    have "ht_inv hf gk ?ht"
      unfolding ht_inv_def
    proof (intro conjI)
      show "table_ok hf gk (table1 ?ht)" using m(2) by (rule table_ok_cong [THEN iffD1, rotated 2]) simp_all
      show "4 \<le> tsize (table1 ?ht)" using inv m(3) t2(2) by (simp add: ht_inv_def)
      show "rehash_ok hf gk ?ht" by (simp add: rehash_ok_def)
      show "distinct (map gk (ht_elems ?ht))" using ht_map_mset_eq(2) [OF d ms] .
      show "length (ht_elems ?ht) \<le> used (table1 ?ht)"
        using inv ht_map_mset_eq(3) [OF d ms] by (simp add: ht_inv_def)
    qed
    with step ms Some True show ?thesis by simp
  next
    case False
    let ?ht = "\<lparr>table1 = ?t1, table2 = t2', rehash_idx = Some (i + 1)\<rparr>"
    have step: "IncrementalRehash hf gk ht = Some ?ht"
      using Some m False i by (simp add: IncrementalRehash_def ReservedArray_at_def)
    have ms: "mset (ht_elems ?ht) = mset (ht_elems ht)"
      using el m(4) by (simp add: ht_elems_def)
    have "ht_inv hf gk ?ht"
      unfolding ht_inv_def
    proof (intro conjI)
      show "rehash_ok hf gk ?ht"
        using m(2,3) t2(2) False i emp by (auto simp: rehash_ok_def nth_list_update less_Suc_eq)
      show "distinct (map gk (ht_elems ?ht))" using ht_map_mset_eq(2) [OF d ms] .
      show "length (ht_elems ?ht) \<le> used (table1 ?ht)"
        using inv ht_map_mset_eq(3) [OF d ms] by (simp add: ht_inv_def)
    qed (use inv ok1 in \<open>simp_all add: ht_inv_def\<close>)
    with step ms Some False show ?thesis by simp
  qed
qed

lemma IncrementalRehash_left:
  assumes "ht_inv hf gk ht" "IncrementalRehash hf gk ht = Some ht'"
  shows "rehash_left ht' = rehash_left ht - 1"
proof (cases "rehash_idx ht")
  case None
  with IncrementalRehash_ok [OF assms(1)] assms(2) show ?thesis by (auto simp: rehash_left_def)
next
  case (Some i)
  moreover have "i < tsize (table1 ht)" using assms(1) Some by (simp add: ht_inv_def rehash_ok_def)
  ultimately show ?thesis using IncrementalRehash_ok [OF assms(1)] assms(2)
    by (auto simp: rehash_left_def split: if_splits)
qed

lemma Rehash_ok:
  assumes "ht_inv hf gk ht"
  shows "ht_inv hf gk (Rehash ht) \<and> ht_elems (Rehash ht) = ht_elems ht \<and> used (table1 (Rehash ht)) = used (table1 ht)"
proof (cases "\<not> InRehashing ht \<and> tsize (table1 ht) \<le> used (table1 ht)")
  case True
  then have b2: "buckets (table2 ht) = []" using assms by (auto simp: ht_inv_def rehash_ok_def InRehashing_def)
  have "0 < tsize (table1 ht)" using assms by (simp add: ht_inv_def table_ok_def)
  with assms True b2 show ?thesis
    by (auto simp: ht_inv_def Rehash_def rehash_ok_def table_ok_def ht_elems_def Table_Grow_def mask_of_def
        ReservedArray_Grow_def Let_def)
next
  case False
  with assms show ?thesis by (auto simp: Rehash_def)
qed

section \<open>One table\<close>

text \<open>\<open>t'\<close> has the geometry of \<open>t\<close>, is well-formed, and no bucket gained an element.\<close>

definition shrunk :: "('k \<Rightarrow> nat) \<Rightarrow> ('a \<Rightarrow> 'k) \<Rightarrow> 'a table \<Rightarrow> 'a table \<Rightarrow> bool" where
  "shrunk hf gk t t' = (table_ok hf gk t' \<and> tsize t' = tsize t \<and> size_mask t' = size_mask t \<and> used t' = used t
     \<and> (\<forall>j < tsize t. set (buckets t' ! j) \<subseteq> set (buckets t ! j)))"

lemma shrunk_refl: "table_ok hf gk t \<Longrightarrow> shrunk hf gk t t"
  by (simp add: shrunk_def)

lemma set_bucket_same [simp]: "set_bucket i (buckets t ! i) t = t"
  by (simp add: set_bucket_def)

lemma extract_from_cases:
  assumes ok: "table_ok hf gk t"
  obtains (none) "extract_from hf gk k t = Some (None, t)" "\<And>x. x \<in> set (telems t) \<Longrightarrow> gk x \<noteq> k"
  | (some) x t' where "extract_from hf gk k t = Some (Some x, t')" "gk x = k" "shrunk hf gk t t'"
      "mset (telems t) = add_mset x (mset (telems t'))" "x \<in> set (buckets t ! bucket_index t (hf k))"
proof -
  let ?i = "bucket_index t (hf k)" and ?p = "\<lambda>v. gk v = k"
  have i: "?i < tsize t" using ok by (rule bucket_index_less)
  show thesis
  proof (cases rule: ExtractNodeIf_cases [of ?p "buckets t ! ?i" thesis, case_names none some])
    case none
    have "gk x \<noteq> k" if "x \<in> set (telems t)" for x
      using table_ok_in_bucket [OF ok that] none(2) [of x] by auto
    with none(1) show thesis
      by (intro that(1)) (simp_all add: extract_from_def bucket_at [OF ok])
  next
    case (some us x vs)
    let ?t = "set_bucket ?i (us @ vs) t"
    have sub: "set (us @ vs) \<subseteq> set (buckets t ! ?i)" using some(2) by auto
    have "table_ok hf gk ?t"
      using ok i sub by (intro table_ok_set_bucket) (auto simp: table_ok_def)
    then have "shrunk hf gk t ?t"
      using sub i by (auto simp: shrunk_def nth_list_update)
    moreover have "mset (telems t) = add_mset x (mset (telems ?t))"
      using mset_concat_update [OF i, of "us @ vs"] some(2) by simp
    ultimately show thesis using some
      by (intro that(2) [of x ?t]) (simp_all add: extract_from_def bucket_at [OF ok])
  qed
qed

lemma emplace_front_at_ok:
  assumes ok: "table_ok hf gk t"
  shows "\<exists>t'. emplace_front_at (bucket_index t (hf (gk x))) x t = Some t' \<and> table_ok hf gk t' \<and> tsize t' = tsize t
    \<and> used t' = used t \<and> mset (telems t') = add_mset x (mset (telems t))
    \<and> (\<forall>j < tsize t. set (buckets t' ! j) \<subseteq> (if j = bucket_index t (hf (gk x)) then {x} else {}) \<union> set (buckets t ! j))"
proof -
  let ?i = "bucket_index t (hf (gk x))"
  let ?t = "set_bucket ?i (x # buckets t ! ?i) t"
  have i: "?i < tsize t" using ok by (rule bucket_index_less)
  have "table_ok hf gk ?t" using ok i by (intro table_ok_set_bucket) (auto simp: table_ok_def)
  moreover have "mset (telems ?t) = add_mset x (mset (telems t))"
    using concat_update_mset [OF i, of "x # buckets t ! ?i" "{#}" "{#x#}"] by simp
  moreover have "emplace_front_at ?i x t = Some ?t"
    by (simp add: emplace_front_at_def bucket_at [OF ok] Slist_EmplaceFront_def)
  ultimately show ?thesis using i by (auto simp: nth_list_update)
qed

text \<open>How the invariant of a table carries over when its two tables are replaced.\<close>

lemma ht_inv_update:
  assumes inv: "ht_inv hf gk ht" and t1: "table_ok hf gk t1" "tsize t1 = tsize (table1 ht)"
    and t2: "rehash_idx ht = None \<Longrightarrow> buckets t2 = []"
      "rehash_idx ht \<noteq> None \<Longrightarrow> table_ok hf gk t2 \<and> tsize t2 = tsize (table2 ht)"
    and low: "\<And>i j. rehash_idx ht = Some i \<Longrightarrow> j < i \<Longrightarrow> buckets t1 ! j = []"
    and el: "distinct (map gk (telems t1 @ telems t2))" "length (telems t1 @ telems t2) \<le> used t1"
  shows "ht_inv hf gk (ht\<lparr>table1 := t1, table2 := t2\<rparr>)"
  using assms by (cases "rehash_idx ht") (auto simp: ht_inv_def rehash_ok_def ht_elems_def)

lemma ht_invD:
  assumes "ht_inv hf gk ht"
  shows "table_ok hf gk (table1 ht)" "distinct (map gk (ht_elems ht))" "length (ht_elems ht) \<le> used (table1 ht)"
    "rehash_idx ht = None \<Longrightarrow> buckets (table2 ht) = []"
    "rehash_idx ht = Some i \<Longrightarrow> table_ok hf gk (table2 ht)"
    "rehash_idx ht = Some i \<Longrightarrow> j < i \<Longrightarrow> buckets (table1 ht) ! j = []"
    "rehash_idx ht = Some i \<Longrightarrow> i < tsize (table1 ht)"
  using assms by (auto simp: ht_inv_def rehash_ok_def)

section \<open>The operations implement a map\<close>

text \<open>
  The two-table search after the rehash step. Either the key is nowhere, or it is in exactly one
  of the tables and removing it there keeps the rest of the invariant.
\<close>

lemma two_table_cases:
  assumes inv: "ht_inv hf gk ht"
  obtains (absent) "extract_from hf gk k (table1 ht) = Some (None, table1 ht)"
      "InRehashing ht \<Longrightarrow> extract_from hf gk k (table2 ht) = Some (None, table2 ht)"
      "ht_map gk ht k = None"
  | (first) x t1 where "extract_from hf gk k (table1 ht) = Some (Some x, t1)" "gk x = k"
      "shrunk hf gk (table1 ht) t1" "mset (telems (table1 ht)) = add_mset x (mset (telems t1))"
      "ht_map gk ht k = Some x" "x \<in> set (buckets (table1 ht) ! bucket_index (table1 ht) (hf k))"
  | (second) x t2 where "extract_from hf gk k (table1 ht) = Some (None, table1 ht)" "InRehashing ht"
      "extract_from hf gk k (table2 ht) = Some (Some x, t2)" "gk x = k"
      "shrunk hf gk (table2 ht) t2" "mset (telems (table2 ht)) = add_mset x (mset (telems t2))"
      "ht_map gk ht k = Some x"
proof (cases rule: extract_from_cases [OF ht_invD(1) [OF inv], of k thesis, case_names none some])
  case (some x t1)
  then have "x \<in> set (telems (table1 ht))" by (intro mset_add_in_set)
  then have "ht_map gk ht (gk x) = Some x"
    using ht_invD(2) [OF inv] by (intro ht_map_Some) (auto simp: ht_elems_def)
  with some show thesis by (intro first [of x t1]) auto
next
  case none
  show thesis
  proof (cases "rehash_idx ht")
    case None
    then have "ht_map gk ht k = None"
      using none(2) ht_invD(4) [OF inv] by (intro ht_map_None) (auto simp: ht_elems_def)
    with none None show thesis by (intro absent) (auto simp: InRehashing_def)
  next
    case (Some i)
    show thesis
    proof (cases rule: extract_from_cases [OF ht_invD(5) [OF inv Some], of k thesis, case_names none2 some2])
      case none2
      then have "ht_map gk ht k = None"
        using none(2) by (intro ht_map_None) (auto simp: ht_elems_def)
      with none none2 show thesis by (intro absent) auto
    next
      case (some2 x t2)
      then have "x \<in> set (telems (table2 ht))" by (intro mset_add_in_set)
      then have "ht_map gk ht (gk x) = Some x"
        using ht_invD(2) [OF inv] by (intro ht_map_Some) (auto simp: ht_elems_def)
      with none some2 Some show thesis by (intro second [of x t2]) (auto simp: InRehashing_def)
    qed
  qed
qed

lemma FindSlot_ok:
  assumes "ht_inv hf gk ht0"
  shows "\<exists>ht'. HashTable_FindSlot hf gk k ht0 = Some (ht_map gk ht0 k, ht') \<and> ht_inv hf gk ht'
    \<and> mset (ht_elems ht') = mset (ht_elems ht0) \<and> used (table1 ht') = used (table1 ht0)
    \<and> rehash_left ht' = rehash_left ht0 - 1"
proof -
  obtain ht where inc: "IncrementalRehash hf gk ht0 = Some ht" and inv: "ht_inv hf gk ht"
      and ms: "mset (ht_elems ht) = mset (ht_elems ht0)" and us: "used (table1 ht) = used (table1 ht0)"
    using IncrementalRehash_ok [OF assms] by blast
  have mp: "ht_map gk ht = ht_map gk ht0" using ht_map_mset_eq(1) [OF ht_invD(2) [OF assms] ms] .
  note left = IncrementalRehash_left [OF assms inc]
  note d = ht_invD(2,3) [OF inv]
  show ?thesis
  proof (cases rule: two_table_cases [OF inv, of k, case_names absent first second])
    case absent
    with inv ms us mp inc left show ?thesis
      by (cases "InRehashing ht") (auto simp: HashTable_FindSlot_def)
  next
    case (first x t1)
    have ok1: "table_ok hf gk t1" using first(3) by (simp add: shrunk_def)
    obtain t where t: "emplace_front_at (bucket_index t1 (hf (gk x))) x t1 = Some t" "table_ok hf gk t"
        "tsize t = tsize t1" "used t = used t1" "mset (telems t) = add_mset x (mset (telems t1))"
        "\<forall>j < tsize t1. set (buckets t ! j) \<subseteq> (if j = bucket_index t1 (hf (gk x)) then {x} else {}) \<union> set (buckets t1 ! j)"
      using emplace_front_at_ok [OF ok1, of x] by blast
    let ?ht = "ht\<lparr>table1 := t\<rparr>"
    have ms': "mset (ht_elems ?ht) = mset (ht_elems ht)" using first(4) t(5) by (simp add: ht_elems_def)
    have bi: "bucket_index t1 h = bucket_index (table1 ht) h" for h
      using first(3) by (simp add: shrunk_def bucket_index_def)
    have low: "buckets t ! j = []" if idx: "rehash_idx ht = Some i" and ji: "j < i" for i j
    proof -
      have j: "j < tsize t1" using ji ht_invD(7) [OF inv idx] first(3) by (simp add: shrunk_def)
      have e: "buckets (table1 ht) ! j = []" using ht_invD(6) [OF inv idx ji] .
      have "j \<noteq> bucket_index t1 (hf (gk x))" using e first(2,6) bi by auto
      moreover have "set (buckets t1 ! j) \<subseteq> set (buckets (table1 ht) ! j)"
        using first(3) j by (simp add: shrunk_def)
      ultimately have "set (buckets t ! j) \<subseteq> {}" using t(6) j e by fastforce
      then show ?thesis by simp
    qed
    have "ht_inv hf gk (ht\<lparr>table1 := t, table2 := table2 ht\<rparr>)"
      using ht_map_mset_eq(2,3) [OF d(1) ms'] d(2) first(3) t(2-4) low ht_invD(4,5) [OF inv]
      by (intro ht_inv_update [OF inv]) (auto simp: shrunk_def ht_elems_def)
    moreover have "rehash_left ?ht = rehash_left ht" using first(3) t(3) by (simp add: rehash_left_def shrunk_def split: option.splits)
    ultimately show ?thesis using first t ms' ms us mp inc left
      by (auto simp: HashTable_FindSlot_def shrunk_def)
  next
    case (second x t2)
    have ok2: "table_ok hf gk t2" using second(5) by (simp add: shrunk_def)
    obtain t where t: "emplace_front_at (bucket_index t2 (hf (gk x))) x t2 = Some t" "table_ok hf gk t"
        "tsize t = tsize t2" "mset (telems t) = add_mset x (mset (telems t2))"
      using emplace_front_at_ok [OF ok2, of x] by blast
    let ?ht = "ht\<lparr>table1 := table1 ht, table2 := t\<rparr>"
    have ms': "mset (ht_elems ?ht) = mset (ht_elems ht)" using second(6) t(4) by (simp add: ht_elems_def)
    have "ht_inv hf gk ?ht"
      using ht_map_mset_eq(2,3) [OF d(1) ms'] d(2) second(2,5) t(2,3) ht_invD(1,6) [OF inv]
      by (intro ht_inv_update [OF inv]) (auto simp: shrunk_def ht_elems_def InRehashing_def)
    moreover have "rehash_left ?ht = rehash_left ht" by (simp add: rehash_left_def split: option.splits)
    ultimately show ?thesis using second t ms' ms us mp inc left
      by (auto simp: HashTable_FindSlot_def)
  qed
qed

lemmas ht_map_remove = keyed_map_remove [where xs = "ht_elems ht" and ys = "ht_elems ht'" for ht ht',
    folded ht_map_def]

lemma dec_used_simps [simp]:
  "buckets (dec_used t) = buckets t" "size_mask (dec_used t) = size_mask t"
  "0 < used t \<Longrightarrow> used (dec_used t) = used t - 1"
  "table_ok hf gk (dec_used t) = table_ok hf gk t"
  by (auto simp: dec_used_def intro!: table_ok_cong)

lemma Extract_ok:
  assumes "ht_inv hf gk ht0"
  shows "\<exists>ht'. HashTable_Extract hf gk k ht0 = Some (ht_map gk ht0 k, ht') \<and> ht_inv hf gk ht'
    \<and> ht_map gk ht' = (ht_map gk ht0)(k := None)
    \<and> mset (ht_elems ht0) = mset (ht_elems ht') + (case ht_map gk ht0 k of None \<Rightarrow> {#} | Some x \<Rightarrow> {#x#})
    \<and> used (table1 ht') = used (table1 ht0) - (case ht_map gk ht0 k of None \<Rightarrow> 0 | Some _ \<Rightarrow> 1)"
proof -
  obtain ht where inc: "IncrementalRehash hf gk ht0 = Some ht" and inv: "ht_inv hf gk ht"
      and ms: "mset (ht_elems ht) = mset (ht_elems ht0)" and us: "used (table1 ht) = used (table1 ht0)"
    using IncrementalRehash_ok [OF assms] by blast
  have mp: "ht_map gk ht0 = ht_map gk ht" using ht_map_mset_eq(1) [OF ht_invD(2) [OF assms] ms] by simp
  note d = ht_invD(2,3) [OF inv]
  show ?thesis
  proof (cases rule: two_table_cases [OF inv, of k, case_names absent first second])
    case absent
    have "HashTable_Extract hf gk k ht0 = Some (None, ht)"
      using absent inc by (cases "InRehashing ht") (auto simp: HashTable_Extract_def)
    with inv ms us mp absent(3) show ?thesis by auto
  next
    case (first x t1)
    let ?ht = "ht\<lparr>table1 := dec_used t1\<rparr>"
    have ms': "mset (ht_elems ht) = add_mset x (mset (ht_elems ?ht))"
      using first(4) by (simp add: ht_elems_def)
    note rm = ht_map_remove [OF d(1) ms']
    have pos: "0 < used t1" "used t1 = used (table1 ht)" using first(3) rm(3) d(2) by (auto simp: shrunk_def)
    have low: "buckets t1 ! j = []" if idx: "rehash_idx ht = Some i" "j < i" for i j
    proof -
      have "j < tsize (table1 ht)" using that ht_invD(7) [OF inv idx(1)] by simp
      then have "set (buckets t1 ! j) \<subseteq> set (buckets (table1 ht) ! j)" using first(3) by (simp add: shrunk_def)
      then show ?thesis using ht_invD(6) [OF inv idx] by simp
    qed
    have ok: "table_ok hf gk (dec_used t1)"
      using first(3) by (simp add: shrunk_def)
    have "ht_inv hf gk (ht\<lparr>table1 := dec_used t1, table2 := table2 ht\<rparr>)"
      using rm(2,3) d(2) first(3) low ht_invD(4,5) [OF inv] pos
      by (intro ht_inv_update [OF inv ok]) (auto simp: shrunk_def ht_elems_def)
    moreover have "HashTable_Extract hf gk k ht0 = Some (Some x, ?ht)"
      using first inc by (simp add: HashTable_Extract_def)
    ultimately show ?thesis using first(2,5) rm(1) ms ms' mp us pos by auto
  next
    case (second x t2)
    let ?ht = "ht\<lparr>table1 := dec_used (table1 ht), table2 := t2\<rparr>"
    have ms': "mset (ht_elems ht) = add_mset x (mset (ht_elems ?ht))"
      using second(6) by (simp add: ht_elems_def)
    note rm = ht_map_remove [OF d(1) ms']
    have pos: "0 < used (table1 ht)" using rm(3) d(2) by auto
    have ok: "table_ok hf gk (dec_used (table1 ht))"
      using ht_invD(1) [OF inv] by simp
    have "ht_inv hf gk ?ht"
      using rm(2,3) d(2) second(2,5) ht_invD(6) [OF inv] pos
      by (intro ht_inv_update [OF inv ok]) (auto simp: shrunk_def ht_elems_def InRehashing_def)
    moreover have "HashTable_Extract hf gk k ht0 = Some (Some x, ?ht)"
      using second inc by (simp add: HashTable_Extract_def)
    ultimately show ?thesis using second(4,7) rm(1) ms ms' mp us pos by auto
  qed
qed

lemma GetDuplicate_in:
  "GetDuplicate gk b e = Some d \<Longrightarrow> d \<in> set b \<and> gk d = gk e"
  "GetDuplicate gk b e = None \<Longrightarrow> x \<in> set b \<Longrightarrow> gk x \<noteq> gk e"
  by (auto simp: GetDuplicate_def find_None_iff dest: find_SomeD)

lemmas ht_map_insert = keyed_map_insert [where xs = "ht_elems ht" and ys = "ht_elems ht'" for ht ht',
    folded ht_map_def]

lemma emplace_in_ok:
  assumes inv: "ht_inv hf gk ht" and new: "ht_map gk ht (gk e) = None"
    and sec: "second \<longleftrightarrow> InRehashing ht"
    and i: "i = bucket_index (if second then table2 ht else table1 ht) (hf (gk e))"
  defines "ht' \<equiv> emplace_in second i (buckets (if second then table2 ht else table1 ht) ! i) e ht"
  shows "ht_inv hf gk ht' \<and> mset (ht_elems ht') = add_mset e (mset (ht_elems ht))
    \<and> ht_map gk ht' = (ht_map gk ht)(gk e \<mapsto> e) \<and> used (table1 ht') = used (table1 ht) + 1"
proof -
  let ?t = "if second then table2 ht else table1 ht"
  have ok: "table_ok hf gk ?t"
    using ht_invD(1,5) [OF inv] sec by (auto simp: InRehashing_def)
  let ?n = "set_bucket i (e # buckets ?t ! i) ?t"
  have il: "i < tsize ?t" using ok i bucket_index_less by blast
  have okn: "table_ok hf gk ?n"
    using ok il i by (intro table_ok_set_bucket) (auto simp: table_ok_def)
  have mn: "mset (telems ?n) = add_mset e (mset (telems ?t))"
    using concat_update_mset [OF il, of "e # buckets ?t ! i" "{#}" "{#e#}"] by simp
  have ms: "mset (ht_elems ht') = add_mset e (mset (ht_elems ht))"
    using mn by (cases second) (simp_all add: ht'_def emplace_in_def ht_elems_def Slist_EmplaceFront_def)
  note up = ht_map_insert [OF ht_invD(2) [OF inv] new ms]
  have us: "used (table1 ht') = used (table1 ht) + 1"
    by (cases second) (simp_all add: ht'_def emplace_in_def Let_def)
  have eq: "ht' = ht\<lparr>table1 := table1 ht', table2 := table2 ht'\<rparr>"
    by (cases second) (simp_all add: ht'_def emplace_in_def Let_def)
  have "ht_inv hf gk (ht\<lparr>table1 := table1 ht', table2 := table2 ht'\<rparr>)"
  proof (rule ht_inv_update [OF inv])
    show "table_ok hf gk (table1 ht')"
      using okn ht_invD(1) [OF inv] table_ok_cong [of "table1 ht'" ?n] table_ok_cong [of "table1 ht'" "table1 ht"]
      by (cases second) (auto simp: ht'_def emplace_in_def Slist_EmplaceFront_def)
    show "distinct (map gk (telems (table1 ht') @ telems (table2 ht')))"
      using up(2) by (simp add: ht_elems_def)
    show "length (telems (table1 ht') @ telems (table2 ht')) \<le> used (table1 ht')"
      using up(3) us ht_invD(3) [OF inv] by (simp add: ht_elems_def)
    show "rehash_idx ht \<noteq> None \<Longrightarrow> table_ok hf gk (table2 ht') \<and> tsize (table2 ht') = tsize (table2 ht)"
      using okn sec by (auto simp: ht'_def emplace_in_def Slist_EmplaceFront_def InRehashing_def)
    show "buckets (table1 ht') ! j = []" if "rehash_idx ht = Some m" "j < m" for m j
      using ht_invD(6) [OF inv that] that sec by (simp add: ht'_def emplace_in_def InRehashing_def)
  qed (use ht_invD(4) [OF inv] sec in \<open>auto simp: ht'_def emplace_in_def InRehashing_def\<close>)
  with eq ms up(1) us show ?thesis by simp
qed

lemma dup_in_map:
  assumes "ht_inv hf gk ht" "d \<in> set (ht_elems ht)" "gk d = k"
  shows "ht_map gk ht k = Some d"
  using ht_map_Some [OF ht_invD(2) [OF assms(1)] assms(2)] assms(3) by simp

lemma InsertWithDuplicate_after:
  assumes inv: "ht_inv hf gk ht" and inc: "IncrementalRehash hf gk (Rehash ht0) = Some ht"
  shows "InsertWithDuplicate hf gk e ht0 = (case ht_map gk ht (gk e) of
      Some d \<Rightarrow> Some (False, d, ht)
    | None \<Rightarrow> (let sec = InRehashing ht; t = (if sec then table2 ht else table1 ht); i = bucket_index t (hf (gk e))
               in Some (True, e, emplace_in sec i (buckets t ! i) e ht)))"
proof -
  let ?i1 = "bucket_index (table1 ht) (hf (gk e))" and ?i2 = "bucket_index (table2 ht) (hf (gk e))"
  let ?b1 = "buckets (table1 ht) ! ?i1" and ?b2 = "buckets (table2 ht) ! ?i2"
  note ok1 = ht_invD(1) [OF inv]
  have in1: "x \<in> set (ht_elems ht)" if "x \<in> set ?b1" for x
    using bucket_in_telems [OF bucket_index_less [OF ok1] that] by (simp add: ht_elems_def)
  have no1: "gk x \<noteq> gk e" if "GetDuplicate gk ?b1 e = None" "x \<in> set (telems (table1 ht))" for x
    using table_ok_in_bucket [OF ok1 that(2)] GetDuplicate_in(2) [OF that(1), of x] by metis
  show ?thesis
  proof (cases "rehash_idx ht")
    case None
    then have t2: "telems (table2 ht) = []" using ht_invD(4) [OF inv] by simp
    show ?thesis
    proof (cases "GetDuplicate gk ?b1 e")
      case (Some d)
      with dup_in_map [OF inv in1] GetDuplicate_in(1) [OF Some] have "ht_map gk ht (gk e) = Some d" by auto
      with None Some inc show ?thesis by (simp add: InsertWithDuplicate_def bucket_at [OF ok1] Let_def)
    next
      assume g: "GetDuplicate gk ?b1 e = None"
      then have "ht_map gk ht (gk e) = None"
        using no1 [OF g] t2 by (intro ht_map_None) (auto simp: ht_elems_def)
      with None g inc show ?thesis
        by (simp add: InsertWithDuplicate_def bucket_at [OF ok1] Let_def InRehashing_def)
    qed
  next
    case (Some idx)
    note ok2 = ht_invD(5) [OF inv Some]
    have in2: "x \<in> set (ht_elems ht)" if "x \<in> set ?b2" for x
      using bucket_in_telems [OF bucket_index_less [OF ok2] that] by (simp add: ht_elems_def)
    have no2: "gk x \<noteq> gk e" if "GetDuplicate gk ?b2 e = None" "x \<in> set (telems (table2 ht))" for x
      using table_ok_in_bucket [OF ok2 that(2)] GetDuplicate_in(2) [OF that(1), of x] by metis
    have low: "GetDuplicate gk ?b1 e = None" if "?i1 < idx"
      using ht_invD(6) [OF inv Some that] by (simp add: GetDuplicate_def)
    show ?thesis
    proof (cases "GetDuplicate gk ?b1 e")
      case (Some d)
      note g1 = this
      with dup_in_map [OF inv in1] GetDuplicate_in(1) [OF g1] have "ht_map gk ht (gk e) = Some d" by auto
      with \<open>rehash_idx ht = Some idx\<close> g1 low inc show ?thesis
        by (auto simp: InsertWithDuplicate_def bucket_at [OF ok1] Let_def)
    next
      assume g1: "GetDuplicate gk ?b1 e = None"
      show ?thesis
      proof (cases "GetDuplicate gk ?b2 e")
        case (Some d)
        note g2 = this
        with dup_in_map [OF inv in2] GetDuplicate_in(1) [OF g2] have "ht_map gk ht (gk e) = Some d" by auto
        with \<open>rehash_idx ht = Some idx\<close> g1 g2 inc show ?thesis
          by (auto simp: InsertWithDuplicate_def bucket_at [OF ok1] bucket_at [OF ok2] Let_def)
      next
        assume g2: "GetDuplicate gk ?b2 e = None"
        then have "ht_map gk ht (gk e) = None"
          using no1 [OF g1] no2 [OF g2] by (intro ht_map_None) (auto simp: ht_elems_def)
        with \<open>rehash_idx ht = Some idx\<close> g1 g2 inc show ?thesis
          by (auto simp: InsertWithDuplicate_def bucket_at [OF ok1] bucket_at [OF ok2] Let_def InRehashing_def)
      qed
    qed
  qed
qed

lemma InsertWithDuplicate_ok:
  assumes inv0: "ht_inv hf gk ht0"
  shows "\<exists>ht'. ht_inv hf gk ht' \<and> (case ht_map gk ht0 (gk e) of
      Some d \<Rightarrow> InsertWithDuplicate hf gk e ht0 = Some (False, d, ht') \<and> ht_map gk ht' = ht_map gk ht0
        \<and> mset (ht_elems ht') = mset (ht_elems ht0) \<and> used (table1 ht') = used (table1 ht0)
    | None \<Rightarrow> InsertWithDuplicate hf gk e ht0 = Some (True, e, ht') \<and> ht_map gk ht' = (ht_map gk ht0)(gk e \<mapsto> e)
        \<and> mset (ht_elems ht') = add_mset e (mset (ht_elems ht0)) \<and> used (table1 ht') = used (table1 ht0) + 1)"
proof -
  note re = Rehash_ok [OF inv0]
  then obtain ht where inc: "IncrementalRehash hf gk (Rehash ht0) = Some ht" and inv: "ht_inv hf gk ht"
      and ms: "mset (ht_elems ht) = mset (ht_elems ht0)" and us: "used (table1 ht) = used (table1 ht0)"
    using IncrementalRehash_ok [of hf gk "Rehash ht0"] by force
  have mp: "ht_map gk ht = ht_map gk ht0" using ht_map_mset_eq(1) [OF ht_invD(2) [OF inv0] ms] .
  show ?thesis
  proof (cases "ht_map gk ht0 (gk e)")
    case (Some d)
    with InsertWithDuplicate_after [OF inv inc, of e] mp ms us inv show ?thesis by auto
  next
    case None
    with mp have none: "ht_map gk ht (gk e) = None" by simp
    from emplace_in_ok [OF inv none, of "InRehashing ht"] InsertWithDuplicate_after [OF inv inc, of e] None none mp ms us
    show ?thesis by (auto simp: Let_def)
  qed
qed

lemma replicate_4: "replicate 4 x = [x, x, x, x]"
  by (simp add: numeral_eq_Suc)

lemma length_4: "length xs = 4 \<Longrightarrow> \<exists>a b c d. xs = [a, b, c, d]"
  by (auto simp: numeral_eq_Suc length_Suc_conv)

lemma empty_buckets_ok:
  assumes "buckets t = [[], [], [], []]" "size_mask t = 3"
  shows "table_ok hf gk t" "4 \<le> tsize t"
proof -
  have "buckets t ! i = []" if "i < 4" for i
    using that assms(1) by (cases i rule: nat.exhaust) (auto simp: nth_Cons split: nat.splits)
  then show "table_ok hf gk t" using assms by (auto simp: table_ok_def)
qed (simp add: assms)

lemma HashTable_new_ok:
  fixes gk :: "'a \<Rightarrow> 'k"
  shows "ht_inv hf gk HashTable_new \<and> ht_elems (HashTable_new :: 'a hash_table) = []"
proof -
  let ?n = "HashTable_new :: 'a hash_table"
  have b: "buckets (table1 ?n) = [[], [], [], []]" "size_mask (table1 ?n) = 3"
      "buckets (table2 ?n) = []" "rehash_idx ?n = None"
    by (simp_all add: HashTable_new_def Table_Grow_def Table_new_def ReservedArray_Grow_def mask_of_def Let_def
        replicate_4)
  then show ?thesis
    using empty_buckets_ok [OF b(1,2)] by (simp add: ht_inv_def rehash_ok_def ht_elems_def)
qed

lemma Slist_Clear_Nil [simp]: "Slist_Clear b = []"
  by (induction b) auto

lemma Clear_ok:
  assumes "ht_inv hf gk ht"
  shows "\<exists>ht'. HashTable_Clear ht = Some ht' \<and> ht_inv hf gk ht' \<and> ht_elems ht' = [] \<and> used (table1 ht') = 0"
proof -
  let ?s = "Table_Shrink 4 (table1 ht)"
  have "4 \<le> tsize (table1 ht)" using assms by (simp add: ht_inv_def)
  then have "length (buckets ?s) = 4"
    by (auto simp: Table_Shrink_def ReservedArray_Shrink_def Let_def)
  moreover from this have mask: "size_mask ?s = 3"
    by (auto simp: Table_Shrink_def Let_def mask_of_def)
  ultimately obtain a b c d where bs: "buckets ?s = [a, b, c, d]"
    using length_4 by blast
  let ?t2 = "if InRehashing ht then Table_Shrink 0 (table2 ht) else table2 ht"
  let ?ht = "\<lparr>table1 = ?s\<lparr>buckets := [[], [], [], []], used := 0\<rparr>, table2 = ?t2, rehash_idx = None\<rparr>"
  have "Clear_loop [0, 1, 2, 3] ?s = Some (?s\<lparr>buckets := [[], [], [], []]\<rparr>)"
    using bs by (simp add: ReservedArray_at_def set_bucket_def)
  then have "HashTable_Clear ht = Some ?ht"
    by (simp add: HashTable_Clear_def del: Clear_loop.simps)
  moreover have b2: "buckets ?t2 = []"
    using Table_Reset_buckets [of "table2 ht"] ht_invD(4) [OF assms] by (auto simp: Table_Reset_def InRehashing_def)
  moreover have "ht_inv hf gk ?ht"
    using b2 mask empty_buckets_ok [of "table1 ?ht"] by (simp add: ht_inv_def rehash_ok_def ht_elems_def)
  ultimately show ?thesis by (auto simp: ht_elems_def)
qed

section \<open>Cloning\<close>

lemma fold_EmplaceFront: "fold Slist_EmplaceFront xs b = rev xs @ b"
  by (induction xs arbitrary: b) (auto simp: Slist_EmplaceFront_def)

lemma Clone_buckets_ok:
  "table_ok hf gk t \<Longrightarrow> i + length os \<le> tsize t \<Longrightarrow>
   (\<And>j x. j < length os \<Longrightarrow> x \<in> set (os ! j) \<Longrightarrow> bucket_index t (hf (gk x)) = i + j) \<Longrightarrow>
   \<exists>t'. Clone_buckets i os t = Some t' \<and> table_ok hf gk t' \<and> tsize t' = tsize t \<and> size_mask t' = size_mask t
     \<and> mset (telems t') = mset (concat os) + mset (telems t)"
proof (induction os arbitrary: i t)
  case (Cons b os)
  let ?t = "set_bucket i (fold Slist_EmplaceFront b (buckets t ! i)) t"
  have i: "i < tsize t" using Cons.prems(2) by simp
  have ok: "table_ok hf gk ?t"
  proof (rule table_ok_set_bucket [OF Cons.prems(1)])
    fix x assume "x \<in> set (fold Slist_EmplaceFront b (buckets t ! i))"
    then consider "x \<in> set b" | "x \<in> set (buckets t ! i)" by (auto simp: fold_EmplaceFront)
    then show "bucket_index t (hf (gk x)) = i"
      using Cons.prems(1) Cons.prems(3) [of 0 x] i by cases (auto simp: table_ok_def)
  qed
  have "bucket_index ?t (hf (gk x)) = Suc i + j" if "j < length os" "x \<in> set (os ! j)" for j x
    using Cons.prems(3) [of "Suc j" x] that by simp
  then obtain t' where t': "Clone_buckets (Suc i) os ?t = Some t'" "table_ok hf gk t'" "tsize t' = tsize ?t"
      "size_mask t' = size_mask ?t" "mset (telems t') = mset (concat os) + mset (telems ?t)"
    using Cons.IH [OF ok, of "Suc i"] Cons.prems(2) by auto
  have "mset (telems ?t) = mset (telems t) + mset b"
    using concat_update_mset [OF i, of "rev b @ buckets t ! i" "{#}" "mset b"]
    by (simp add: fold_EmplaceFront)
  with t' i show ?case by (simp add: ReservedArray_at_def)
qed simp

lemma Clone_values_ok:
  "table_ok hf gk t \<Longrightarrow> (\<And>x. x \<in> set xs \<Longrightarrow> hv x = hf (gk x)) \<Longrightarrow>
   \<exists>t'. Clone_values hv xs t = Some t' \<and> table_ok hf gk t' \<and> tsize t' = tsize t
     \<and> mset (telems t') = mset xs + mset (telems t)"
proof (induction xs arbitrary: t)
  case (Cons x xs)
  obtain t1 where t1: "emplace_front_at (bucket_index t (hf (gk x))) x t = Some t1" "table_ok hf gk t1"
      "tsize t1 = tsize t" "mset (telems t1) = add_mset x (mset (telems t))"
    using emplace_front_at_ok [OF Cons.prems(1), of x] by blast
  with Cons.IH [OF t1(2)] Cons.prems(2) show ?case by auto
qed simp

lemma grown_table_ok:
  assumes "4 \<le> n" "t = Table_Grow [] n (table1 HashTable_new)"
  shows "table_ok hf gk t" "tsize t = n" "size_mask t = n - 1" "telems t = []"
proof -
  have b: "buckets t = replicate n []"
    using assms by (auto simp: HashTable_new_def Table_Grow_def Table_new_def ReservedArray_Grow_def Let_def
        replicate_add [symmetric])
  then show s: "tsize t = n" "telems t = []" by auto
  have "size_mask t = mask_of (tsize t)" using assms(2) by (simp add: Table_Grow_def Let_def)
  then show m: "size_mask t = n - 1" using s assms(1) by (simp add: mask_of_def)
  show "table_ok hf gk t" using b m assms(1) by (auto simp: table_ok_def)
qed

lemma clone_into_new:
  fixes o' :: "'a table"
  assumes "table_ok hf gk o'" "4 \<le> tsize o'"
  shows "\<exists>t. Clone_buckets 0 (buckets o') (Table_Grow [] (tsize o') (table1 HashTable_new)) = Some t \<and> table_ok hf gk t
    \<and> tsize t = tsize o' \<and> mset (telems t) = mset (telems o')"
proof -
  let ?t = "Table_Grow [] (tsize o') (table1 HashTable_new) :: 'a table"
  note g = grown_table_ok [OF assms(2), of ?t, OF refl]
  have "bucket_index ?t (hf (gk x)) = 0 + j" if "j < tsize o'" "x \<in> set (buckets o' ! j)" for j x
    using assms(1) that g(3) by (auto simp: table_ok_def bucket_index_def)
  with Clone_buckets_ok [OF g(1), of 0 "buckets o'" hf gk] g(2) obtain t' where
    "Clone_buckets 0 (buckets o') ?t = Some t'" "table_ok hf gk t'" "tsize t' = tsize ?t"
    "mset (telems t') = mset (telems o') + mset (telems ?t)"
    by auto
  then show ?thesis unfolding g(2,4) by simp
qed

lemma Clone_ok:
  assumes inv: "ht_inv hf gk src" and hv: "\<And>x. x \<in> set (ht_elems src) \<Longrightarrow> hv x = hf (gk x)"
  shows "\<exists>dst. HashTable_Clone hv src HashTable_new = Some dst \<and> ht_inv hf gk dst \<and> rehash_idx dst = None
    \<and> mset (ht_elems dst) = mset (ht_elems src) \<and> used (table1 dst) = used (table1 src)"
proof -
  have n: "4 \<le> tsize (table1 src)" using inv by (simp add: ht_inv_def)
  have "\<exists>t. (case rehash_idx src of
              Some idx \<Rightarrow>
                do { t \<leftarrow> Clone_buckets 0 (buckets (table2 src)) (Table_Grow [] (tsize (table2 src)) (table1 HashTable_new));
                     Clone_values hv (concat (drop idx (buckets (table1 src)))) t }
            | None \<Rightarrow> Clone_buckets 0 (buckets (table1 src)) (Table_Grow [] (tsize (table1 src)) (table1 HashTable_new))) = Some t
      \<and> table_ok hf gk t \<and> 4 \<le> tsize t \<and> mset (telems t) = mset (ht_elems src)"
  proof (cases "rehash_idx src")
    case None
    with clone_into_new [OF ht_invD(1) [OF inv] n] n ht_invD(4) [OF inv] show ?thesis
      by (auto simp: ht_elems_def)
  next
    case (Some i)
    have n2: "4 \<le> tsize (table2 src)" using inv Some n by (auto simp: ht_inv_def rehash_ok_def)
    obtain t where t: "Clone_buckets 0 (buckets (table2 src)) (Table_Grow [] (tsize (table2 src)) (table1 HashTable_new)) = Some t"
        "table_ok hf gk t" "tsize t = tsize (table2 src)" "mset (telems t) = mset (telems (table2 src))"
      using clone_into_new [OF ht_invD(5) [OF inv Some] n2] by blast
    have "concat (take i (buckets (table1 src))) = []"
      using ht_invD(6,7) [OF inv Some] by (auto simp: in_set_conv_nth)
    then have dr: "concat (drop i (buckets (table1 src))) = telems (table1 src)"
      by (metis append_Nil append_take_drop_id concat_append)
    obtain t' where "Clone_values hv (telems (table1 src)) t = Some t'" "table_ok hf gk t'" "tsize t' = tsize t"
        "mset (telems t') = mset (telems (table1 src)) + mset (telems t)"
      using Clone_values_ok [OF t(2), of "telems (table1 src)" hv] hv by (auto simp: ht_elems_def)
    with t Some dr n2 show ?thesis by (auto simp: ht_elems_def)
  qed
  then obtain t where t: "HashTable_Clone hv src HashTable_new =
        Some (HashTable_new\<lparr>table1 := t\<lparr>used := used (table1 src)\<rparr>\<rparr>)"
      "table_ok hf gk t" "4 \<le> tsize t" "mset (telems t) = mset (ht_elems src)"
    by (auto simp: HashTable_Clone_def)
  let ?d = "HashTable_new\<lparr>table1 := t\<lparr>used := used (table1 src)\<rparr>\<rparr>"
  have d2: "buckets (table2 ?d) = []" "rehash_idx ?d = None" by (simp_all add: HashTable_new_def Table_new_def)
  then have ms: "mset (ht_elems ?d) = mset (ht_elems src)" using t(4) by (simp add: ht_elems_def)
  have "table_ok hf gk (table1 ?d)" using t(2) table_ok_cong [of t "table1 ?d" hf gk] by simp
  then have "ht_inv hf gk ?d"
    using ht_map_mset_eq(2,3) [OF ht_invD(2) [OF inv] ms] t(3) d2 ht_invD(3) [OF inv]
    by (simp add: ht_inv_def rehash_ok_def)
  with t(1) ms d2 show ?thesis by auto
qed

section \<open>The dictionary contract\<close>

lemma Find_map:
  assumes "ht_inv hf gk s"
  shows "\<exists>s'. HashTable_Find hf gk k s = Some (ht_map gk s k, s') \<and> ht_inv hf gk s' \<and> ht_map gk s' = ht_map gk s"
proof -
  obtain s' where s': "HashTable_FindSlot hf gk k s = Some (ht_map gk s k, s')" "ht_inv hf gk s'"
      "mset (ht_elems s') = mset (ht_elems s)"
    using FindSlot_ok [OF assms, of k] by blast
  with ht_map_mset_eq(1) [OF ht_invD(2) [OF assms] s'(3)] show ?thesis by (auto simp: HashTable_Find_def)
qed

interpretation ht: dictionary_spec gk "\<lambda>_. True" "ht_inv hf gk" "ht_map gk" "HashTable_Find hf gk"
    "InsertWithDuplicate hf gk" "HashTable_Erase hf gk"
  for hf :: "'k \<Rightarrow> nat" and gk :: "'e \<Rightarrow> 'k"
proof unfold_locales
  show "\<exists>s'. HashTable_Find hf gk k s = Some (ht_map gk s k, s') \<and> ht_inv hf gk s' \<and> ht_map gk s' = ht_map gk s"
    if "ht_inv hf gk s" for s k
    using Find_map [OF that] .
  show "\<exists>s'. InsertWithDuplicate hf gk e s = Some (True, e, s') \<and> ht_inv hf gk s' \<and> ht_map gk s' = (ht_map gk s)(gk e \<mapsto> e)"
    if "ht_inv hf gk s" "ht_map gk s (gk e) = None" for s e
    using InsertWithDuplicate_ok [OF that(1), of e] that(2) by auto
  show "\<exists>s'. InsertWithDuplicate hf gk e s = Some (False, d, s') \<and> ht_inv hf gk s' \<and> ht_map gk s' = ht_map gk s"
    if "ht_inv hf gk s" "ht_map gk s (gk e) = Some d" for s e d
    using InsertWithDuplicate_ok [OF that(1), of e] that(2) by auto
  show "\<exists>s'. HashTable_Erase hf gk k s = Some (if ht_map gk s k = None then 0 else 1, s') \<and> ht_inv hf gk s'
      \<and> ht_map gk s' = (ht_map gk s)(k := None)" if "ht_inv hf gk s" for s k
    using Extract_ok [OF that, of k] by (cases "ht_map gk s k") (auto simp: HashTable_Erase_def)
qed

fun find_all :: "('k \<Rightarrow> nat) \<Rightarrow> ('a \<Rightarrow> 'k) \<Rightarrow> 'k list \<Rightarrow> 'a hash_table \<Rightarrow> 'a hash_table option" where
  "find_all hf gk [] ht = Some ht"
| "find_all hf gk (k # ks) ht = do { (_, ht) \<leftarrow> HashTable_Find hf gk k ht; find_all hf gk ks ht }"

lemma find_all_ok:
  "ht_inv hf gk ht \<Longrightarrow> \<exists>ht'. find_all hf gk ks ht = Some ht' \<and> ht_inv hf gk ht'
     \<and> mset (ht_elems ht') = mset (ht_elems ht) \<and> rehash_left ht' = rehash_left ht - length ks"
proof (induction ks arbitrary: ht)
  case (Cons k ks)
  obtain ht1 where 1: "HashTable_Find hf gk k ht = Some (ht_map gk ht k, ht1)" "ht_inv hf gk ht1"
      "mset (ht_elems ht1) = mset (ht_elems ht)" "rehash_left ht1 = rehash_left ht - 1"
    using FindSlot_ok [OF Cons.prems, of k] by (auto simp: HashTable_Find_def)
  with Cons.IH [OF 1(2)] show ?case by auto
qed simp

text \<open>
  C28. The hash table implements a finite map. Any sequence of lookups, insertions and erasures on a
  well-formed table returns, whatever the hash function and however far a rehash has progressed;
  its answers and the final contents are those of the same sequence on a map.
\<close>

theorem hash_table_implements_map:
  assumes "ht_inv hf gk ht"
  shows "\<exists>ht'. run_dict (HashTable_Find hf gk) (InsertWithDuplicate hf gk) (HashTable_Erase hf gk) ops ht
      = Some (fst (spec_dict gk ops (ht_map gk ht)), ht')
    \<and> ht_inv hf gk ht' \<and> ht_map gk ht' = snd (spec_dict gk ops (ht_map gk ht))"
proof (rule ht.run_dict_spec [OF assms])
  show "\<forall>x \<in> set ops. op_ok (\<lambda>_. True) gk x"
    by (metis dict_op.exhaust op_ok.simps)
qed

theorem hash_table_implements_map_witness:
  "\<exists>ht'. run_dict (HashTable_Find (\<lambda>k. 7) fst) (InsertWithDuplicate (\<lambda>k. 7) fst) (HashTable_Erase (\<lambda>k. 7) fst)
       [OpInsert (1 :: nat, ''a''), OpInsert (2, ''b''), OpFind 1, OpErase 2, OpFind 2] HashTable_new
     = Some ([Inserted True (1, ''a''), Inserted True (2, ''b''), Found (Some (1, ''a'')), Erased True, Found None], ht')"
proof -
  have "ht_map fst (HashTable_new :: (nat \<times> string) hash_table) = (\<lambda>_. None)"
    using HashTable_new_ok [of "\<lambda>k. 7" "fst :: nat \<times> string \<Rightarrow> nat"] by (simp add: ht_map_def keyed_map_def)
  with hash_table_implements_map [OF HashTable_new_ok [THEN conjunct1],
      of "\<lambda>k. 7" fst "[OpInsert (1 :: nat, ''a''), OpInsert (2, ''b''), OpFind 1, OpErase 2, OpFind 2]"]
  show ?thesis by (auto simp del: run_dict.simps)
qed

text \<open>
  C29. Rehashing ends. Starting from a well-formed table in which a rehash has \<open>n\<close> buckets left to move,
  every sequence of at least \<open>n\<close> lookups returns, completes the rehash, and changes no entry.
\<close>

theorem hash_table_rehash_ends:
  assumes "ht_inv hf gk ht" "rehash_left ht \<le> length ks"
  shows "\<exists>ht'. find_all hf gk ks ht = Some ht' \<and> \<not> InRehashing ht' \<and> ht_inv hf gk ht' \<and> ht_map gk ht' = ht_map gk ht"
proof -
  obtain ht' where h: "find_all hf gk ks ht = Some ht'" "ht_inv hf gk ht'" "mset (ht_elems ht') = mset (ht_elems ht)"
      "rehash_left ht' = 0"
    using find_all_ok [OF assms(1), of ks] assms(2) by auto
  have "rehash_idx ht' = None"
    using h(2,4) ht_invD(7) [OF h(2)] by (auto simp: rehash_left_def split: option.splits)
  with h ht_map_mset_eq(1) [OF ht_invD(2) [OF assms(1)] h(3)] show ?thesis by (auto simp: InRehashing_def)
qed

theorem hash_table_rehash_ends_witness:
  "\<exists>ht'. find_all (\<lambda>k. k) id [1, 2, 3, 4] (Rehash (HashTable_new\<lparr>table1 := (table1 HashTable_new)\<lparr>used := 4\<rparr>\<rparr>)) = Some ht'
     \<and> \<not> InRehashing ht'"
proof -
  let ?h = "HashTable_new\<lparr>table1 := (table1 HashTable_new)\<lparr>used := 4\<rparr>\<rparr> :: nat hash_table"
  have n: "ht_inv (\<lambda>k. k) id (HashTable_new :: nat hash_table)" using HashTable_new_ok by blast
  have "table_ok (\<lambda>k. k) id (table1 ?h)"
    using ht_invD(1) [OF n] table_ok_cong [of "table1 ?h" "table1 HashTable_new" "\<lambda>k. k" id] by simp
  moreover have "tsize (table1 ?h) = 4" "rehash_idx ?h = None" "buckets (table2 ?h) = []"
    by (simp_all add: HashTable_new_def Table_Grow_def Table_new_def ReservedArray_Grow_def Let_def)
  moreover have "ht_elems ?h = []"
    using HashTable_new_ok [of "\<lambda>k. k" "id :: nat \<Rightarrow> nat"] by (simp add: ht_elems_def)
  ultimately have inv: "ht_inv (\<lambda>k. k) id ?h" and "tsize (table1 ?h) = 4" "rehash_idx ?h = None"
    by (simp_all add: ht_inv_def rehash_ok_def)
  then have "rehash_left (Rehash ?h) = 4"
    by (simp add: Rehash_def InRehashing_def rehash_left_def)
  with hash_table_rehash_ends [OF Rehash_ok [OF inv, THEN conjunct1], of "[1, 2, 3, 4]"] show ?thesis by auto
qed

text \<open>
  \<^verbatim>\<open>Clone\<close> of a well-formed table into a fresh one returns a well-formed table with the same
  contents and no rehash in progress, provided hashing a value hashes its key (as for a set, where
  the value is the key).
\<close>

theorem hash_table_clone_correct:
  assumes "ht_inv hf gk src" "\<forall>x. hv x = hf (gk x)"
  shows "\<exists>dst. HashTable_Clone hv src HashTable_new = Some dst \<and> ht_inv hf gk dst \<and> \<not> InRehashing dst
    \<and> ht_map gk dst = ht_map gk src"
proof -
  obtain dst where d: "HashTable_Clone hv src HashTable_new = Some dst" "ht_inv hf gk dst" "rehash_idx dst = None"
      "mset (ht_elems dst) = mset (ht_elems src)"
    using Clone_ok [OF assms(1), of hv] assms(2) by blast
  with ht_map_mset_eq(1) [OF ht_invD(2) [OF assms(1)] d(4)] show ?thesis by (auto simp: InRehashing_def)
qed

theorem hash_table_clone_correct_witness:
  "\<exists>dst. HashTable_Clone (\<lambda>x. 3) (HashTable_new :: nat hash_table) HashTable_new = Some dst \<and> \<not> InRehashing dst"
  using hash_table_clone_correct [OF HashTable_new_ok [THEN conjunct1], of "\<lambda>x. 3" "\<lambda>k. 3" "id :: nat \<Rightarrow> nat"] by auto

text \<open>
  \<^verbatim>\<open>Clear\<close> returns the table to four empty buckets with no rehash in progress.
\<close>

theorem hash_table_clear_correct:
  assumes "ht_inv hf gk ht"
  shows "\<exists>ht'. HashTable_Clear ht = Some ht' \<and> ht_inv hf gk ht' \<and> ht_map gk ht' = (\<lambda>_. None) \<and> used (table1 ht') = 0"
  using Clear_ok [OF assms] by (auto simp: ht_map_def keyed_map_def)

theorem hash_table_clear_correct_witness:
  "\<exists>ht'. HashTable_Clear (HashTable_new :: nat hash_table) = Some ht' \<and> used (table1 ht') = 0"
  using hash_table_clear_correct [OF HashTable_new_ok [THEN conjunct1, of "\<lambda>x. x" id]] by auto

end
