(* ===== verification/ComparatorUtil.thy ===== *)
theory ComparatorUtil
  imports Prelude
begin

text \<open>
  The three-way comparators of \<^verbatim>\<open>algo/comparator_util.h\<close>: the integer specialisations at their machine
  widths and the string one, which is \<^verbatim>\<open>strcmp\<close> on the C strings of its arguments. The dictionaries and
  trees are shown correct for any \<open>comparator\<close>; this theory shows which of these are one, and on which
  keys they tell different keys apart.
\<close>

text \<open>
  \<^verbatim>\<open>strcmp\<close> of \<^verbatim>\<open>c_str()\<close>: bytes are compared as unsigned chars, a NUL byte (the terminator or one in
  the key) ends the comparison.
\<close>

fun strcmp :: "string \<Rightarrow> string \<Rightarrow> int" where
  "strcmp [] [] = 0"
| "strcmp (c # cs) [] = of_char c"
| "strcmp [] (d # ds) = - of_char d"
| "strcmp (c # cs) (d # ds) =
     (if c \<noteq> d then of_char c - of_char d else if c = CHR 0x00 then 0 else strcmp cs ds)"

abbreviation nul_free :: "string \<Rightarrow> bool" where
  "nul_free s \<equiv> CHR 0x00 \<notin> set s"

text \<open>
  The signed specialisation for \<^verbatim>\<open>int8_t\<close> promotes its operands to \<^verbatim>\<open>int\<close>; the one for \<^verbatim>\<open>int64_t\<close>
  subtracts at 64 bits and narrows the difference to the 32 bits of the return type.
\<close>

definition Comparator_int8 :: "8 word \<Rightarrow> 8 word \<Rightarrow> int" where
  "Comparator_int8 x y = sint x - sint y"

definition Comparator_int64 :: "64 word \<Rightarrow> 64 word \<Rightarrow> int" where
  "Comparator_int64 x y = sint (ucast (x - y) :: 32 word)"

definition Comparator_uint64 :: "64 word \<Rightarrow> 64 word \<Rightarrow> int" where
  "Comparator_uint64 x y = (if x < y then - 1 else if x = y then 0 else 1)"

section \<open>Strings\<close>

lemma of_char_zero_iff: "(of_char c :: int) = 0 \<longleftrightarrow> c = CHR 0x00"
  using of_char_eq_iff [where 'a = int, of c "CHR 0x00"] by simp

lemma of_char_nonneg: "0 \<le> (of_char c :: int)"
  using of_nat_of_char [where 'a = int, of c] by (metis of_nat_0_le_iff)

lemma strcmp_refl [simp]: "strcmp x x = 0"
  by (induction x) auto

lemma strcmp_neg: "strcmp y x = - strcmp x y"
  by (induction x y rule: strcmp.induct) auto

lemma strcmp_trans: "strcmp x y \<le> 0 \<Longrightarrow> strcmp y z \<le> 0 \<Longrightarrow> strcmp x z \<le> 0"
proof (induction x y arbitrary: z rule: strcmp.induct)
  case (4 c cs d ds)
  show ?case
  proof (cases z)
    case Nil
    with 4(3) of_char_nonneg [of d] of_char_zero_iff [of d] 4(2) of_char_nonneg [of c] show ?thesis
      by (cases "c = d") simp_all
  next
    case (Cons e es)
    have "(of_char c :: int) \<le> of_char d" "(of_char d :: int) \<le> of_char e"
      using 4(2,3) Cons by (auto split: if_splits)
    moreover have "(of_char c :: int) \<noteq> of_char e" if "c \<noteq> e" using that by simp
    moreover have "strcmp cs es \<le> 0" if "c = e" "c \<noteq> CHR 0x00"
    proof -
      have d: "d = c" using calculation(1,2) that(1) of_char_eq_iff [where 'a = int, of d c] by simp
      show ?thesis by (rule 4(1)) (use d that 4(2,3) Cons in simp_all)
    qed
    ultimately show ?thesis using Cons by (cases "c = e") simp_all
  qed
next
  case (2 c cs)
  then have c: "c = CHR 0x00" using of_char_nonneg [of c] of_char_zero_iff [of c] by simp
  show ?case using of_char_nonneg unfolding c by (cases z) auto
next
  case (3 d ds)
  show ?case using of_char_nonneg by (cases z) simp_all
qed simp

lemma strcmp_eq: "strcmp x y = 0 \<longleftrightarrow> takeWhile (\<lambda>c. c \<noteq> CHR 0x00) x = takeWhile (\<lambda>c. c \<noteq> CHR 0x00) y"
  by (induction x y rule: strcmp.induct) (auto simp: of_char_zero_iff)

lemma nul_free_cstr: "nul_free x \<Longrightarrow> takeWhile (\<lambda>c. c \<noteq> CHR 0x00) x = x"
  by (auto simp: takeWhile_eq_all_conv)

interpretation str: comparator strcmp
proof unfold_locales
  show "strcmp x y < 0 \<longleftrightarrow> 0 < strcmp y x" for x y using strcmp_neg [of x y] by linarith
qed (rule strcmp_trans)

interpretation u64: comparator Comparator_uint64
  by unfold_locales (auto simp: Comparator_uint64_def split: if_splits)

interpretation i8: comparator Comparator_int8
  by unfold_locales (auto simp: Comparator_int8_def)

text \<open>
  The string comparator orders byte strings totally: it is antisymmetric in its sign and transitive,
  and it calls two strings equal exactly when they agree up to their first NUL byte, so it separates
  different keys that contain no NUL.
\<close>

theorem string_comparator_correct:
  "(strcmp x y < 0 \<longleftrightarrow> 0 < strcmp y x)
   \<and> \<not> (strcmp x y \<le> 0 \<and> strcmp y z \<le> 0 \<and> 0 < strcmp x z)
   \<and> (strcmp x y = 0 \<longleftrightarrow> takeWhile (\<lambda>c. c \<noteq> CHR 0x00) x = takeWhile (\<lambda>c. c \<noteq> CHR 0x00) y)"
  using str.cmp_sym [of x y] strcmp_trans [of x y z] strcmp_eq [of x y] by fastforce

text \<open>
  The signed 64-bit comparator is not a comparator: numbers that differ by a multiple of \<open>2 ^ 32\<close> compare
  as equal, and a number more than \<open>2 ^ 31\<close> above another can compare as smaller.
\<close>

theorem int64_comparator_truncates:
  "Comparator_int64 (x + 2 ^ 32) x = 0 \<and> Comparator_int64 (x + 2 ^ 31) x < 0 \<and> Comparator_int64 x (x + 2 ^ 31) < 0"
proof -
  have "x - (x + 2 ^ 31) = - (2 ^ 31)" "x + 2 ^ 32 - x = 2 ^ 32" "x + 2 ^ 31 - x = (2 ^ 31 :: 64 word)" by simp_all
  then show ?thesis by (simp add: Comparator_int64_def)
qed

end
