(* ===== verification/TreeHashTable.thy ===== *)
theory TreeHashTable
  imports HashTable AvlTree ComparatorUtil
begin

text \<open>
  The incrementally rehashed table with AVL-tree buckets of \<^verbatim>\<open>algo/internal/tree_hashtable.h\<close> and
  \<^verbatim>\<open>tree_hashtable_impl.h\<close>, the dictionary type of the database. The layout is that of the hash table; the
  buckets are \<^verbatim>\<open>AvlList\<close>s, ordered by the comparator \<open>cmp\<close>. A pointer to a node is its location: the
  table, the bucket index and the path in the bucket's tree.

  Shown: on keys the comparator tells apart, the operations implement a finite map and keep the
  invariant; nodes moved by a rehash keep null-safety and order although \<^verbatim>\<open>ReuseAllNodes\<close> resets their
  heights; \<^verbatim>\<open>EraseNode\<close> leaves the count unchanged.
\<close>

type_synonym 'a tree_hash_table = "'a avl_node ghash_table"
type_synonym node_loc = "bool \<times> nat \<times> dir list"

definition TreeHashTable_new :: "'a tree_hash_table" where
  "TreeHashTable_new = \<lparr>table1 = Table_Grow Null 4 Table_new, table2 = Table_new, rehash_idx = None\<rparr>"

text \<open>Unlike the list table, \<^verbatim>\<open>Reset\<close> leaves \<^verbatim>\<open>size_mask\<close> as it is.\<close>

definition TreeTable_Reset :: "'a avl_node gtable \<Rightarrow> 'a avl_node gtable" where
  "TreeTable_Reset t = t\<lparr>buckets := ReservedArray_Shrink 0 (buckets t)\<rparr>"

section \<open>Rehashing\<close>

definition TreeTable_Rehash :: "'a tree_hash_table \<Rightarrow> 'a tree_hash_table" where
  "TreeTable_Rehash ht = (if \<not> InRehashing ht \<and> tsize (table1 ht) \<le> used (table1 ht)
     then ht\<lparr>table2 := Table_Grow Null (2 * tsize (table1 ht)) (table2 ht), rehash_idx := Some 0\<rparr>
     else ht)"

text \<open>The callback of \<^verbatim>\<open>ReuseAllNodes\<close>: each node, its height reset to 0, is pushed into the second table.\<close>

fun tree_rehash_move :: "('k \<Rightarrow> 'k \<Rightarrow> int) \<Rightarrow> ('k \<Rightarrow> nat) \<Rightarrow> ('a \<Rightarrow> 'k) \<Rightarrow> 'a list \<Rightarrow> 'a avl_node gtable
    \<Rightarrow> 'a avl_node gtable option" where
  "tree_rehash_move cmp hf gk [] t2 = Some t2"
| "tree_rehash_move cmp hf gk (x # xs) t2 =
     (let i = bucket_index t2 (hf (gk x)) in
      do { b \<leftarrow> ReservedArray_at (buckets t2) i;
           (_, b', _) \<leftarrow> Avl_Push cmp gk 0 x b;
           tree_rehash_move cmp hf gk xs (set_bucket i b' t2) })"

definition TreeTable_IncrementalRehash :: "('k \<Rightarrow> 'k \<Rightarrow> int) \<Rightarrow> ('k \<Rightarrow> nat) \<Rightarrow> ('a \<Rightarrow> 'k) \<Rightarrow> 'a tree_hash_table
    \<Rightarrow> 'a tree_hash_table option" where
  "TreeTable_IncrementalRehash cmp hf gk ht = (case rehash_idx ht of
      None \<Rightarrow> Some ht
    | Some i \<Rightarrow>
        do { b \<leftarrow> ReservedArray_at (buckets (table1 ht)) i;
             t2 \<leftarrow> tree_rehash_move cmp hf gk (ReuseAllNodes b) (table2 ht);
             let t1 = set_bucket i Null (table1 ht);
             if i + 1 = tsize t1
             then (if buckets t2 \<noteq> []
                   then (let (t1', t2') = Table_swap t1 t2 in
                         Some \<lparr>table1 = t1', table2 = TreeTable_Reset t2', rehash_idx = None\<rparr>)
                   else Some \<lparr>table1 = t1, table2 = t2, rehash_idx = None\<rparr>)
             else Some \<lparr>table1 = t1, table2 = t2, rehash_idx = Some (i + 1)\<rparr> })"

section \<open>Insertion\<close>

definition inc_used :: "'b ghash_table \<Rightarrow> 'b ghash_table" where
  "inc_used ht = ht\<lparr>table1 := (table1 ht)\<lparr>used := used (table1 ht) + 1\<rparr>\<rparr>"

definition which_table :: "bool \<Rightarrow> 'b ghash_table \<Rightarrow> 'b gtable" where
  "which_table second ht = (if second then table2 ht else table1 ht)"

definition set_tree :: "bool \<Rightarrow> nat \<Rightarrow> 'b \<Rightarrow> 'b ghash_table \<Rightarrow> 'b ghash_table" where
  "set_tree second i b ht = (if second then ht\<lparr>table2 := set_bucket i b (table2 ht)\<rparr>
                             else ht\<lparr>table1 := set_bucket i b (table1 ht)\<rparr>)"

text \<open>\<^verbatim>\<open>INSERT_AND_SET_DUPLICATE\<close> on a bucket, followed by the count on success.\<close>

definition insert_and_set_duplicate :: "('k \<Rightarrow> 'k \<Rightarrow> int) \<Rightarrow> ('a \<Rightarrow> 'k) \<Rightarrow> bool \<Rightarrow> nat \<Rightarrow> 'a \<Rightarrow> 'a tree_hash_table
    \<Rightarrow> (bool \<times> 'a \<times> 'a tree_hash_table) option" where
  "insert_and_set_duplicate cmp gk second i elem ht =
     do { b \<leftarrow> ReservedArray_at (buckets (which_table second ht)) i;
          (ok, d, b', _) \<leftarrow> Avl_InsertWithDuplicate cmp gk elem b;
          if ok then Some (True, d, inc_used (set_tree second i b' ht)) else Some (False, d, ht) }"

definition TreeTable_InsertWithDuplicate :: "('k \<Rightarrow> 'k \<Rightarrow> int) \<Rightarrow> ('k \<Rightarrow> nat) \<Rightarrow> ('a \<Rightarrow> 'k) \<Rightarrow> 'a \<Rightarrow> 'a tree_hash_table
    \<Rightarrow> (bool \<times> 'a \<times> 'a tree_hash_table) option" where
  "TreeTable_InsertWithDuplicate cmp hf gk elem ht0 =
     do { ht \<leftarrow> TreeTable_IncrementalRehash cmp hf gk (TreeTable_Rehash ht0);
          let hash_val = hf (gk elem);
          let i1 = bucket_index (table1 ht) hash_val;
          case rehash_idx ht of
            None \<Rightarrow> insert_and_set_duplicate cmp gk False i1 elem ht
          | Some idx \<Rightarrow>
              let i2 = bucket_index (table2 ht) hash_val in
              if i1 < idx then insert_and_set_duplicate cmp gk True i2 elem ht
              else do { b2 \<leftarrow> ReservedArray_at (buckets (table2 ht)) i2;
                        (case Avl_Find cmp gk (gk elem) b2 of
                           Some d \<Rightarrow> Some (False, d, ht)
                         | None \<Rightarrow> insert_and_set_duplicate cmp gk False i1 elem ht) } }"

definition TreeTable_Insert :: "('k \<Rightarrow> 'k \<Rightarrow> int) \<Rightarrow> ('k \<Rightarrow> nat) \<Rightarrow> ('a \<Rightarrow> 'k) \<Rightarrow> 'a \<Rightarrow> 'a tree_hash_table
    \<Rightarrow> ('a option \<times> 'a tree_hash_table) option" where
  "TreeTable_Insert cmp hf gk elem ht =
     do { (ok, d, ht') \<leftarrow> TreeTable_InsertWithDuplicate cmp hf gk elem ht; Some (if ok then Some d else None, ht') }"

text \<open>
  \<^verbatim>\<open>Push\<close> of a node of height \<open>hx\<close> (\<^verbatim>\<open>duplicate\<close> is null). In the third branch the node is pushed into
  the first table before the second one is searched for its key.
\<close>

definition push_in :: "('k \<Rightarrow> 'k \<Rightarrow> int) \<Rightarrow> ('a \<Rightarrow> 'k) \<Rightarrow> bool \<Rightarrow> nat \<Rightarrow> int \<Rightarrow> 'a \<Rightarrow> 'a tree_hash_table
    \<Rightarrow> (bool \<times> 'a tree_hash_table) option" where
  "push_in cmp gk second i hx x ht =
     do { b \<leftarrow> ReservedArray_at (buckets (which_table second ht)) i;
          (ok, b', _) \<leftarrow> Avl_Push cmp gk hx x b;
          Some (ok, set_tree second i b' ht) }"

definition TreeTable_Push :: "('k \<Rightarrow> 'k \<Rightarrow> int) \<Rightarrow> ('k \<Rightarrow> nat) \<Rightarrow> ('a \<Rightarrow> 'k) \<Rightarrow> int \<Rightarrow> 'a \<Rightarrow> 'a tree_hash_table
    \<Rightarrow> (bool \<times> 'a tree_hash_table) option" where
  "TreeTable_Push cmp hf gk hx x ht0 =
     do { ht \<leftarrow> TreeTable_IncrementalRehash cmp hf gk (TreeTable_Rehash ht0);
          let hash_val = hf (gk x);
          let i1 = bucket_index (table1 ht) hash_val;
          case rehash_idx ht of
            None \<Rightarrow> do { (ok, ht) \<leftarrow> push_in cmp gk False i1 hx x ht;
                         Some (if ok then (True, inc_used ht) else (False, ht)) }
          | Some idx \<Rightarrow>
              let i2 = bucket_index (table2 ht) hash_val in
              if i1 < idx then do { (ok, ht) \<leftarrow> push_in cmp gk True i2 hx x ht;
                                    Some (if ok then (True, inc_used ht) else (False, ht)) }
              else do { (ok, ht) \<leftarrow> push_in cmp gk False i1 hx x ht;
                        if \<not> ok then Some (False, ht)
                        else do { b2 \<leftarrow> ReservedArray_at (buckets (table2 ht)) i2;
                                  (case Avl_Find cmp gk (gk x) b2 of
                                     Some _ \<Rightarrow> Some (False, ht)
                                   | None \<Rightarrow> Some (True, inc_used ht)) } } }"

section \<open>Lookup and removal\<close>

definition find_node_in :: "('k \<Rightarrow> 'k \<Rightarrow> int) \<Rightarrow> ('k \<Rightarrow> nat) \<Rightarrow> ('a \<Rightarrow> 'k) \<Rightarrow> 'k \<Rightarrow> bool \<Rightarrow> 'a tree_hash_table
    \<Rightarrow> node_loc option option" where
  "find_node_in cmp hf gk k second ht =
     (let i = bucket_index (which_table second ht) (hf k) in
      do { b \<leftarrow> ReservedArray_at (buckets (which_table second ht)) i;
           Some (map_option (\<lambda>p. (second, i, p)) (FindNode cmp gk k b)) })"

definition TreeTable_FindNode :: "('k \<Rightarrow> 'k \<Rightarrow> int) \<Rightarrow> ('k \<Rightarrow> nat) \<Rightarrow> ('a \<Rightarrow> 'k) \<Rightarrow> 'k \<Rightarrow> 'a tree_hash_table
    \<Rightarrow> (node_loc option \<times> 'a tree_hash_table) option" where
  "TreeTable_FindNode cmp hf gk k ht0 =
     do { ht \<leftarrow> TreeTable_IncrementalRehash cmp hf gk ht0;
          r1 \<leftarrow> find_node_in cmp hf gk k False ht;
          case r1 of
            Some loc \<Rightarrow> Some (Some loc, ht)
          | None \<Rightarrow> if InRehashing ht
                    then do { r2 \<leftarrow> find_node_in cmp hf gk k True ht; Some (r2, ht) }
                    else Some (None, ht) }"

definition deref_node :: "node_loc \<Rightarrow> 'a tree_hash_table \<Rightarrow> 'a option" where
  "deref_node loc ht = (case loc of (second, i, p) \<Rightarrow>
     do { b \<leftarrow> ReservedArray_at (buckets (which_table second ht)) i; value_at p b })"

definition TreeTable_Find :: "('k \<Rightarrow> 'k \<Rightarrow> int) \<Rightarrow> ('k \<Rightarrow> nat) \<Rightarrow> ('a \<Rightarrow> 'k) \<Rightarrow> 'k \<Rightarrow> 'a tree_hash_table
    \<Rightarrow> ('a option \<times> 'a tree_hash_table) option" where
  "TreeTable_Find cmp hf gk k ht0 =
     do { (r, ht) \<leftarrow> TreeTable_FindNode cmp hf gk k ht0;
          case r of None \<Rightarrow> Some (None, ht) | Some loc \<Rightarrow> do { x \<leftarrow> deref_node loc ht; Some (Some x, ht) } }"

definition TreeTable_EraseNode :: "node_loc \<Rightarrow> 'a tree_hash_table \<Rightarrow> (bool \<times> 'a tree_hash_table) option" where
  "TreeTable_EraseNode loc ht = (case loc of (second, i, p) \<Rightarrow>
     do { b \<leftarrow> ReservedArray_at (buckets (which_table second ht)) i;
          (ok, b') \<leftarrow> Avl_EraseNode (Some p) b;
          Some (ok, set_tree second i b' ht) })"

definition extract_in :: "('k \<Rightarrow> 'k \<Rightarrow> int) \<Rightarrow> ('k \<Rightarrow> nat) \<Rightarrow> ('a \<Rightarrow> 'k) \<Rightarrow> 'k \<Rightarrow> bool \<Rightarrow> 'a tree_hash_table
    \<Rightarrow> (('a \<times> int) option \<times> 'a tree_hash_table) option" where
  "extract_in cmp hf gk k second ht =
     (let i = bucket_index (which_table second ht) (hf k) in
      do { b \<leftarrow> ReservedArray_at (buckets (which_table second ht)) i;
           (r, b') \<leftarrow> Avl_Extract cmp gk k b;
           Some (r, set_tree second i b' ht) })"

definition dec_used_in :: "'b ghash_table \<Rightarrow> 'b ghash_table" where
  "dec_used_in ht = ht\<lparr>table1 := dec_used (table1 ht)\<rparr>"

definition TreeTable_Extract :: "('k \<Rightarrow> 'k \<Rightarrow> int) \<Rightarrow> ('k \<Rightarrow> nat) \<Rightarrow> ('a \<Rightarrow> 'k) \<Rightarrow> 'k \<Rightarrow> 'a tree_hash_table
    \<Rightarrow> (('a \<times> int) option \<times> 'a tree_hash_table) option" where
  "TreeTable_Extract cmp hf gk k ht0 =
     do { ht \<leftarrow> TreeTable_IncrementalRehash cmp hf gk ht0;
          (r1, ht1) \<leftarrow> extract_in cmp hf gk k False ht;
          case r1 of
            Some x \<Rightarrow> Some (Some x, dec_used_in ht1)
          | None \<Rightarrow> if InRehashing ht
                    then do { (r2, ht2) \<leftarrow> extract_in cmp hf gk k True ht1;
                              (case r2 of Some x \<Rightarrow> Some (Some x, dec_used_in ht2) | None \<Rightarrow> Some (None, ht2)) }
                    else Some (None, ht1) }"

definition TreeTable_Erase :: "('k \<Rightarrow> 'k \<Rightarrow> int) \<Rightarrow> ('k \<Rightarrow> nat) \<Rightarrow> ('a \<Rightarrow> 'k) \<Rightarrow> 'k \<Rightarrow> 'a tree_hash_table
    \<Rightarrow> (nat \<times> 'a tree_hash_table) option" where
  "TreeTable_Erase cmp hf gk k ht =
     do { (r, ht') \<leftarrow> TreeTable_Extract cmp hf gk k ht; Some (case r of None \<Rightarrow> 0 | Some _ \<Rightarrow> 1, ht') }"

text \<open>The loops of \<^verbatim>\<open>Clear\<close> and \<^verbatim>\<open>ClearApply\<close>; the latter collects the values handed to the callback.\<close>

fun tree_clear_loop :: "nat list \<Rightarrow> 'a avl_node gtable \<Rightarrow> 'a list \<Rightarrow> ('a avl_node gtable \<times> 'a list) option" where
  "tree_clear_loop [] t out = Some (t, out)"
| "tree_clear_loop (i # is) t out =
     do { b \<leftarrow> ReservedArray_at (buckets t) i;
          tree_clear_loop is (set_bucket i Null t) (out @ ReuseAllNodes b) }"

definition TreeTable_Clear :: "'a tree_hash_table \<Rightarrow> 'a tree_hash_table option" where
  "TreeTable_Clear ht =
     do { (t1, _) \<leftarrow> tree_clear_loop [0 ..< 4] (Table_Shrink 4 (table1 ht)) [];
          Some \<lparr>table1 = t1\<lparr>used := 0\<rparr>,
                table2 = (if InRehashing ht then Table_Shrink 0 (table2 ht) else table2 ht),
                rehash_idx = None\<rparr> }"

definition TreeTable_ClearApply :: "'a tree_hash_table \<Rightarrow> ('a list \<times> 'a tree_hash_table) option" where
  "TreeTable_ClearApply ht =
     do { (t1, out) \<leftarrow> tree_clear_loop [4 ..< tsize (table1 ht)] (table1 ht) [];
          (t1, out) \<leftarrow> tree_clear_loop [0 ..< 4] (Table_Shrink 4 t1) out;
          (t2, out) \<leftarrow> (if InRehashing ht
                        then do { (t2, out) \<leftarrow> tree_clear_loop [0 ..< tsize (table2 ht)] (table2 ht) out;
                                  Some (Table_Shrink 0 t2, out) }
                        else Some (table2 ht, out));
          Some (out, \<lparr>table1 = t1\<lparr>used := 0\<rparr>, table2 = t2, rehash_idx = None\<rparr>) }"

section \<open>Invariant and abstraction\<close>

abbreviation tree_elems :: "'a avl_node gtable \<Rightarrow> 'a list" where
  "tree_elems t \<equiv> concat (map inorder (buckets t))"

definition tt_elems :: "'a tree_hash_table \<Rightarrow> 'a list" where
  "tt_elems ht = tree_elems (table1 ht) @ tree_elems (table2 ht)"

definition tt_map :: "('a \<Rightarrow> 'k) \<Rightarrow> 'a tree_hash_table \<Rightarrow> 'k \<rightharpoonup> 'a" where
  "tt_map gk ht = keyed_map gk (tt_elems ht)"

text \<open>A bucket: a search tree with non-negative stored heights, of keys that hash to it.\<close>

definition tree_ok :: "('k \<Rightarrow> 'k \<Rightarrow> int) \<Rightarrow> ('k \<Rightarrow> bool) \<Rightarrow> ('a \<Rightarrow> 'k) \<Rightarrow> 'a avl_node \<Rightarrow> bool" where
  "tree_ok cmp K gk b = (heights_nonneg b \<and> strict_sorted cmp gk (inorder b) \<and> (\<forall>x \<in> set (inorder b). K (gk x)))"

definition ttable_ok :: "('k \<Rightarrow> 'k \<Rightarrow> int) \<Rightarrow> ('k \<Rightarrow> bool) \<Rightarrow> ('k \<Rightarrow> nat) \<Rightarrow> ('a \<Rightarrow> 'k) \<Rightarrow> 'a avl_node gtable \<Rightarrow> bool" where
  "ttable_ok cmp K hf gk t = (0 < tsize t \<and> size_mask t = tsize t - 1
     \<and> (\<forall>i < tsize t. tree_ok cmp K gk (buckets t ! i)
          \<and> (\<forall>x \<in> set (inorder (buckets t ! i)). bucket_index t (hf (gk x)) = i)))"

definition tt_rehash_ok :: "('k \<Rightarrow> 'k \<Rightarrow> int) \<Rightarrow> ('k \<Rightarrow> bool) \<Rightarrow> ('k \<Rightarrow> nat) \<Rightarrow> ('a \<Rightarrow> 'k) \<Rightarrow> 'a tree_hash_table \<Rightarrow> bool" where
  "tt_rehash_ok cmp K hf gk ht = (case rehash_idx ht of
      None \<Rightarrow> buckets (table2 ht) = []
    | Some i \<Rightarrow> ttable_ok cmp K hf gk (table2 ht) \<and> tsize (table2 ht) = 2 * tsize (table1 ht)
        \<and> i < tsize (table1 ht) \<and> (\<forall>j < i. buckets (table1 ht) ! j = Null)
        \<and> (\<forall>x \<in> set (tree_elems (table2 ht)). bucket_index (table1 ht) (hf (gk x)) < i))"

definition tt_inv :: "('k \<Rightarrow> 'k \<Rightarrow> int) \<Rightarrow> ('k \<Rightarrow> bool) \<Rightarrow> ('k \<Rightarrow> nat) \<Rightarrow> ('a \<Rightarrow> 'k) \<Rightarrow> 'a tree_hash_table \<Rightarrow> bool" where
  "tt_inv cmp K hf gk ht = (ttable_ok cmp K hf gk (table1 ht) \<and> 4 \<le> tsize (table1 ht) \<and> tt_rehash_ok cmp K hf gk ht
     \<and> distinct (map gk (tt_elems ht)) \<and> length (tt_elems ht) \<le> used (table1 ht))"

lemmas tt_map_mset_eq = keyed_map_mset_eq [where xs = "tt_elems ht" and ys = "tt_elems ht'" for ht ht', folded tt_map_def]
lemmas tt_map_Some = keyed_map_Some [where xs = "tt_elems ht" for ht, folded tt_map_def]
lemmas tt_map_None = keyed_map_None [where xs = "tt_elems ht" for ht, folded tt_map_def]
lemmas tt_map_NoneD = keyed_map_NoneD [where xs = "tt_elems ht" for ht, folded tt_map_def]
lemmas tt_map_remove = keyed_map_remove [where xs = "tt_elems ht" and ys = "tt_elems ht'" for ht ht', folded tt_map_def]
lemmas tt_map_insert = keyed_map_insert [where xs = "tt_elems ht" and ys = "tt_elems ht'" for ht ht', folded tt_map_def]

lemma tt_invD:
  assumes "tt_inv cmp K hf gk ht"
  shows "ttable_ok cmp K hf gk (table1 ht)" "distinct (map gk (tt_elems ht))" "length (tt_elems ht) \<le> used (table1 ht)"
    "rehash_idx ht = None \<Longrightarrow> buckets (table2 ht) = []"
    "rehash_idx ht = Some i \<Longrightarrow> ttable_ok cmp K hf gk (table2 ht)"
    "rehash_idx ht = Some i \<Longrightarrow> j < i \<Longrightarrow> buckets (table1 ht) ! j = Null"
    "rehash_idx ht = Some i \<Longrightarrow> i < tsize (table1 ht)"
    "rehash_idx ht = Some i \<Longrightarrow> x \<in> set (tree_elems (table2 ht)) \<Longrightarrow> bucket_index (table1 ht) (hf (gk x)) < i"
    "rehash_idx ht = Some i \<Longrightarrow> tsize (table2 ht) = 2 * tsize (table1 ht)" "4 \<le> tsize (table1 ht)"
  using assms by (auto simp: tt_inv_def tt_rehash_ok_def)

lemma ttable_ok_cong:
  "buckets t = buckets t' \<Longrightarrow> size_mask t = size_mask t' \<Longrightarrow> ttable_ok cmp K hf gk t = ttable_ok cmp K hf gk t'"
  by (simp add: ttable_ok_def bucket_index_def)

lemma tree_index_less:
  assumes "ttable_ok cmp K hf gk t"
  shows "bucket_index t h < tsize t"
proof -
  have "0 < tsize t" "size_mask t = tsize t - 1" using assms by (simp_all add: ttable_ok_def)
  with and_nat_le [of h "size_mask t"] show ?thesis unfolding bucket_index_def by linarith
qed

lemma tree_at: "ttable_ok cmp K hf gk t \<Longrightarrow>
  ReservedArray_at (buckets t) (bucket_index t h) = Some (buckets t ! bucket_index t h)"
  by (simp add: ReservedArray_at_def tree_index_less)

lemma ttable_ok_tree: "ttable_ok cmp K hf gk t \<Longrightarrow> tree_ok cmp K gk (buckets t ! bucket_index t h)"
  using tree_index_less [of cmp K hf gk t h] by (simp add: ttable_ok_def)

lemma ttable_ok_set:
  assumes "ttable_ok cmp K hf gk t" "tree_ok cmp K gk b" "\<And>x. x \<in> set (inorder b) \<Longrightarrow> bucket_index t (hf (gk x)) = i"
  shows "ttable_ok cmp K hf gk (set_bucket i b t)"
  using assms by (cases "i < tsize t") (auto simp: ttable_ok_def nth_list_update split: if_splits)

lemma in_tree_bucket:
  assumes "ttable_ok cmp K hf gk t" "x \<in> set (tree_elems t)"
  shows "x \<in> set (inorder (buckets t ! bucket_index t (hf (gk x))))"
proof -
  from assms(2) obtain i where i: "i < tsize t" "x \<in> set (inorder (buckets t ! i))"
    by (auto simp: in_set_conv_nth [of _ "buckets t"])
  with assms(1) show ?thesis by (auto simp: ttable_ok_def)
qed

lemma bucket_in_tree_elems: "i < tsize t \<Longrightarrow> x \<in> set (inorder (buckets t ! i)) \<Longrightarrow> x \<in> set (tree_elems t)"
  by force

lemma tree_elems_set:
  assumes "i < tsize t" "mset (inorder b) = mset (inorder (buckets t ! i)) - D + A" "D \<subseteq># mset (inorder (buckets t ! i))"
  shows "mset (tree_elems (set_bucket i b t)) = mset (tree_elems t) - D + A"
  using concat_update_mset [of i "map inorder (buckets t)" "inorder b" D A] assms by (simp add: map_update)

lemma tree_ok_Null [simp]: "tree_ok cmp K gk Null"
  by (simp add: tree_ok_def strict_sorted_def)

lemma TreeTable_Reset_buckets [simp]: "buckets (TreeTable_Reset t) = []"
  by (simp add: TreeTable_Reset_def ReservedArray_Shrink_def)

text \<open>The bucket a key belongs to: in the second table once its bucket of the first one has been moved.\<close>

definition home_second :: "'b ghash_table \<Rightarrow> nat \<Rightarrow> bool" where
  "home_second ht h = (case rehash_idx ht of None \<Rightarrow> False | Some idx \<Rightarrow> bucket_index (table1 ht) h < idx)"

abbreviation home_index :: "'b ghash_table \<Rightarrow> nat \<Rightarrow> nat" where
  "home_index ht h \<equiv> bucket_index (which_table (home_second ht h) ht) h"

abbreviation home_bucket :: "'b ghash_table \<Rightarrow> nat \<Rightarrow> 'b" where
  "home_bucket ht h \<equiv> buckets (which_table (home_second ht h) ht) ! home_index ht h"

abbreviation put_home :: "nat \<Rightarrow> 'b \<Rightarrow> 'b ghash_table \<Rightarrow> 'b ghash_table" where
  "put_home h b ht \<equiv> set_tree (home_second ht h) (home_index ht h) b ht"

text \<open>The part of the invariant that does not depend on the counter.\<close>

definition tt_core :: "('k \<Rightarrow> 'k \<Rightarrow> int) \<Rightarrow> ('k \<Rightarrow> bool) \<Rightarrow> ('k \<Rightarrow> nat) \<Rightarrow> ('a \<Rightarrow> 'k) \<Rightarrow> 'a tree_hash_table \<Rightarrow> bool" where
  "tt_core cmp K hf gk ht = (ttable_ok cmp K hf gk (table1 ht) \<and> 4 \<le> tsize (table1 ht) \<and> tt_rehash_ok cmp K hf gk ht)"

lemma tt_inv_core: "tt_inv cmp K hf gk ht = (tt_core cmp K hf gk ht \<and> distinct (map gk (tt_elems ht))
    \<and> length (tt_elems ht) \<le> used (table1 ht))"
  by (auto simp: tt_inv_def tt_core_def)

lemma tt_core_used [simp]:
  "tt_core cmp K hf gk (ht\<lparr>table1 := (table1 ht)\<lparr>used := n\<rparr>\<rparr>) = tt_core cmp K hf gk ht"
  "tt_elems (ht\<lparr>table1 := (table1 ht)\<lparr>used := n\<rparr>\<rparr>) = tt_elems ht"
  using ttable_ok_cong [of "(table1 ht)\<lparr>used := n\<rparr>" "table1 ht" cmp K hf gk]
  by (auto simp: tt_core_def tt_rehash_ok_def tt_elems_def bucket_index_def split: option.splits)

lemma home_ok:
  assumes "tt_inv cmp K hf gk ht"
  shows "ttable_ok cmp K hf gk (which_table (home_second ht h) ht)"
  using tt_invD(1,5) [OF assms] by (auto simp: home_second_def which_table_def split: option.splits)

lemma tt_elems_home:
  assumes inv: "tt_inv cmp K hf gk ht"
  shows "x \<in> set (tt_elems ht) \<longleftrightarrow> x \<in> set (inorder (home_bucket ht (hf (gk x))))"
proof
  assume "x \<in> set (tt_elems ht)"
  then consider "x \<in> set (tree_elems (table1 ht))" | "x \<in> set (tree_elems (table2 ht))"
    by (fastforce simp: tt_elems_def)
  then show "x \<in> set (inorder (home_bucket ht (hf (gk x))))"
  proof cases
    case 1
    with in_tree_bucket [OF tt_invD(1) [OF inv] 1] tt_invD(6) [OF inv] show ?thesis
      by (auto simp: home_second_def which_table_def split: option.splits)
  next
    case 2
    then obtain i where i: "rehash_idx ht = Some i" using tt_invD(4) [OF inv] by (cases "rehash_idx ht") auto
    with in_tree_bucket [OF tt_invD(5) [OF inv i] 2] tt_invD(8) [OF inv i 2] show ?thesis
      by (auto simp: home_second_def which_table_def)
  qed
next
  assume "x \<in> set (inorder (home_bucket ht (hf (gk x))))"
  from bucket_in_tree_elems [OF tree_index_less [OF home_ok [OF inv]] this]
  show "x \<in> set (tt_elems ht)" by (auto simp: tt_elems_def which_table_def split: if_splits)
qed

lemma not_home:
  assumes inv: "tt_inv cmp K hf gk ht" and "second \<noteq> home_second ht (hf k)" "second \<longrightarrow> InRehashing ht"
  shows "x \<in> set (inorder (buckets (which_table second ht) ! bucket_index (which_table second ht) (hf k))) \<Longrightarrow> gk x \<noteq> k"
proof (cases "rehash_idx ht")
  case (Some i)
  assume x: "x \<in> set (inorder (buckets (which_table second ht) ! bucket_index (which_table second ht) (hf k)))"
  show ?thesis
  proof (cases second)
    case True
    with x have "x \<in> set (tree_elems (table2 ht))"
      using bucket_in_tree_elems [OF tree_index_less [OF tt_invD(5) [OF inv Some]]] by (simp add: which_table_def)
    from tt_invD(8) [OF inv Some this] True assms(2) Some show ?thesis by (auto simp: home_second_def)
  next
    case False
    with x assms(2) tt_invD(6) [OF inv Some] Some show ?thesis by (simp add: home_second_def which_table_def)
  qed
qed (use assms in \<open>auto simp: home_second_def InRehashing_def\<close>)

lemma mset_diff_add:
  assumes "D \<subseteq># M"
  shows "M - D + A + N = M + N - D + A" "N + (M - D + A) = N + M - D + A"
proof -
  have "count (M - D + A + N) x = count (M + N - D + A) x" for x
  proof -
    have "count D x \<le> count M x" using assms by (simp add: subseteq_mset_def)
    then show ?thesis unfolding count_union count_diff by arith
  qed
  then show "M - D + A + N = M + N - D + A" by (rule multiset_eqI)
  then show "N + (M - D + A) = N + M - D + A" by (metis add.commute)
qed

lemma set_tree_same: "set_tree second i (buckets (which_table second ht) ! i) ht = ht"
  by (simp add: set_tree_def which_table_def)

lemma put_home_ok:
  assumes inv: "tt_inv cmp K hf gk ht" and b: "tree_ok cmp K gk b"
    and ms: "mset (inorder b) = mset (inorder (home_bucket ht (hf k))) - D + A" "D \<subseteq># mset (inorder (home_bucket ht (hf k)))"
    and A: "\<And>x. x \<in># A \<Longrightarrow> gk x = k"
  shows "tt_core cmp K hf gk (put_home (hf k) b ht)"
    "mset (tt_elems (put_home (hf k) b ht)) = mset (tt_elems ht) - D + A"
proof -
  let ?s = "home_second ht (hf k)" and ?t = "which_table (home_second ht (hf k)) ht"
  let ?t' = "set_bucket (home_index ht (hf k)) b ?t"
  note ok = home_ok [OF inv, of "hf k"] and i = tree_index_less [OF home_ok [OF inv, of "hf k"], of "hf k"]
  have sub: "x \<in> set (inorder (home_bucket ht (hf k))) \<or> gk x = k" if "x \<in> set (inorder b)" for x
  proof -
    have "x \<in># mset (inorder b)" using that by simp
    then have "x \<in># mset (inorder (home_bucket ht (hf k))) - D + A" unfolding ms(1) .
    then show ?thesis using A by (auto dest: in_diffD)
  qed
  have ok': "ttable_ok cmp K hf gk ?t'"
    using sub ok i by (intro ttable_ok_set [OF ok b]) (auto simp: ttable_ok_def)
  have el: "mset (tree_elems ?t') = mset (tree_elems ?t) - D + A" by (rule tree_elems_set [OF i ms])
  have D: "D \<subseteq># mset (tree_elems ?t)"
    using ms(2) mset_nth_subset_concat [of "home_index ht (hf k)" "map inorder (buckets ?t)"] i by simp
  show "mset (tt_elems (put_home (hf k) b ht)) = mset (tt_elems ht) - D + A"
  proof (cases ?s)
    case True
    with el mset_diff_add(2) [OF D, where A = A and N = "mset (tree_elems (table1 ht))"] show ?thesis
      by (simp add: set_tree_def tt_elems_def which_table_def)
  next
    case False
    with el mset_diff_add(1) [OF D, where A = A and N = "mset (tree_elems (table2 ht))"] show ?thesis
      by (simp add: set_tree_def tt_elems_def which_table_def)
  qed
  show "tt_core cmp K hf gk (put_home (hf k) b ht)"
  proof (cases ?s)
    case True
    then obtain idx where idx: "rehash_idx ht = Some idx" "bucket_index (table1 ht) (hf k) < idx"
      by (auto simp: home_second_def split: option.splits)
    have "bucket_index (table1 ht) (hf (gk x)) < idx" if "x \<in> set (tree_elems ?t')" for x
    proof -
      have "x \<in># mset (tree_elems ?t) - D + A" using that el by (metis set_mset_mset)
      then consider "x \<in> set (tree_elems ?t)" | "gk x = k" using A by (fastforce dest: in_diffD)
      then show ?thesis using idx tt_invD(8) [OF inv idx(1), of x] True by cases (auto simp: which_table_def)
    qed
    with ok' inv True idx show ?thesis by (auto simp: tt_core_def set_tree_def tt_inv_def tt_rehash_ok_def which_table_def)
  next
    case False
    with ok' inv show ?thesis
      by (auto simp: tt_core_def set_tree_def tt_inv_def tt_rehash_ok_def which_table_def home_second_def
          nth_list_update bucket_index_def split: option.splits)
  qed
qed

section \<open>Buckets\<close>

locale key_comparator = comparator +
  fixes key_ok :: "'a \<Rightarrow> bool"
  assumes cmp_eq: "key_ok x \<Longrightarrow> key_ok y \<Longrightarrow> cmp x y = 0 \<Longrightarrow> x = y"
begin

lemma cmp_eq_iff: "key_ok x \<Longrightarrow> key_ok y \<Longrightarrow> cmp x y = 0 \<longleftrightarrow> x = y"
  using cmp_eq by auto

lemma tree_Find:
  assumes "tree_ok cmp key_ok gk b" "key_ok k"
  shows "Avl_Find cmp gk k b = List.find (\<lambda>x. gk x = k) (inorder b)"
proof -
  have "List.find (\<lambda>x. cmp (gk x) k = 0) (inorder b) = List.find (\<lambda>x. gk x = k) (inorder b)"
    using assms by (intro find_cong) (auto simp: tree_ok_def cmp_eq_iff)
  then show ?thesis using Avl_Find_find [of gk b k] assms(1) by (simp add: tree_ok_def)
qed

lemma tree_Push:
  assumes b: "tree_ok cmp key_ok gk b" and x: "key_ok (gk x)" and "0 \<le> hx"
    and new: "\<And>y. y \<in> set (inorder b) \<Longrightarrow> gk y \<noteq> gk x"
  shows "\<exists>b' inc. Avl_PushWithDuplicate cmp gk w hx x b = Some (True, x, b', inc) \<and> tree_ok cmp key_ok gk b'
    \<and> mset (inorder b') = add_mset x (mset (inorder b))"
proof -
  have nn: "heights_nonneg b" "strict_sorted cmp gk (inorder b)" "\<forall>y \<in> set (inorder b). key_ok (gk y)"
    using b by (simp_all add: tree_ok_def)
  show ?thesis
  proof (cases rule: PushWithDuplicate_cases [OF nn(1) strict_imp_weak [OF nn(2)] \<open>0 \<le> hx\<close>,
      where v = x and w = w, case_names dup ins])
    case (dup d)
    with new nn(3) x show ?thesis by (auto simp: cmp_eq_iff)
  next
    case (ins b' inc ys zs)
    have "strict_sorted cmp gk (ys @ x # zs)"
      using nn(2) ins(3) by (intro insert_strict_sorted ins(5,6)) auto
    with ins nn x show ?thesis by (auto simp: tree_ok_def)
  qed
qed

lemma tree_Insert_dup:
  assumes b: "tree_ok cmp key_ok gk b" and x: "key_ok (gk x)" and d: "d \<in> set (inorder b)" "gk d = gk x"
  shows "Avl_InsertWithDuplicate cmp gk x b = Some (False, d, b, False)"
    "Avl_PushWithDuplicate cmp gk False hx x b = Some (False, d, b, False) \<or> hx < 0"
proof -
  have nn: "heights_nonneg b" "strict_sorted cmp gk (inorder b)" "\<forall>y \<in> set (inorder b). key_ok (gk y)"
    using b by (simp_all add: tree_ok_def)
  have uniq: "e = d" if "e \<in> set (inorder b)" "cmp (gk e) (gk x) = 0" for e
  proof -
    from that nn(3) x d have "gk e = gk d" by (auto simp: cmp_eq_iff)
    then have "cmp (gk e) (gk d) = 0" "cmp (gk d) (gk e) = 0" by simp_all
    with nn(2) that(1) d(1) show ?thesis
      unfolding strict_sorted_def by (metis less_irrefl sorted_wrt_iff_nth_less in_set_conv_nth linorder_neqE_nat)
  qed
  have push: "Avl_PushWithDuplicate cmp gk False h x b = Some (False, d, b, False)" if "0 \<le> h" for h
  proof (cases rule: PushWithDuplicate_cases [OF nn(1) strict_imp_weak [OF nn(2)] that,
      where v = x and w = False, case_names dup ins])
    case (dup e)
    with uniq [OF dup(2,3)] show ?thesis by simp
  next
    case (ins b' inc ys zs)
    have "cmp (gk d) (gk x) = 0" using d(2) by simp
    with ins(3,5,6) d(1) show ?thesis by fastforce
  qed
  show "Avl_InsertWithDuplicate cmp gk x b = Some (False, d, b, False)"
    using push [of 1] by (simp add: InsertWithDuplicate_eq_Push)
  show "Avl_PushWithDuplicate cmp gk False hx x b = Some (False, d, b, False) \<or> hx < 0"
    using push [of hx] by linarith
qed

lemma tree_Extract:
  assumes b: "tree_ok cmp key_ok gk b" and k: "key_ok k"
  obtains (none) "Avl_Extract cmp gk k b = Some (None, b)" "\<And>x. x \<in> set (inorder b) \<Longrightarrow> gk x \<noteq> k"
  | (some) x h b' where "Avl_Extract cmp gk k b = Some (Some (x, h), b')" "gk x = k" "0 \<le> h"
      "tree_ok cmp key_ok gk b'" "mset (inorder b) = add_mset x (mset (inorder b'))"
proof -
  have nn: "heights_nonneg b" "strict_sorted cmp gk (inorder b)" "\<forall>y \<in> set (inorder b). key_ok (gk y)"
    using b by (simp_all add: tree_ok_def)
  obtain t' h where t': "Avl_Extract cmp gk k b = Some (map_option (\<lambda>v. (v, h)) (Avl_Find cmp gk k b), t')"
      "0 \<le> h" "heights_nonneg t'" "inorder t' = filter (\<lambda>x. cmp (gk x) k \<noteq> 0) (inorder b)"
    using Avl_Erase_spec [OF nn(1,2), of k] by blast
  show thesis
  proof (cases "FindNode cmp gk k b")
    case None
    then have "gk x \<noteq> k" if "x \<in> set (inorder b)" for x
      using FindNode_None [OF strict_imp_weak [OF nn(2)] None that] by auto
    with None none show thesis by (simp add: Avl_Extract_def)
  next
    case (Some p)
    from FindNode_Some [OF Some] have p: "valid_pos p b" "cmp (gk (inorder b ! pos_index p b)) k = 0" by auto
    let ?i = "pos_index p b"
    have i: "?i < avl_size b" using pos_index_less [OF p(1)] .
    have f: "Avl_Find cmp gk k b = Some (inorder b ! ?i)" using Some value_at_pos [OF p(1)] by (simp add: Avl_Find_def)
    have "inorder t' = take ?i (inorder b) @ drop (Suc ?i) (inorder b)"
      using t'(4) strict_filter_nth [OF nn(2) i p(2)] by simp
    then have "mset (inorder b) = add_mset (inorder b ! ?i) (mset (inorder t'))"
      using id_take_nth_drop [OF i] by (metis mset.simps(2) mset_append union_mset_add_mset_right)
    moreover have "strict_sorted cmp gk (inorder t')" using nn(2) t'(4) by (simp add: strict_sorted_def sorted_wrt_filter)
    moreover have "gk (inorder b ! ?i) = k" using p(2) nn(3) k nth_mem [OF i] by (auto simp: cmp_eq_iff)
    ultimately show thesis using t' f nn(3)
      by (intro some [of "inorder b ! ?i" h t']) (auto simp: tree_ok_def)
  qed
qed

lemma tree_rehash_move_ok:
  "ttable_ok cmp key_ok hf gk t \<Longrightarrow> distinct (map gk (xs @ tree_elems t)) \<Longrightarrow> (\<forall>x \<in> set xs. key_ok (gk x)) \<Longrightarrow>
   \<exists>t'. tree_rehash_move cmp hf gk xs t = Some t' \<and> ttable_ok cmp key_ok hf gk t' \<and> tsize t' = tsize t
     \<and> mset (tree_elems t') = mset xs + mset (tree_elems t)"
proof (induction xs arbitrary: t)
  case (Cons x xs)
  let ?i = "bucket_index t (hf (gk x))"
  note ok = Cons.prems(1)
  have i: "?i < tsize t" using ok by (rule tree_index_less)
  have "gk x \<notin> gk ` set (tree_elems t)" using Cons.prems(2) by (simp del: set_concat)
  then have new: "gk y \<noteq> gk x" if "y \<in> set (inorder (buckets t ! ?i))" for y
    using bucket_in_tree_elems [OF i that] by (metis imageI)
  have "key_ok (gk x)" using Cons.prems(3) by simp
  from tree_Push [OF ttable_ok_tree [OF ok] this order.refl new]
  obtain b' inc where b': "Avl_PushWithDuplicate cmp gk False 0 x (buckets t ! ?i) = Some (True, x, b', inc)"
      "tree_ok cmp key_ok gk b'" "mset (inorder b') = add_mset x (mset (inorder (buckets t ! ?i)))"
    by blast
  let ?t = "set_bucket ?i b' t"
  have okt: "ttable_ok cmp key_ok hf gk ?t"
  proof (rule ttable_ok_set [OF ok b'(2)])
    fix y assume "y \<in> set (inorder b')"
    then have "y \<in># mset (inorder b')" by simp
    then have "y = x \<or> y \<in> set (inorder (buckets t ! ?i))" unfolding b'(3) by auto
    then show "bucket_index t (hf (gk y)) = ?i" using ok i by (auto simp: ttable_ok_def)
  qed
  have el: "mset (tree_elems ?t) = add_mset x (mset (tree_elems t))"
    using tree_elems_set [OF i, of b' "{#}" "{#x#}"] b'(3) by simp
  have "mset (xs @ tree_elems ?t) = mset ((x # xs) @ tree_elems t)" using el by simp
  then have "distinct (map gk (xs @ tree_elems ?t))"
    using Cons.prems(2) keyed_map_mset_eq(2) by blast
  then obtain t' where "tree_rehash_move cmp hf gk xs ?t = Some t'" "ttable_ok cmp key_ok hf gk t'" "tsize t' = tsize ?t"
      "mset (tree_elems t') = mset xs + mset (tree_elems ?t)"
    using Cons.IH [OF okt] Cons.prems(3) by auto
  with el b'(1) show ?case
    by (simp add: Let_def tree_at [OF ok] Avl_Push_def)
qed simp

lemma tt_inv_same_elems:
  assumes "tt_inv cmp key_ok hf gk ht" "mset (tt_elems ht') = mset (tt_elems ht)" "used (table1 ht') = used (table1 ht)"
    "ttable_ok cmp key_ok hf gk (table1 ht')" "4 \<le> tsize (table1 ht')" "tt_rehash_ok cmp key_ok hf gk ht'"
  shows "tt_inv cmp key_ok hf gk ht'"
  using assms tt_map_mset_eq(2,3) [OF tt_invD(2) [OF assms(1)] assms(2)] by (simp add: tt_inv_def)

lemma tt_IncrementalRehash:
  assumes inv: "tt_inv cmp key_ok hf gk ht"
  shows "\<exists>ht'. TreeTable_IncrementalRehash cmp hf gk ht = Some ht' \<and> tt_inv cmp key_ok hf gk ht'
    \<and> mset (tt_elems ht') = mset (tt_elems ht) \<and> used (table1 ht') = used (table1 ht)"
proof (cases "rehash_idx ht")
  case None
  with inv show ?thesis by (simp add: TreeTable_IncrementalRehash_def)
next
  case (Some i)
  let ?t1 = "set_bucket i Null (table1 ht)" and ?b = "buckets (table1 ht) ! i"
  note i = tt_invD(7) [OF inv Some] and t1 = tt_invD(1) [OF inv] and t2 = tt_invD(5,9) [OF inv Some]
  have el: "mset (tree_elems ?t1) + mset (inorder ?b) = mset (tree_elems (table1 ht))"
    using mset_concat_update [of i "map inorder (buckets (table1 ht))" "[]"] i by (simp add: map_update)
  have all: "mset ((ReuseAllNodes ?b @ tree_elems (table2 ht)) @ tree_elems ?t1) = mset (tt_elems ht)"
    using el by (simp add: tt_elems_def ReuseAllNodes_postorder mset_postorder ac_simps)
  have "distinct (map gk ((ReuseAllNodes ?b @ tree_elems (table2 ht)) @ tree_elems ?t1))"
    by (rule keyed_map_mset_eq(2) [OF tt_invD(2) [OF inv]]) (rule all)
  then have d: "distinct (map gk (ReuseAllNodes ?b @ tree_elems (table2 ht)))"
    using distinct_append [of "map gk (ReuseAllNodes ?b @ tree_elems (table2 ht))"] by (simp only: map_append)
  have K: "\<forall>x \<in> set (ReuseAllNodes ?b). key_ok (gk x)"
    using t1 i by (simp add: ReuseAllNodes_postorder set_postorder ttable_ok_def tree_ok_def)
  obtain t2' where m: "tree_rehash_move cmp hf gk (ReuseAllNodes ?b) (table2 ht) = Some t2'"
      "ttable_ok cmp key_ok hf gk t2'" "tsize t2' = tsize (table2 ht)"
      "mset (tree_elems t2') = mset (inorder ?b) + mset (tree_elems (table2 ht))"
    using tree_rehash_move_ok [OF t2(1) d K] by (auto simp: ReuseAllNodes_postorder mset_postorder)
  have ok1: "ttable_ok cmp key_ok hf gk ?t1" using t1 by (intro ttable_ok_set) auto
  have low2: "bucket_index (table1 ht) (hf (gk x)) < i + 1" if "x \<in> set (tree_elems t2')" for x
  proof -
    have "x \<in># mset (inorder ?b) + mset (tree_elems (table2 ht))" using that m(4) by (metis set_mset_mset)
    then consider "x \<in> set (inorder ?b)" | "x \<in> set (tree_elems (table2 ht))" by fastforce
    then show ?thesis
      using t1 i tt_invD(8) [OF inv Some, of x] by cases (auto simp: ttable_ok_def)
  qed
  have ms: "mset (tree_elems ?t1 @ tree_elems t2') = mset (tt_elems ht)"
    using el m(4) by (simp add: tt_elems_def)
  show ?thesis
  proof (cases "i + 1 = tsize (table1 ht)")
    case True
    let ?n1 = "?t1\<lparr>buckets := buckets t2', size_mask := size_mask t2'\<rparr>"
    let ?n2 = "TreeTable_Reset (t2'\<lparr>buckets := buckets ?t1, size_mask := size_mask ?t1\<rparr>)"
    let ?ht = "\<lparr>table1 = ?n1, table2 = ?n2, rehash_idx = None\<rparr>"
    have "(buckets (table1 ht))[i := Null] ! j = Null" if "j < tsize (table1 ht)" for j
      using that tt_invD(6) [OF inv Some] True i by (cases "j = i") auto
    then have e1: "tree_elems ?t1 = []" by (fastforce simp: in_set_conv_nth)
    have "tt_elems ?ht = tree_elems ?t1 @ tree_elems t2'" unfolding e1 tt_elems_def by simp
    then have eq: "mset (tt_elems ?ht) = mset (tt_elems ht)" using ms by simp
    have "ttable_ok cmp key_ok hf gk ?n1" using m(2) by (rule ttable_ok_cong [THEN iffD1, rotated 2]) simp_all
    moreover have "4 \<le> tsize ?n1" using tt_invD(10) [OF inv] m(3) t2(2) by simp
    ultimately have "tt_inv cmp key_ok hf gk ?ht"
      by (intro tt_inv_same_elems [OF inv eq]) (simp_all add: tt_rehash_ok_def)
    moreover have "buckets t2' \<noteq> []" using m(2) by (auto simp: ttable_ok_def)
    then have "TreeTable_IncrementalRehash cmp hf gk ht = Some ?ht"
      using Some m(1) i True by (simp add: TreeTable_IncrementalRehash_def ReservedArray_at_def Table_swap_def)
    ultimately show ?thesis using eq by simp
  next
    case False
    let ?ht = "\<lparr>table1 = ?t1, table2 = t2', rehash_idx = Some (i + 1)\<rparr>"
    have eq: "mset (tt_elems ?ht) = mset (tt_elems ht)" using ms by (simp add: tt_elems_def)
    have "tt_rehash_ok cmp key_ok hf gk ?ht"
      using m(2,3) t2(2) False i tt_invD(6) [OF inv Some] low2
      by (auto simp: tt_rehash_ok_def nth_list_update less_Suc_eq bucket_index_def)
    then have "tt_inv cmp key_ok hf gk ?ht"
      using ok1 tt_invD(10) [OF inv] by (intro tt_inv_same_elems [OF inv eq]) auto
    moreover have "TreeTable_IncrementalRehash cmp hf gk ht = Some ?ht"
      using Some m(1) False i by (simp add: TreeTable_IncrementalRehash_def ReservedArray_at_def)
    ultimately show ?thesis using eq by simp
  qed
qed

lemma tt_Rehash:
  assumes "tt_inv cmp key_ok hf gk ht"
  shows "tt_inv cmp key_ok hf gk (TreeTable_Rehash ht) \<and> tt_elems (TreeTable_Rehash ht) = tt_elems ht
    \<and> used (table1 (TreeTable_Rehash ht)) = used (table1 ht)"
proof (cases "\<not> InRehashing ht \<and> tsize (table1 ht) \<le> used (table1 ht)")
  case True
  then have b2: "buckets (table2 ht) = []" using assms by (auto simp: tt_inv_def tt_rehash_ok_def InRehashing_def)
  have "0 < tsize (table1 ht)" using assms by (simp add: tt_inv_def ttable_ok_def)
  with assms True b2 show ?thesis
    by (auto simp: tt_inv_def TreeTable_Rehash_def tt_rehash_ok_def ttable_ok_def tt_elems_def Table_Grow_def mask_of_def
        ReservedArray_Grow_def Let_def)
next
  case False
  with assms show ?thesis by (auto simp: TreeTable_Rehash_def)
qed

lemma tt_prepare:
  assumes "tt_inv cmp key_ok hf gk ht0"
  obtains ht where "TreeTable_IncrementalRehash cmp hf gk (TreeTable_Rehash ht0) = Some ht" "tt_inv cmp key_ok hf gk ht"
    "mset (tt_elems ht) = mset (tt_elems ht0)" "used (table1 ht) = used (table1 ht0)" "tt_map gk ht = tt_map gk ht0"
proof -
  note r = tt_Rehash [OF assms]
  obtain ht where ht: "TreeTable_IncrementalRehash cmp hf gk (TreeTable_Rehash ht0) = Some ht" "tt_inv cmp key_ok hf gk ht"
      "mset (tt_elems ht) = mset (tt_elems ht0)" "used (table1 ht) = used (table1 ht0)"
    using tt_IncrementalRehash [OF r [THEN conjunct1]] r by auto
  from that [OF this] tt_map_mset_eq(1) [OF tt_invD(2) [OF assms] ht(3)] show thesis by blast
qed

lemma tt_step:
  assumes "tt_inv cmp key_ok hf gk ht0"
  obtains ht where "TreeTable_IncrementalRehash cmp hf gk ht0 = Some ht" "tt_inv cmp key_ok hf gk ht"
    "mset (tt_elems ht) = mset (tt_elems ht0)" "used (table1 ht) = used (table1 ht0)" "tt_map gk ht = tt_map gk ht0"
proof -
  obtain ht where ht: "TreeTable_IncrementalRehash cmp hf gk ht0 = Some ht" "tt_inv cmp key_ok hf gk ht"
      "mset (tt_elems ht) = mset (tt_elems ht0)" "used (table1 ht) = used (table1 ht0)"
    using tt_IncrementalRehash [OF assms] by blast
  from that [OF this] tt_map_mset_eq(1) [OF tt_invD(2) [OF assms] ht(3)] show thesis by blast
qed

lemma tt_map_home:
  assumes inv: "tt_inv cmp key_ok hf gk ht"
  shows "tt_map gk ht k = List.find (\<lambda>x. gk x = k) (inorder (home_bucket ht (hf k)))"
proof (cases "List.find (\<lambda>x. gk x = k) (inorder (home_bucket ht (hf k)))")
  case None
  then have "gk x \<noteq> k" if "x \<in> set (tt_elems ht)" for x
    using that tt_elems_home [OF inv, of x] by (auto simp: find_None_iff)
  with None show ?thesis using tt_map_None [of ht gk k] by simp
next
  case (Some x)
  from find_SomeD [OF this] have "x \<in> set (tt_elems ht)" "gk x = k"
    using tt_elems_home [OF inv, of x] by auto
  with tt_map_Some [OF tt_invD(2) [OF inv], of x] Some show ?thesis by simp
qed

lemma tt_bucket_ok:
  assumes "tt_inv cmp key_ok hf gk ht" "second \<longrightarrow> InRehashing ht"
  shows "ReservedArray_at (buckets (which_table second ht)) (bucket_index (which_table second ht) h)
      = Some (buckets (which_table second ht) ! bucket_index (which_table second ht) h)"
    "tree_ok cmp key_ok gk (buckets (which_table second ht) ! bucket_index (which_table second ht) h)"
proof -
  have "ttable_ok cmp key_ok hf gk (which_table second ht)"
    using tt_invD(1,5) [OF assms(1)] assms(2) by (auto simp: which_table_def InRehashing_def)
  then show "ReservedArray_at (buckets (which_table second ht)) (bucket_index (which_table second ht) h)
      = Some (buckets (which_table second ht) ! bucket_index (which_table second ht) h)"
    "tree_ok cmp key_ok gk (buckets (which_table second ht) ! bucket_index (which_table second ht) h)"
    by (rule tree_at, rule ttable_ok_tree)
qed

lemma home_second_rehashing: "home_second ht h \<longrightarrow> InRehashing ht"
  by (auto simp: home_second_def InRehashing_def split: option.splits)

lemma not_home_Find:
  assumes "tt_inv cmp key_ok hf gk ht" "key_ok k" "second \<noteq> home_second ht (hf k)" "second \<longrightarrow> InRehashing ht"
  shows "FindNode cmp gk k (buckets (which_table second ht) ! bucket_index (which_table second ht) (hf k)) = None"
proof (rule ccontr)
  let ?b = "buckets (which_table second ht) ! bucket_index (which_table second ht) (hf k)"
  assume "FindNode cmp gk k ?b \<noteq> None"
  then obtain p where p: "FindNode cmp gk k ?b = Some p" by auto
  have ok: "tree_ok cmp key_ok gk ?b" by (rule tt_bucket_ok [OF assms(1,4)])
  from FindNode_Some [OF p] have v: "valid_pos p ?b" "cmp (gk (inorder ?b ! pos_index p ?b)) k = 0" by auto
  have m: "inorder ?b ! pos_index p ?b \<in> set (inorder ?b)" using pos_index_less [OF v(1)] by simp
  with v(2) ok assms(2) have "gk (inorder ?b ! pos_index p ?b) = k" by (auto simp: tree_ok_def cmp_eq_iff)
  with not_home [OF assms(1,3,4) m] show False by simp
qed

lemma find_node_in_eq:
  assumes "tt_inv cmp key_ok hf gk ht" "second \<longrightarrow> InRehashing ht"
  shows "find_node_in cmp hf gk k second ht = Some (map_option (\<lambda>p. (second, bucket_index (which_table second ht) (hf k), p))
     (FindNode cmp gk k (buckets (which_table second ht) ! bucket_index (which_table second ht) (hf k))))"
  using tt_bucket_ok(1) [OF assms, of "hf k"] by (simp add: find_node_in_def Let_def)

lemma tt_FindNode:
  assumes inv0: "tt_inv cmp key_ok hf gk ht0" and k: "key_ok k"
  obtains ht where "TreeTable_FindNode cmp hf gk k ht0
      = Some (map_option (\<lambda>p. (home_second ht (hf k), home_index ht (hf k), p)) (FindNode cmp gk k (home_bucket ht (hf k))), ht)"
    "tt_inv cmp key_ok hf gk ht" "mset (tt_elems ht) = mset (tt_elems ht0)" "used (table1 ht) = used (table1 ht0)"
    "tt_map gk ht = tt_map gk ht0"
proof -
  obtain ht where ht: "TreeTable_IncrementalRehash cmp hf gk ht0 = Some ht" and inv: "tt_inv cmp key_ok hf gk ht"
    and rest: "mset (tt_elems ht) = mset (tt_elems ht0)" "used (table1 ht) = used (table1 ht0)" "tt_map gk ht = tt_map gk ht0"
    by (rule tt_step [OF inv0])
  have f1: "find_node_in cmp hf gk k False ht = Some (map_option (\<lambda>p. (False, bucket_index (which_table False ht) (hf k), p))
     (FindNode cmp gk k (buckets (which_table False ht) ! bucket_index (which_table False ht) (hf k))))"
    by (rule find_node_in_eq [OF inv]) simp
  have "TreeTable_FindNode cmp hf gk k ht0
      = Some (map_option (\<lambda>p. (home_second ht (hf k), home_index ht (hf k), p)) (FindNode cmp gk k (home_bucket ht (hf k))), ht)"
  proof (cases "home_second ht (hf k)")
    case True
    then have "FindNode cmp gk k (buckets (which_table False ht) ! bucket_index (which_table False ht) (hf k)) = None"
      using not_home_Find [OF inv k, of False] by simp
    with True show ?thesis using find_node_in_eq [OF inv, of True k] home_second_rehashing [of ht "hf k"] f1 ht
      by (simp add: TreeTable_FindNode_def)
  next
    case False
    have "find_node_in cmp hf gk k True ht = Some None" if "InRehashing ht"
      using find_node_in_eq [OF inv, of True k] not_home_Find [OF inv k, of True] False that by simp
    with False f1 ht show ?thesis
      by (cases "FindNode cmp gk k (buckets (which_table False ht) ! bucket_index (which_table False ht) (hf k))")
        (simp_all add: TreeTable_FindNode_def)
  qed
  from that [OF this inv rest] show thesis .
qed

lemma tt_Find:
  assumes "tt_inv cmp key_ok hf gk ht0" "key_ok k"
  shows "\<exists>ht. TreeTable_Find cmp hf gk k ht0 = Some (tt_map gk ht0 k, ht) \<and> tt_inv cmp key_ok hf gk ht
    \<and> mset (tt_elems ht) = mset (tt_elems ht0) \<and> used (table1 ht) = used (table1 ht0) \<and> tt_map gk ht = tt_map gk ht0"
proof -
  obtain ht where ht: "TreeTable_FindNode cmp hf gk k ht0
      = Some (map_option (\<lambda>p. (home_second ht (hf k), home_index ht (hf k), p)) (FindNode cmp gk k (home_bucket ht (hf k))), ht)"
    and inv: "tt_inv cmp key_ok hf gk ht"
    and rest: "mset (tt_elems ht) = mset (tt_elems ht0)" "used (table1 ht) = used (table1 ht0)" "tt_map gk ht = tt_map gk ht0"
    by (rule tt_FindNode [OF assms])
  note b = tt_bucket_ok [OF inv, of "home_second ht (hf k)" "hf k", OF home_second_rehashing]
  have "tt_map gk ht k = Avl_Find cmp gk k (home_bucket ht (hf k))"
    using tt_map_home [OF inv] tree_Find [OF b(2) assms(2)] by simp
  moreover have "value_at p (home_bucket ht (hf k)) \<noteq> None" if "FindNode cmp gk k (home_bucket ht (hf k)) = Some p" for p
    using value_at_pos [OF FindNode_Some [OF that, THEN conjunct1]] by simp
  ultimately have "TreeTable_Find cmp hf gk k ht0 = Some (tt_map gk ht0 k, ht)"
    using ht rest(3) b(1) by (auto simp: TreeTable_Find_def deref_node_def Avl_Find_def split: option.splits)
  with inv rest show ?thesis by blast
qed

lemma put_home_insert:
  assumes inv: "tt_inv cmp key_ok hf gk ht" and new: "tt_map gk ht (gk x) = None" and b: "tree_ok cmp key_ok gk b"
    and ms: "mset (inorder b) = add_mset x (mset (inorder (home_bucket ht (hf (gk x)))))"
  shows "tt_inv cmp key_ok hf gk (inc_used (put_home (hf (gk x)) b ht))
    \<and> tt_map gk (inc_used (put_home (hf (gk x)) b ht)) = (tt_map gk ht)(gk x \<mapsto> x)"
proof -
  let ?ht = "put_home (hf (gk x)) b ht"
  have ms': "mset (inorder b) = mset (inorder (home_bucket ht (hf (gk x)))) - {#} + {#x#}" using ms by simp
  have p: "tt_core cmp key_ok hf gk ?ht" "mset (tt_elems ?ht) = mset (tt_elems ht) - {#} + {#x#}"
    by (rule put_home_ok [OF inv b ms']; simp)+
  have el: "mset (tt_elems ?ht) = add_mset x (mset (tt_elems ht))" using p(2) by simp
  note m = tt_map_insert [OF tt_invD(2) [OF inv] new el]
  have u: "used (table1 ?ht) = used (table1 ht)" by (simp add: set_tree_def)
  show ?thesis using p(1) m u tt_invD(3) [OF inv] by (simp add: tt_inv_core inc_used_def tt_map_def)
qed

lemma put_home_remove:
  assumes inv: "tt_inv cmp key_ok hf gk ht" and x: "gk x = k" and b: "tree_ok cmp key_ok gk b"
    and ms: "mset (inorder (home_bucket ht (hf k))) = add_mset x (mset (inorder b))"
  shows "tt_inv cmp key_ok hf gk (put_home (hf k) b ht)"
    "tt_inv cmp key_ok hf gk (dec_used_in (put_home (hf k) b ht))"
    "tt_map gk (put_home (hf k) b ht) = (tt_map gk ht)(k := None)"
    "tt_map gk (dec_used_in (put_home (hf k) b ht)) = (tt_map gk ht)(k := None)"
proof -
  let ?ht = "put_home (hf k) b ht"
  have D: "{#x#} \<subseteq># mset (inorder (home_bucket ht (hf k)))" using ms by simp
  have ms': "mset (inorder b) = mset (inorder (home_bucket ht (hf k))) - {#x#} + {#}" using ms by simp
  have p: "tt_core cmp key_ok hf gk ?ht" "mset (tt_elems ?ht) = mset (tt_elems ht) - {#x#} + {#}"
    by (rule put_home_ok [OF inv b ms' D]; simp)+
  have "x \<in># mset (inorder (home_bucket ht (hf (gk x))))" using ms x by simp
  then have "x \<in> set (tt_elems ht)" using tt_elems_home [OF inv, of x] by simp
  then have el: "mset (tt_elems ht) = add_mset x (mset (tt_elems ?ht))" using p(2) by simp
  note m = tt_map_remove [OF tt_invD(2) [OF inv] el]
  have u: "used (table1 ?ht) = used (table1 ht)" by (simp add: set_tree_def)
  have d: "tt_core cmp key_ok hf gk (dec_used_in ?ht)" "tt_elems (dec_used_in ?ht) = tt_elems ?ht"
      "used (table1 (dec_used_in ?ht)) = used (table1 ht) - 1"
    using p(1) u m(3) tt_invD(3) [OF inv] by (simp_all add: dec_used_in_def dec_used_def)
  show "tt_inv cmp key_ok hf gk ?ht" "tt_inv cmp key_ok hf gk (dec_used_in ?ht)"
    using p(1) d m(2,3) u tt_invD(3) [OF inv] by (simp_all add: tt_inv_core)
  show "tt_map gk ?ht = (tt_map gk ht)(k := None)" using m(1) x by simp
  then show "tt_map gk (dec_used_in ?ht) = (tt_map gk ht)(k := None)" by (simp add: tt_map_def d(2))
qed

lemma InsertWithDuplicate_home:
  assumes inv: "tt_inv cmp key_ok hf gk ht" and k: "key_ok (gk e)"
    and ht: "TreeTable_IncrementalRehash cmp hf gk (TreeTable_Rehash ht0) = Some ht"
  shows "TreeTable_InsertWithDuplicate cmp hf gk e ht0
    = insert_and_set_duplicate cmp gk (home_second ht (hf (gk e))) (home_index ht (hf (gk e))) e ht"
proof (cases "rehash_idx ht")
  case (Some idx)
  have "Avl_Find cmp gk (gk e) (buckets (table2 ht) ! bucket_index (table2 ht) (hf (gk e))) = None"
    if "\<not> bucket_index (table1 ht) (hf (gk e)) < idx"
    using not_home_Find [OF inv k, of True] that Some by (simp add: home_second_def which_table_def Avl_Find_def InRehashing_def)
  moreover have "ReservedArray_at (buckets (table2 ht)) (bucket_index (table2 ht) (hf (gk e)))
      = Some (buckets (table2 ht) ! bucket_index (table2 ht) (hf (gk e)))"
    using tt_bucket_ok(1) [OF inv, of True] Some by (simp add: which_table_def InRehashing_def)
  ultimately show ?thesis using ht Some
    by (simp add: TreeTable_InsertWithDuplicate_def home_second_def Let_def which_table_def)
qed (use ht in \<open>simp add: TreeTable_InsertWithDuplicate_def home_second_def Let_def which_table_def\<close>)

lemma tt_Insert:
  assumes inv0: "tt_inv cmp key_ok hf gk ht0" and k: "key_ok (gk e)"
  shows "\<exists>ht'. TreeTable_InsertWithDuplicate cmp hf gk e ht0
      = Some (tt_map gk ht0 (gk e) = None, case tt_map gk ht0 (gk e) of None \<Rightarrow> e | Some d \<Rightarrow> d, ht')
    \<and> tt_inv cmp key_ok hf gk ht'
    \<and> tt_map gk ht' = (if tt_map gk ht0 (gk e) = None then (tt_map gk ht0)(gk e \<mapsto> e) else tt_map gk ht0)"
proof -
  let ?h = "hf (gk e)"
  obtain ht where ht: "TreeTable_IncrementalRehash cmp hf gk (TreeTable_Rehash ht0) = Some ht"
    and inv: "tt_inv cmp key_ok hf gk ht" and rest: "tt_map gk ht = tt_map gk ht0"
    by (rule tt_prepare [OF inv0])
  note b = tt_bucket_ok [OF inv, of "home_second ht ?h" ?h, OF home_second_rehashing]
  note eq = InsertWithDuplicate_home [OF inv k ht] insert_and_set_duplicate_def
  show ?thesis
  proof (cases "tt_map gk ht (gk e)")
    case None
    have new: "\<And>y. y \<in> set (inorder (home_bucket ht ?h)) \<Longrightarrow> gk y \<noteq> gk e"
      using None tt_map_home [OF inv, of "gk e"] by (simp add: find_None_iff)
    obtain b' inc where b': "Avl_InsertWithDuplicate cmp gk e (home_bucket ht ?h) = Some (True, e, b', inc)"
        "tree_ok cmp key_ok gk b'" "mset (inorder b') = add_mset e (mset (inorder (home_bucket ht ?h)))"
      using tree_Push [OF b(2) k _ new, where hx = 1 and w = False] by (auto simp: InsertWithDuplicate_eq_Push)
    from put_home_insert [OF inv None b'(2,3)] None rest show ?thesis
      by (simp add: eq b(1) b'(1))
  next
    case (Some d)
    then have "d \<in> set (inorder (home_bucket ht ?h))" "gk d = gk e"
      using find_SomeD [OF tt_map_home [OF inv, of "gk e", symmetric, THEN trans]] by blast+
    from tree_Insert_dup(1) [OF b(2) k this] Some rest inv show ?thesis
      by (simp add: eq b(1))
  qed
qed

lemma extract_in_other:
  assumes inv: "tt_inv cmp key_ok hf gk ht" and "key_ok k" "second \<noteq> home_second ht (hf k)" "second \<longrightarrow> InRehashing ht"
  shows "extract_in cmp hf gk k second ht = Some (None, ht)"
  using tt_bucket_ok(1) [OF inv assms(4), of "hf k"] not_home_Find [OF assms]
  by (simp add: extract_in_def Let_def Avl_Extract_def set_tree_def which_table_def split: if_splits)

lemma tt_Extract:
  assumes inv0: "tt_inv cmp key_ok hf gk ht0" and k: "key_ok k"
  shows "\<exists>h ht'. 0 \<le> h \<and> TreeTable_Extract cmp hf gk k ht0 = Some (map_option (\<lambda>x. (x, h)) (tt_map gk ht0 k), ht')
    \<and> tt_inv cmp key_ok hf gk ht' \<and> tt_map gk ht' = (tt_map gk ht0)(k := None)"
proof -
  obtain ht where ht: "TreeTable_IncrementalRehash cmp hf gk ht0 = Some ht"
    and inv: "tt_inv cmp key_ok hf gk ht" and rest: "tt_map gk ht = tt_map gk ht0"
    by (rule tt_step [OF inv0])
  note b = tt_bucket_ok [OF inv, of "home_second ht (hf k)" "hf k", OF home_second_rehashing]
  have via: "TreeTable_Extract cmp hf gk k ht0 = map_option (\<lambda>(r, ht). (r, if r = None then ht else dec_used_in ht))
      (extract_in cmp hf gk k (home_second ht (hf k)) ht)"
  proof (cases "home_second ht (hf k)")
    case True
    then have "extract_in cmp hf gk k False ht = Some (None, ht)" "InRehashing ht"
      using extract_in_other [OF inv k, of False] home_second_rehashing [of ht "hf k"] by simp_all
    with True ht show ?thesis
      by (cases "extract_in cmp hf gk k True ht") (auto simp: TreeTable_Extract_def split: option.split)
  next
    case False
    have same: "ht' = ht" if "extract_in cmp hf gk k False ht = Some (None, ht')" for ht'
      using tree_Extract [OF b(2) k, of "ht' = ht"] b(1) False that
      by (auto simp: extract_in_def Let_def set_tree_def which_table_def)
    have "extract_in cmp hf gk k True ht = Some (None, ht)" if "InRehashing ht"
      using extract_in_other [OF inv k, of True] False that by simp
    with False ht same show ?thesis
      by (cases "extract_in cmp hf gk k False ht") (auto simp: TreeTable_Extract_def split: option.split)
  qed
  show ?thesis
  proof (cases rule: tree_Extract [OF b(2) k, case_names none some])
    case none
    then have "tt_map gk ht k = None" using tt_map_home [OF inv, of k] by (auto simp: find_None_iff)
    moreover have "extract_in cmp hf gk k (home_second ht (hf k)) ht = Some (None, ht)"
      using none(1) b(1) by (simp add: extract_in_def Let_def set_tree_same)
    ultimately show ?thesis using inv rest unfolding via by (auto simp: fun_upd_idem)
  next
    case (some x h b')
    have "x \<in># mset (inorder (home_bucket ht (hf (gk x))))" using some(2,5) by simp
    then have "tt_map gk ht k = Some x"
      using tt_map_Some [OF tt_invD(2) [OF inv], of x] tt_elems_home [OF inv, of x] some(2) by simp
    moreover have "extract_in cmp hf gk k (home_second ht (hf k)) ht = Some (Some (x, h), put_home (hf k) b' ht)"
      using some(1) b(1) by (simp add: extract_in_def Let_def)
    ultimately show ?thesis using put_home_remove [OF inv some(2,4,5)] some(3) rest unfolding via by auto
  qed
qed

lemma tt_Erase:
  assumes "tt_inv cmp key_ok hf gk ht0" "key_ok k"
  shows "\<exists>ht'. TreeTable_Erase cmp hf gk k ht0 = Some (if tt_map gk ht0 k = None then 0 else 1, ht')
    \<and> tt_inv cmp key_ok hf gk ht' \<and> tt_map gk ht' = (tt_map gk ht0)(k := None)"
proof -
  obtain h ht' where "TreeTable_Extract cmp hf gk k ht0 = Some (map_option (\<lambda>x. (x, h)) (tt_map gk ht0 k), ht')"
      "tt_inv cmp key_ok hf gk ht'" "tt_map gk ht' = (tt_map gk ht0)(k := None)"
    using tt_Extract [OF assms] by blast
  then show ?thesis by (cases "tt_map gk ht0 k") (auto simp: TreeTable_Erase_def)
qed

lemma strict_sorted_remove: "strict_sorted cmp gk (xs @ x # ys) \<Longrightarrow> strict_sorted cmp gk (xs @ ys)"
  by (simp add: strict_sorted_def sorted_wrt_append)

text \<open>Erasing the node a search returned: the entry goes, the count stays.\<close>

lemma tt_EraseNode:
  assumes inv0: "tt_inv cmp key_ok hf gk ht0" and k: "key_ok k" and x: "tt_map gk ht0 k = Some x"
  shows "\<exists>loc ht ht'. TreeTable_FindNode cmp hf gk k ht0 = Some (Some loc, ht) \<and> deref_node loc ht = Some x
    \<and> TreeTable_EraseNode loc ht = Some (True, ht') \<and> tt_inv cmp key_ok hf gk ht'
    \<and> tt_map gk ht' = (tt_map gk ht0)(k := None) \<and> used (table1 ht') = used (table1 ht0)"
proof -
  obtain ht where ht: "TreeTable_FindNode cmp hf gk k ht0
      = Some (map_option (\<lambda>p. (home_second ht (hf k), home_index ht (hf k), p)) (FindNode cmp gk k (home_bucket ht (hf k))), ht)"
    and inv: "tt_inv cmp key_ok hf gk ht" and u: "used (table1 ht) = used (table1 ht0)" and m: "tt_map gk ht = tt_map gk ht0"
    by (rule tt_FindNode [OF inv0 k])
  let ?b = "home_bucket ht (hf k)"
  note b = tt_bucket_ok [OF inv, of "home_second ht (hf k)" "hf k", OF home_second_rehashing]
  have f: "Avl_Find cmp gk k ?b = Some x" using tt_map_home [OF inv, of k] tree_Find [OF b(2) k] m x by simp
  then obtain p where p: "FindNode cmp gk k ?b = Some p" "value_at p ?b = Some x"
    unfolding Avl_Find_def by (cases "FindNode cmp gk k ?b") auto
  have v: "valid_pos p ?b" using FindNode_Some [OF p(1)] by simp
  have xi: "inorder ?b ! pos_index p ?b = x" using p(2) value_at_pos [OF v] by simp
  obtain b' where b': "Avl_EraseNode (Some p) ?b = Some (True, b')" "heights_nonneg b'"
      "inorder b' = take (pos_index p ?b) (inorder ?b) @ drop (Suc (pos_index p ?b)) (inorder ?b)"
    using Avl_EraseNode_index [OF _ v] b(2) by (auto simp: tree_ok_def)
  have xs: "take (pos_index p ?b) (inorder ?b) @ x # drop (Suc (pos_index p ?b)) (inorder ?b) = inorder ?b"
    using id_take_nth_drop [OF pos_index_less [OF v]] xi by simp
  then have ms: "mset (inorder ?b) = add_mset x (mset (inorder b'))"
    unfolding b'(3) by (metis mset.simps(2) mset_append union_mset_add_mset_right)
  have xk: "gk x = k" using x keyed_map_SomeD by (fastforce simp: tt_map_def)
  have "strict_sorted cmp gk (inorder b')"
    unfolding b'(3) by (rule strict_sorted_remove [where x = x]) (use b(2) xs in \<open>simp add: tree_ok_def\<close>)
  moreover have "key_ok (gk y)" if "y \<in> set (inorder b')" for y
  proof -
    have "y \<in># mset (inorder ?b)" unfolding ms using that by simp
    then show ?thesis using b(2) by (simp add: tree_ok_def)
  qed
  ultimately have ok: "tree_ok cmp key_ok gk b'" using b'(2) by (simp add: tree_ok_def)
  let ?loc = "(home_second ht (hf k), home_index ht (hf k), p)"
  have "TreeTable_EraseNode ?loc ht = Some (True, put_home (hf k) b' ht)"
    using b(1) b'(1) by (simp add: TreeTable_EraseNode_def)
  moreover have "deref_node ?loc ht = Some x" using b(1) p(2) by (simp add: deref_node_def)
  moreover have "used (table1 (put_home (hf k) b' ht)) = used (table1 ht0)" using u by (simp add: set_tree_def)
  ultimately show ?thesis using ht p(1) put_home_remove(1,3) [OF inv xk ok ms] m by auto
qed

text \<open>Pushing a node back under a new key, as \<^verbatim>\<open>Rename\<close> does.\<close>

lemma tt_Push_new:
  assumes inv0: "tt_inv cmp key_ok hf gk ht0" and k: "key_ok (gk e)" and h: "0 \<le> hx" and new: "tt_map gk ht0 (gk e) = None"
  shows "\<exists>ht'. TreeTable_Push cmp hf gk hx e ht0 = Some (True, ht') \<and> tt_inv cmp key_ok hf gk ht'
    \<and> tt_map gk ht' = (tt_map gk ht0)(gk e \<mapsto> e)"
proof -
  let ?h = "hf (gk e)"
  obtain ht where ht: "TreeTable_IncrementalRehash cmp hf gk (TreeTable_Rehash ht0) = Some ht"
    and inv: "tt_inv cmp key_ok hf gk ht" and m: "tt_map gk ht = tt_map gk ht0"
    by (rule tt_prepare [OF inv0])
  note b = tt_bucket_ok [OF inv, of "home_second ht ?h" ?h, OF home_second_rehashing]
  have none: "tt_map gk ht (gk e) = None" using m new by simp
  then have nk: "\<And>y. y \<in> set (inorder (home_bucket ht ?h)) \<Longrightarrow> gk y \<noteq> gk e"
    using tt_map_home [OF inv, of "gk e"] by (simp add: find_None_iff)
  obtain b' inc where b': "Avl_PushWithDuplicate cmp gk False hx e (home_bucket ht ?h) = Some (True, e, b', inc)"
      "tree_ok cmp key_ok gk b'" "mset (inorder b') = add_mset e (mset (inorder (home_bucket ht ?h)))"
    using tree_Push [OF b(2) k h nk, where w = False] by blast
  have push: "push_in cmp gk (home_second ht ?h) (home_index ht ?h) hx e ht = Some (True, put_home ?h b' ht)"
    using b(1) b'(1) by (simp add: push_in_def Avl_Push_def)
  have "TreeTable_Push cmp hf gk hx e ht0 = Some (True, inc_used (put_home ?h b' ht))"
  proof (cases "rehash_idx ht")
    case (Some idx)
    have "Avl_Find cmp gk (gk e) (buckets (table2 ht) ! bucket_index (table2 ht) ?h) = None"
      if "\<not> bucket_index (table1 ht) ?h < idx"
      using not_home_Find [OF inv k, of True] that Some by (simp add: home_second_def which_table_def Avl_Find_def InRehashing_def)
    moreover have "ReservedArray_at (buckets (table2 ht)) (bucket_index (table2 ht) ?h)
        = Some (buckets (table2 ht) ! bucket_index (table2 ht) ?h)"
      using tt_bucket_ok(1) [OF inv, of True] Some by (simp add: which_table_def InRehashing_def)
    ultimately show ?thesis using ht push Some
      by (cases "bucket_index (table1 ht) ?h < idx")
        (simp_all add: TreeTable_Push_def home_second_def Let_def which_table_def set_tree_def)
  qed (use ht push in \<open>simp add: TreeTable_Push_def home_second_def Let_def which_table_def\<close>)
  with put_home_insert [OF inv none b'(2,3)] m show ?thesis by auto
qed

end

section \<open>Clearing\<close>

lemma tree_clear_loop_upt:
  "b \<le> tsize t \<Longrightarrow> a \<le> b \<Longrightarrow> tree_clear_loop [a ..< b] t out
     = Some (t\<lparr>buckets := take a (buckets t) @ replicate (b - a) Null @ drop b (buckets t)\<rparr>,
             out @ concat (map ReuseAllNodes (take (b - a) (drop a (buckets t)))))"
proof (induction "b - a" arbitrary: a t out)
  case (Suc n)
  then have ab: "a < b" and a: "a < tsize t" by simp_all
  let ?t = "set_bucket a Null t"
  have "tree_clear_loop [Suc a ..< b] ?t (out @ ReuseAllNodes (buckets t ! a))
     = Some (?t\<lparr>buckets := take (Suc a) (buckets ?t) @ replicate (b - Suc a) Null @ drop b (buckets ?t)\<rparr>,
             (out @ ReuseAllNodes (buckets t ! a)) @ concat (map ReuseAllNodes (take (b - Suc a) (drop (Suc a) (buckets ?t)))))"
    using Suc.hyps(2) Suc.prems ab by (intro Suc.hyps(1)) auto
  moreover have "take (Suc a) (buckets ?t) @ replicate (b - Suc a) Null @ drop b (buckets ?t)
      = take a (buckets t) @ replicate (b - a) Null @ drop b (buckets t)"
    using ab a Suc.hyps(2) by (simp add: take_Suc_conv_app_nth Suc_diff_Suc [symmetric])
  moreover have "take (b - a) (drop a (buckets t)) = buckets t ! a # take (b - Suc a) (drop (Suc a) (buckets ?t))"
    using ab a by (simp add: Cons_nth_drop_Suc [symmetric] Suc_diff_Suc [symmetric])
  ultimately show ?case using ab a by (simp add: upt_conv_Cons ReservedArray_at_def set_bucket_def)
qed simp

lemma Table_Shrink_simps:
  "4 \<le> tsize t \<Longrightarrow> Table_Shrink 4 t = t\<lparr>buckets := take 4 (buckets t), size_mask := 3\<rparr>"
  "buckets (Table_Shrink 0 t) = []"
  by (auto simp: Table_Shrink_def ReservedArray_Shrink_def Let_def mask_of_def)

lemma empty_trees_ok:
  assumes "buckets t = replicate 4 Null" "size_mask t = 3" "buckets t2 = []"
  shows "tt_inv cmp K hf gk \<lparr>table1 = t, table2 = t2, rehash_idx = None\<rparr>"
    "tt_elems \<lparr>table1 = t, table2 = t2, rehash_idx = None\<rparr> = []"
  using assms by (auto simp: tt_inv_def ttable_ok_def tt_rehash_ok_def tt_elems_def)

lemma TreeHashTable_new_ok:
  fixes gk :: "'a \<Rightarrow> 'k"
  shows "tt_inv cmp K hf gk TreeHashTable_new" "tt_elems (TreeHashTable_new :: 'a tree_hash_table) = []"
  unfolding TreeHashTable_new_def
  by (intro empty_trees_ok; simp add: Table_Grow_def Table_new_def ReservedArray_Grow_def mask_of_def Let_def)+

lemma tt_map_empty: "tt_elems ht = [] \<Longrightarrow> tt_map gk ht = (\<lambda>_. None)"
  by (simp add: tt_map_def keyed_map_def)

lemma tt_Clear:
  assumes inv: "tt_inv cmp K hf gk ht"
  shows "\<exists>ht'. TreeTable_Clear ht = Some ht' \<and> tt_inv cmp K hf gk ht' \<and> tt_elems ht' = [] \<and> used (table1 ht') = 0"
proof -
  let ?t2 = "if InRehashing ht then Table_Shrink 0 (table2 ht) else table2 ht"
  let ?t1 = "(table1 ht)\<lparr>buckets := replicate 4 Null, size_mask := 3, used := 0\<rparr>"
  have "4 \<le> tsize (table1 ht)" using tt_invD(10) [OF inv] .
  then have "TreeTable_Clear ht = Some \<lparr>table1 = ?t1, table2 = ?t2, rehash_idx = None\<rparr>"
    by (simp add: TreeTable_Clear_def Table_Shrink_simps(1) tree_clear_loop_upt)
  moreover have "buckets ?t2 = []"
    using Table_Shrink_simps(2) tt_invD(4) [OF inv] by (auto simp: InRehashing_def)
  ultimately show ?thesis using empty_trees_ok(1) [of ?t1 ?t2 cmp K hf gk] empty_trees_ok(2) [of ?t1 ?t2] by simp
qed

lemma mset_ReuseAllNodes: "mset (concat (map ReuseAllNodes bs)) = mset (concat (map inorder bs))"
  by (induction bs) (auto simp: ReuseAllNodes_postorder mset_postorder)

lemma tt_ClearApply:
  assumes inv: "tt_inv cmp K hf gk ht"
  shows "\<exists>out ht'. TreeTable_ClearApply ht = Some (out, ht') \<and> mset out = mset (tt_elems ht)
    \<and> tt_inv cmp K hf gk ht' \<and> tt_elems ht' = [] \<and> used (table1 ht') = 0"
proof -
  let ?bs = "buckets (table1 ht)"
  let ?o1 = "concat (map ReuseAllNodes (drop 4 ?bs))" and ?o2 = "concat (map ReuseAllNodes (take 4 ?bs))"
  let ?o3 = "concat (map ReuseAllNodes (buckets (table2 ht)))"
  let ?t1 = "(table1 ht)\<lparr>buckets := replicate 4 Null, size_mask := 3, used := 0\<rparr>"
  have 4: "4 \<le> length ?bs" using tt_invD(10) [OF inv] .
  have l1: "tree_clear_loop [4 ..< length ?bs] (table1 ht) []
      = Some ((table1 ht)\<lparr>buckets := take 4 ?bs @ replicate (length ?bs - 4) Null\<rparr>, ?o1)"
    using tree_clear_loop_upt [of "length ?bs" "table1 ht" 4 "[]"] 4 by simp
  obtain t2 where t2: "(if InRehashing ht
        then do { (t2, out) \<leftarrow> tree_clear_loop [0 ..< tsize (table2 ht)] (table2 ht) (?o1 @ ?o2); Some (Table_Shrink 0 t2, out) }
        else Some (table2 ht, ?o1 @ ?o2)) = Some (t2, ?o1 @ ?o2 @ ?o3)" "buckets t2 = []"
  proof (cases "InRehashing ht")
    case True
    then show thesis using that [of "Table_Shrink 0 ((table2 ht)\<lparr>buckets := replicate (tsize (table2 ht)) Null\<rparr>)"]
      by (simp add: tree_clear_loop_upt Table_Shrink_simps(2))
  next
    case False
    then show thesis using that [of "table2 ht"] tt_invD(4) [OF inv] by (auto simp: InRehashing_def)
  qed
  have "TreeTable_ClearApply ht = Some (?o1 @ ?o2 @ ?o3, \<lparr>table1 = ?t1, table2 = t2, rehash_idx = None\<rparr>)"
    using l1 t2(1) 4 by (simp add: TreeTable_ClearApply_def Table_Shrink_simps(1) tree_clear_loop_upt)
  moreover have "mset (?o1 @ ?o2) = mset (concat (map inorder (take 4 ?bs @ drop 4 ?bs)))"
    unfolding mset_append mset_ReuseAllNodes map_append concat_append by (simp add: union_commute)
  then have "mset (?o1 @ ?o2 @ ?o3) = mset (tt_elems ht)"
    unfolding append_take_drop_id by (simp add: tt_elems_def mset_ReuseAllNodes)
  ultimately show ?thesis using empty_trees_ok(1) [of ?t1 t2 cmp K hf gk] empty_trees_ok(2) [of ?t1 t2] t2(2) by simp
qed

section \<open>Properties\<close>

interpretation str_key: key_comparator strcmp nul_free
  by unfold_locales (metis strcmp_eq nul_free_cstr)

interpretation tt: dictionary_spec gk nul_free "tt_inv strcmp nul_free hf gk" "tt_map gk" "TreeTable_Find strcmp hf gk"
    "TreeTable_InsertWithDuplicate strcmp hf gk" "TreeTable_Erase strcmp hf gk"
  for hf :: "string \<Rightarrow> nat" and gk :: "'e \<Rightarrow> string"
proof unfold_locales
  show "\<exists>s'. TreeTable_Find strcmp hf gk k s = Some (tt_map gk s k, s') \<and> tt_inv strcmp nul_free hf gk s'
      \<and> tt_map gk s' = tt_map gk s" if "tt_inv strcmp nul_free hf gk s" "nul_free k" for s k
    using str_key.tt_Find [OF that] by blast
  show "\<exists>s'. TreeTable_InsertWithDuplicate strcmp hf gk e s = Some (True, e, s') \<and> tt_inv strcmp nul_free hf gk s'
      \<and> tt_map gk s' = (tt_map gk s)(gk e \<mapsto> e)"
    if "tt_inv strcmp nul_free hf gk s" "nul_free (gk e)" "tt_map gk s (gk e) = None" for s e
    using str_key.tt_Insert [OF that(1,2)] that(3) by simp
  show "\<exists>s'. TreeTable_InsertWithDuplicate strcmp hf gk e s = Some (False, d, s') \<and> tt_inv strcmp nul_free hf gk s'
      \<and> tt_map gk s' = tt_map gk s"
    if "tt_inv strcmp nul_free hf gk s" "nul_free (gk e)" "tt_map gk s (gk e) = Some d" for s e d
    using str_key.tt_Insert [OF that(1,2)] that(3) by simp
  show "\<exists>s'. TreeTable_Erase strcmp hf gk k s = Some (if tt_map gk s k = None then 0 else 1, s')
      \<and> tt_inv strcmp nul_free hf gk s' \<and> tt_map gk s' = (tt_map gk s)(k := None)"
    if "tt_inv strcmp nul_free hf gk s" "nul_free k" for s k
    using str_key.tt_Erase [OF that] .
qed

text \<open>
  C27. The database's dictionary implements a finite map. On a well-formed tree table with string keys, any
  sequence of lookups, insertions and erasures whose keys contain no NUL byte returns, whatever the hash
  function and however far a rehash has progressed; its answers and the final contents are those of the
  same sequence on a map.
\<close>

theorem tree_table_implements_map:
  assumes "tt_inv strcmp nul_free hf gk ht" "list_all (op_ok nul_free gk) ops"
  shows "\<exists>ht'. run_dict (TreeTable_Find strcmp hf gk) (TreeTable_InsertWithDuplicate strcmp hf gk) (TreeTable_Erase strcmp hf gk) ops ht
      = Some (fst (spec_dict gk ops (tt_map gk ht)), ht')
    \<and> tt_inv strcmp nul_free hf gk ht' \<and> tt_map gk ht' = snd (spec_dict gk ops (tt_map gk ht))"
  using tt.run_dict_spec [OF assms(1), of ops] assms(2) by (simp add: list_all_iff)

theorem tree_table_implements_map_witness:
  "\<exists>ht'. run_dict (TreeTable_Find strcmp length fst) (TreeTable_InsertWithDuplicate strcmp length fst) (TreeTable_Erase strcmp length fst)
       [OpInsert (''a'', 1 :: nat), OpInsert (''b'', 2), OpFind ''a'', OpErase ''b'', OpFind ''b''] TreeHashTable_new
     = Some ([Inserted True (''a'', 1), Inserted True (''b'', 2), Found (Some (''a'', 1)), Erased True, Found None], ht')"
proof -
  have "tt_map fst (TreeHashTable_new :: (string \<times> nat) tree_hash_table) = (\<lambda>_. None)"
    by (rule tt_map_empty [OF TreeHashTable_new_ok(2)])
  with tree_table_implements_map [OF TreeHashTable_new_ok(1), where hf = length and gk = fst
      and ops = "[OpInsert (''a'', 1 :: nat), OpInsert (''b'', 2), OpFind ''a'', OpErase ''b'', OpFind ''b'']"]
  show ?thesis by (auto simp del: run_dict.simps)
qed

text \<open>
  A node found by \<^verbatim>\<open>FindNode\<close> and erased with \<^verbatim>\<open>EraseNode\<close> takes its entry out of the dictionary and keeps the
  invariant, but the table's element count is not decreased, so \<^verbatim>\<open>size()\<close> keeps counting it.
\<close>

theorem tree_table_erase_node:
  assumes "tt_inv strcmp nul_free hf gk ht" "nul_free k" "tt_map gk ht k = Some x"
  shows "\<exists>loc h ht'. TreeTable_FindNode strcmp hf gk k ht = Some (Some loc, h) \<and> deref_node loc h = Some x
    \<and> TreeTable_EraseNode loc h = Some (True, ht') \<and> tt_inv strcmp nul_free hf gk ht'
    \<and> tt_map gk ht' = (tt_map gk ht)(k := None) \<and> used (table1 ht') = used (table1 ht)"
  using str_key.tt_EraseNode [OF assms] .

theorem tree_table_erase_node_witness:
  "\<exists>ht' ht'' loc h. TreeTable_InsertWithDuplicate strcmp length fst (''a'', 1 :: nat) TreeHashTable_new = Some (True, (''a'', 1), ht')
     \<and> TreeTable_FindNode strcmp length fst ''a'' ht' = Some (Some loc, h)
     \<and> TreeTable_EraseNode loc h = Some (True, ht'') \<and> used (table1 ht'') = used (table1 ht') \<and> tt_map fst ht'' ''a'' = None"
proof -
  let ?n = "TreeHashTable_new :: (string \<times> nat) tree_hash_table"
  have n: "tt_map fst ?n = (\<lambda>_. None)" by (rule tt_map_empty [OF TreeHashTable_new_ok(2)])
  obtain ht' where h: "TreeTable_InsertWithDuplicate strcmp length fst (''a'', 1 :: nat) ?n = Some (True, (''a'', 1), ht')"
      "tt_inv strcmp nul_free length fst ht'" "tt_map fst ht' = [''a'' \<mapsto> (''a'', 1)]"
    using tt.ins_new [OF TreeHashTable_new_ok(1), where e = "(''a'', 1 :: nat)" and hf = length and gk = fst] n by auto
  from tree_table_erase_node [OF h(2), of "''a''" "(''a'', 1)"] h(1,3) show ?thesis by auto
qed

text \<open>
  \<^verbatim>\<open>ClearApply\<close> and \<^verbatim>\<open>Clear\<close> return on every well-formed table. \<^verbatim>\<open>ClearApply\<close> hands each stored value to the
  callback exactly once, both tables' buckets included; both leave an empty well-formed table of four
  buckets with count zero.
\<close>

theorem tree_table_clear_correct:
  assumes "tt_inv cmp K hf gk ht"
  shows "(case TreeTable_ClearApply ht of None \<Rightarrow> False | Some (out, ht') \<Rightarrow> mset out = mset (tt_elems ht)
      \<and> tt_inv cmp K hf gk ht' \<and> tt_elems ht' = [] \<and> used (table1 ht') = 0)
    \<and> (case TreeTable_Clear ht of None \<Rightarrow> False | Some ht' \<Rightarrow> tt_inv cmp K hf gk ht' \<and> tt_elems ht' = [] \<and> used (table1 ht') = 0)"
  using tt_ClearApply [OF assms] tt_Clear [OF assms] by auto

theorem tree_table_clear_correct_witness:
  "\<exists>ht' ht'' out. TreeTable_InsertWithDuplicate strcmp length fst (''a'', 1 :: nat) TreeHashTable_new = Some (True, (''a'', 1), ht')
     \<and> TreeTable_ClearApply ht' = Some (out, ht'') \<and> mset out = mset (tt_elems ht') \<and> tt_elems ht'' = []"
proof -
  let ?n = "TreeHashTable_new :: (string \<times> nat) tree_hash_table"
  have n: "tt_map fst ?n = (\<lambda>_. None)" by (rule tt_map_empty [OF TreeHashTable_new_ok(2)])
  obtain ht' where h: "TreeTable_InsertWithDuplicate strcmp length fst (''a'', 1 :: nat) ?n = Some (True, (''a'', 1), ht')"
      "tt_inv strcmp nul_free length fst ht'"
    using tt.ins_new [OF TreeHashTable_new_ok(1), where e = "(''a'', 1 :: nat)" and hf = length and gk = fst] n by auto
  from tree_table_clear_correct [OF h(2)] h(1) show ?thesis by (auto split: option.splits)
qed

end
