(* ===== verification/HashIter.thy ===== *)
theory HashIter
  imports TreeHashTable
begin

text \<open>
  The forward iterators of the two hash tables (\<^verbatim>\<open>algo/internal/hash_table_iterator.h\<close> and
  \<^verbatim>\<open>tree_hash_table_iterator.h\<close>), which share their code up to the way a bucket is walked: a list from its
  front node along \<^verbatim>\<open>next\<close>, a tree from \<^verbatim>\<open>FirstNode\<close> along \<^verbatim>\<open>_GetNextNode\<close>. The locale states what the
  iterator needs of a bucket; it is interpreted for both bucket kinds. Shown: a range-for loop over a table
  visits the elements of the first table, then those of the second, each exactly once, and ends.
\<close>

text \<open>
  An iterator: table and bucket index (\<^verbatim>\<open>bucket_index_ = -1\<close> is \<open>None\<close>, so that \<^verbatim>\<open>+ 1\<close> gives 0) and the
  position of the slot in its bucket, \<open>None\<close> for the null slot of \<^verbatim>\<open>end()\<close>.
\<close>

record 'p ht_iter =
  table_index :: nat
  bucket_idx :: "nat option"
  slot :: "'p option"

text \<open>The inner loops: the first bucket from \<open>j\<close> on that is not empty.\<close>

function scan_buckets :: "('b \<Rightarrow> 'p option) \<Rightarrow> 'b list \<Rightarrow> nat \<Rightarrow> (nat \<times> 'p) option" where
  "scan_buckets bfirst bs j =
     (if j < length bs
      then (case bfirst (bs ! j) of Some p \<Rightarrow> Some (j, p) | None \<Rightarrow> scan_buckets bfirst bs (j + 1))
      else None)"
  by pat_completeness auto
termination by (relation "measure (\<lambda>(_, bs, j). length bs - j)") auto

declare scan_buckets.simps [simp del]

definition nth_table :: "nat \<Rightarrow> 'b ghash_table \<Rightarrow> 'b gtable" where
  "nth_table i ht = (if i = 0 then table1 ht else table2 ht)"

text \<open>The constructor's loop over the tables \<open>is\<close>.\<close>

fun Iter_find :: "('b \<Rightarrow> 'p option) \<Rightarrow> 'b ghash_table \<Rightarrow> nat list \<Rightarrow> 'p ht_iter \<Rightarrow> 'p ht_iter" where
  "Iter_find bfirst ht [] it = it"
| "Iter_find bfirst ht (i # is) it =
     (case scan_buckets bfirst (buckets (nth_table i ht)) (case bucket_idx it of None \<Rightarrow> 0 | Some j \<Rightarrow> j) of
        Some (j, p) \<Rightarrow> \<lparr>table_index = i, bucket_idx = Some j, slot = Some p\<rparr>
      | None \<Rightarrow> Iter_find bfirst ht is it)"

definition Iter_begin :: "('b \<Rightarrow> 'p option) \<Rightarrow> 'b ghash_table \<Rightarrow> 'p ht_iter" where
  "Iter_begin bfirst ht = Iter_find bfirst ht [0, 1] \<lparr>table_index = 0, bucket_idx = Some 0, slot = None\<rparr>"

text \<open>The loop of \<^verbatim>\<open>Increment\<close>: the table scanned is the one \<^verbatim>\<open>table_index_\<close> names, from the bucket after \<^verbatim>\<open>bucket_index_\<close>.\<close>

fun Increment_loop :: "('b \<Rightarrow> 'p option) \<Rightarrow> 'b ghash_table \<Rightarrow> nat list \<Rightarrow> 'p ht_iter \<Rightarrow> 'p ht_iter" where
  "Increment_loop bfirst ht [] it = it"
| "Increment_loop bfirst ht (i # is) it =
     (case scan_buckets bfirst (buckets (nth_table (table_index it) ht)) (case bucket_idx it of None \<Rightarrow> 0 | Some j \<Rightarrow> j + 1) of
        Some (j, p) \<Rightarrow> it\<lparr>bucket_idx := Some j, table_index := i, slot := Some p\<rparr>
      | None \<Rightarrow> Increment_loop bfirst ht is (it\<lparr>slot := None, bucket_idx := None, table_index := 1\<rparr>))"

text \<open>\<^verbatim>\<open>Increment\<close>; \<open>None\<close> when the iterator is at the end or its slot is not in the table.\<close>

definition Iter_Increment :: "('b \<Rightarrow> 'p option) \<Rightarrow> ('b \<Rightarrow> 'p \<Rightarrow> 'p option) \<Rightarrow> 'b ghash_table \<Rightarrow> 'p ht_iter \<Rightarrow> 'p ht_iter option" where
  "Iter_Increment bfirst bnext ht it =
     do { p \<leftarrow> slot it; j \<leftarrow> bucket_idx it;
          b \<leftarrow> ReservedArray_at (buckets (nth_table (table_index it) ht)) j;
          Some (case bnext b p of
                  Some p' \<Rightarrow> it\<lparr>slot := Some p'\<rparr>
                | None \<Rightarrow> Increment_loop bfirst ht [table_index it ..< 2] it) }"

definition Iter_deref :: "('b \<Rightarrow> 'p \<Rightarrow> 'a option) \<Rightarrow> 'b ghash_table \<Rightarrow> 'p ht_iter \<Rightarrow> 'a option" where
  "Iter_deref bget ht it =
     do { p \<leftarrow> slot it; j \<leftarrow> bucket_idx it; b \<leftarrow> ReservedArray_at (buckets (nth_table (table_index it) ht)) j; bget b p }"

text \<open>
  A range-for loop that collects the values, with fuel for its rounds. The fuel of \<open>range_for\<close>, one round per
  element and one to see the end, is always enough.
\<close>

fun Iter_loop :: "('b \<Rightarrow> 'p option) \<Rightarrow> ('b \<Rightarrow> 'p \<Rightarrow> 'p option) \<Rightarrow> ('b \<Rightarrow> 'p \<Rightarrow> 'a option) \<Rightarrow> nat \<Rightarrow> 'b ghash_table
    \<Rightarrow> 'p ht_iter \<Rightarrow> 'a list option" where
  "Iter_loop bfirst bnext bget 0 ht it = None"
| "Iter_loop bfirst bnext bget (Suc n) ht it =
     (if slot it = None then Some []
      else do { x \<leftarrow> Iter_deref bget ht it; it' \<leftarrow> Iter_Increment bfirst bnext ht it;
                xs \<leftarrow> Iter_loop bfirst bnext bget n ht it'; Some (x # xs) })"

text \<open>The two kinds of buckets. A position in a list bucket is the index of its node.\<close>

definition Slist_FrontNode :: "'a list \<Rightarrow> nat option" where
  "Slist_FrontNode b = (if b = [] then None else Some 0)"

definition Slist_next :: "'a list \<Rightarrow> nat \<Rightarrow> nat option" where
  "Slist_next b p = (if Suc p < length b then Some (Suc p) else None)"

definition Slist_get :: "'a list \<Rightarrow> nat \<Rightarrow> 'a option" where
  "Slist_get b p = (if p < length b then Some (b ! p) else None)"

definition range_for_list :: "'a hash_table \<Rightarrow> 'a list option" where
  "range_for_list ht = Iter_loop Slist_FrontNode Slist_next Slist_get
     (Suc (length (concat (buckets (table1 ht))) + length (concat (buckets (table2 ht))))) ht (Iter_begin Slist_FrontNode ht)"

definition range_for_tree :: "'a tree_hash_table \<Rightarrow> 'a list option" where
  "range_for_tree ht = Iter_loop GetFirstNode GetNextNode (\<lambda>b p. value_at p b)
     (Suc (length (tt_elems ht))) ht (Iter_begin GetFirstNode ht)"

section \<open>Walking a bucket\<close>

definition rest_from :: "('b \<Rightarrow> 'a list) \<Rightarrow> 'b list \<Rightarrow> nat \<Rightarrow> 'a list" where
  "rest_from elems bs j = concat (map elems (drop j bs))"

lemma rest_from_Cons: "j < length bs \<Longrightarrow> rest_from elems bs j = elems (bs ! j) @ rest_from elems bs (Suc j)"
  by (simp add: rest_from_def Cons_nth_drop_Suc [symmetric])

text \<open>What an iterator still has to visit, and when its slot is in the table.\<close>

definition iter_rest :: "('b \<Rightarrow> 'a list) \<Rightarrow> ('p \<Rightarrow> 'b \<Rightarrow> nat) \<Rightarrow> 'b ghash_table \<Rightarrow> 'p ht_iter \<Rightarrow> 'a list" where
  "iter_rest elems idx ht it = (case (slot it, bucket_idx it) of
      (Some p, Some j) \<Rightarrow> (let bs = buckets (nth_table (table_index it) ht) in
         drop (idx p (bs ! j)) (elems (bs ! j)) @ rest_from elems bs (Suc j)
         @ (if table_index it = 0 then rest_from elems (buckets (table2 ht)) 0 else []))
    | _ \<Rightarrow> [])"

definition iter_ok :: "('p \<Rightarrow> 'b \<Rightarrow> bool) \<Rightarrow> 'b ghash_table \<Rightarrow> 'p ht_iter \<Rightarrow> bool" where
  "iter_ok valid ht it = (case slot it of None \<Rightarrow> True
    | Some p \<Rightarrow> table_index it < 2 \<and> (case bucket_idx it of None \<Rightarrow> False
        | Some j \<Rightarrow> j < length (buckets (nth_table (table_index it) ht)) \<and> valid p (buckets (nth_table (table_index it) ht) ! j)))"

locale bucket_cursor =
  fixes bfirst :: "'b \<Rightarrow> 'p option"
    and bnext :: "'b \<Rightarrow> 'p \<Rightarrow> 'p option"
    and bget :: "'b \<Rightarrow> 'p \<Rightarrow> 'a option"
    and elems :: "'b \<Rightarrow> 'a list"
    and valid :: "'p \<Rightarrow> 'b \<Rightarrow> bool"
    and idx :: "'p \<Rightarrow> 'b \<Rightarrow> nat"
  assumes first_law: "case bfirst b of None \<Rightarrow> elems b = [] | Some p \<Rightarrow> valid p b \<and> idx p b = 0"
    and next_law: "valid p b \<Longrightarrow> case bnext b p of None \<Rightarrow> Suc (idx p b) = length (elems b)
      | Some q \<Rightarrow> valid q b \<and> idx q b = Suc (idx p b)"
    and get_law: "valid p b \<Longrightarrow> bget b p = Some (elems b ! idx p b) \<and> idx p b < length (elems b)"
begin

lemma scan_ok:
  "case scan_buckets bfirst bs j of None \<Rightarrow> rest_from elems bs j = []
   | Some (k, p) \<Rightarrow> k < length bs \<and> valid p (bs ! k) \<and> idx p (bs ! k) = 0
       \<and> rest_from elems bs j = elems (bs ! k) @ rest_from elems bs (Suc k)"
proof (induction "length bs - j" arbitrary: j)
  case 0
  then show ?case by (simp add: scan_buckets.simps rest_from_def)
next
  case (Suc n)
  then have j: "j < length bs" and IH: "n = length bs - Suc j" by simp_all
  show ?case
  proof (cases "bfirst (bs ! j)")
    case None
    then have r: "rest_from elems bs j = rest_from elems bs (Suc j)"
      using first_law [of "bs ! j"] rest_from_Cons [OF j, of elems] by simp
    show ?thesis using Suc.hyps(1) [OF IH] None j unfolding r by (simp add: scan_buckets.simps [of bfirst bs j])
  next
    case (Some p)
    then show ?thesis using first_law [of "bs ! j"] j
      by (simp add: scan_buckets.simps [of bfirst bs j] rest_from_Cons)
  qed
qed

lemma Iter_begin_ok:
  "iter_ok valid ht (Iter_begin bfirst ht)
   \<and> iter_rest elems idx ht (Iter_begin bfirst ht) = rest_from elems (buckets (table1 ht)) 0 @ rest_from elems (buckets (table2 ht)) 0"
  using scan_ok [of "buckets (table1 ht)" 0] scan_ok [of "buckets (table2 ht)" 0]
  by (auto simp: Iter_begin_def iter_ok_def iter_rest_def nth_table_def Let_def split: option.splits)

lemma Iter_Increment_ok:
  assumes ok: "iter_ok valid ht it" and s: "slot it \<noteq> None"
  shows "\<exists>x it'. Iter_deref bget ht it = Some x \<and> Iter_Increment bfirst bnext ht it = Some it' \<and> iter_ok valid ht it'
    \<and> iter_rest elems idx ht it = x # iter_rest elems idx ht it'"
proof -
  obtain p j where p: "slot it = Some p" "bucket_idx it = Some j" "table_index it < 2"
      "j < length (buckets (nth_table (table_index it) ht))" "valid p (buckets (nth_table (table_index it) ht) ! j)"
    using ok s by (auto simp: iter_ok_def split: option.splits)
  let ?bs = "buckets (nth_table (table_index it) ht)"
  let ?b = "?bs ! j"
  have g: "bget ?b p = Some (elems ?b ! idx p ?b)" "idx p ?b < length (elems ?b)" using get_law [OF p(5)] by auto
  have d: "Iter_deref bget ht it = Some (elems ?b ! idx p ?b)" using p g by (simp add: Iter_deref_def ReservedArray_at_def)
  have dr: "drop (idx p ?b) (elems ?b) = elems ?b ! idx p ?b # drop (Suc (idx p ?b)) (elems ?b)"
    using g(2) by (simp add: Cons_nth_drop_Suc)
  show ?thesis
  proof (cases "bnext ?b p")
    case (Some q)
    with next_law [OF p(5)] p d dr show ?thesis
      by (auto simp: Iter_Increment_def ReservedArray_at_def iter_ok_def iter_rest_def Let_def)
  next
    case None
    with next_law [OF p(5)] have e: "drop (Suc (idx p ?b)) (elems ?b) = []" by simp
    have inc: "Iter_Increment bfirst bnext ht it = Some (Increment_loop bfirst ht [table_index it ..< 2] it)"
      using None p by (simp add: Iter_Increment_def ReservedArray_at_def)
    have "table_index it = 0 \<or> table_index it = 1" using p(3) by linarith
    then have "iter_ok valid ht (Increment_loop bfirst ht [table_index it ..< 2] it)
        \<and> iter_rest elems idx ht (Increment_loop bfirst ht [table_index it ..< 2] it)
          = rest_from elems ?bs (Suc j) @ (if table_index it = 0 then rest_from elems (buckets (table2 ht)) 0 else [])"
      using scan_ok [of ?bs "Suc j"] scan_ok [of "buckets (table2 ht)" 0] p(2)
      by (auto simp: upt_rec iter_ok_def iter_rest_def nth_table_def Let_def split: option.splits)
    with inc d dr e p show ?thesis by (auto simp: iter_rest_def Let_def)
  qed
qed

lemma Iter_loop_ok:
  "iter_ok valid ht it \<Longrightarrow> length (iter_rest elems idx ht it) < n \<Longrightarrow>
   Iter_loop bfirst bnext bget n ht it = Some (iter_rest elems idx ht it)"
proof (induction n arbitrary: it)
  case (Suc n)
  show ?case
  proof (cases "slot it")
    case (Some p)
    then obtain x it' where "Iter_deref bget ht it = Some x" "Iter_Increment bfirst bnext ht it = Some it'"
        "iter_ok valid ht it'" "iter_rest elems idx ht it = x # iter_rest elems idx ht it'"
      using Iter_Increment_ok [OF Suc.prems(1)] by auto
    with Suc.IH [of it'] Suc.prems(2) Some show ?thesis by simp
  qed (simp add: iter_rest_def)
qed simp

lemma Iter_all:
  assumes "n = length (concat (map elems (buckets (table1 ht)))) + length (concat (map elems (buckets (table2 ht))))"
  shows "Iter_loop bfirst bnext bget (Suc n) ht (Iter_begin bfirst ht)
    = Some (concat (map elems (buckets (table1 ht))) @ concat (map elems (buckets (table2 ht))))"
  using Iter_loop_ok [OF Iter_begin_ok [THEN conjunct1, of ht], of "Suc n"] Iter_begin_ok [THEN conjunct2, of ht] assms
  by (simp add: rest_from_def)

end

interpretation list_cursor: bucket_cursor Slist_FrontNode Slist_next Slist_get "\<lambda>b. b" "\<lambda>p b. p < length b" "\<lambda>p b. p"
  by unfold_locales (auto simp: Slist_FrontNode_def Slist_next_def Slist_get_def)

interpretation tree_cursor: bucket_cursor GetFirstNode GetNextNode "\<lambda>b p. value_at p b" inorder valid_pos pos_index
proof unfold_locales
  show "case GetFirstNode b of None \<Rightarrow> inorder b = [] | Some p \<Rightarrow> valid_pos p b \<and> pos_index p b = 0" for b :: "'a avl_node"
    using leftmost_pos [of b] by (auto simp: GetFirstNode_def is_Null_inorder)
qed (use GetNextNode_step value_at_pos pos_index_less in auto)

text \<open>
  C31. A range-for loop over either hash table ends and visits every element exactly once: those of the first
  table bucket by bucket, then those of the second; during a rehash as well.
\<close>

theorem range_for_visits_all:
  "range_for_list ht = Some (concat (buckets (table1 ht)) @ concat (buckets (table2 ht)))
   \<and> range_for_tree tht = Some (tt_elems tht)"
  using list_cursor.Iter_all [of _ ht] tree_cursor.Iter_all [of _ tht]
  by (simp add: range_for_list_def range_for_tree_def tt_elems_def)

end
