(* ===== verification/HashSet.thy ===== *)
theory HashSet
  imports HashIter
begin

text \<open>
  The set operations of \<^verbatim>\<open>algo/internal/hash_set_impl.h\<close> on hash tables whose values are their own keys. Each
  operation iterates one set and searches the other; a search moves the node it finds to the front of its
  bucket and advances a rehash, so both sets are returned. The values handed to the callback are collected
  in order. When both arguments are the same object the loop runs over a table that its own searches
  reorder; that case is modelled apart.

  Shown: union, intersection and difference of two set objects; \<^verbatim>\<open>EraseRandom\<close> removes one member and leaves
  the count; the intersection of a set with itself never returns when two members share a bucket.
\<close>

section \<open>Operations\<close>

abbreviation set_size :: "'a hash_table \<Rightarrow> nat" where
  "set_size s \<equiv> used (table1 s)"

text \<open>The loops \<^verbatim>\<open>for (m : less) if (more->Find(m) == want) cb(m)\<close>.\<close>

fun member_loop :: "('a \<Rightarrow> nat) \<Rightarrow> bool \<Rightarrow> 'a list \<Rightarrow> 'a hash_table \<Rightarrow> ('a list \<times> 'a hash_table) option" where
  "member_loop hf want [] s = Some ([], s)"
| "member_loop hf want (m # ms) s =
     do { (r, s) \<leftarrow> HashTable_Find hf id m s;
          (out, s) \<leftarrow> member_loop hf want ms s;
          Some (if (r \<noteq> None) = want then m # out else out, s) }"

definition HashSet_Union :: "('a \<Rightarrow> nat) \<Rightarrow> 'a hash_table \<Rightarrow> 'a hash_table \<Rightarrow> ('a list \<times> 'a hash_table \<times> 'a hash_table) option" where
  "HashSet_Union hf self hs =
     (if set_size self < set_size hs
      then do { ms \<leftarrow> range_for_list hs; ls \<leftarrow> range_for_list self;
                (out, hs) \<leftarrow> member_loop hf False ls hs; Some (ms @ out, self, hs) }
      else do { ms \<leftarrow> range_for_list self; ls \<leftarrow> range_for_list hs;
                (out, self) \<leftarrow> member_loop hf False ls self; Some (ms @ out, self, hs) })"

definition HashSet_Intersection :: "('a \<Rightarrow> nat) \<Rightarrow> 'a hash_table \<Rightarrow> 'a hash_table \<Rightarrow> ('a list \<times> 'a hash_table \<times> 'a hash_table) option" where
  "HashSet_Intersection hf self hs =
     (if set_size self < set_size hs
      then do { ls \<leftarrow> range_for_list self; (out, hs) \<leftarrow> member_loop hf True ls hs; Some (out, self, hs) }
      else do { ls \<leftarrow> range_for_list hs; (out, self) \<leftarrow> member_loop hf True ls self; Some (out, self, hs) })"

definition HashSet_Difference :: "('a \<Rightarrow> nat) \<Rightarrow> 'a hash_table \<Rightarrow> 'a hash_table \<Rightarrow> ('a list \<times> 'a hash_table \<times> 'a hash_table) option" where
  "HashSet_Difference hf self hs =
     do { ls \<leftarrow> range_for_list self; (out, hs) \<leftarrow> member_loop hf False ls hs; Some (out, self, hs) }"

text \<open>
  The same loop when the set searched is the set iterated. The iterator's slot is a node; members are
  distinct, so the node is named by its member and \<^verbatim>\<open>slot_->next\<close> is the member after it in whatever bucket
  now holds it. The loop may not end.
\<close>

fun next_in :: "'a \<Rightarrow> 'a list \<Rightarrow> 'a option" where
  "next_in m (x # y # xs) = (if x = m then Some y else next_in m (y # xs))"
| "next_in m _ = None"

definition slot_next :: "'a \<Rightarrow> 'a hash_table \<Rightarrow> 'a option" where
  "slot_next m s = (case List.find (\<lambda>b. m \<in> set b) (buckets (table1 s) @ buckets (table2 s)) of
      None \<Rightarrow> None | Some b \<Rightarrow> next_in m b)"

fun list_head :: "'a list \<Rightarrow> 'a option" where
  "list_head [] = None"
| "list_head (x # _) = Some x"

partial_function (option) self_loop :: "('a \<Rightarrow> nat) \<Rightarrow> bool \<Rightarrow> 'a hash_table \<Rightarrow> 'a ht_iter \<Rightarrow> ('a list \<times> 'a hash_table) option" where
  "self_loop hf want s it = (case slot it of
      None \<Rightarrow> Some ([], s)
    | Some m \<Rightarrow>
        do { (r, s) \<leftarrow> HashTable_Find hf id m s;
             (out, s) \<leftarrow> self_loop hf want s (case slot_next m s of
                Some m' \<Rightarrow> it\<lparr>slot := Some m'\<rparr>
              | None \<Rightarrow> Increment_loop list_head s [table_index it ..< 2] it);
             Some (if (r \<noteq> None) = want then m # out else out, s) })"

definition HashSet_Intersection_self :: "('a \<Rightarrow> nat) \<Rightarrow> 'a hash_table \<Rightarrow> ('a list \<times> 'a hash_table) option" where
  "HashSet_Intersection_self hf s = self_loop hf True s (Iter_begin list_head s)"

definition HashSet_Difference_self :: "('a \<Rightarrow> nat) \<Rightarrow> 'a hash_table \<Rightarrow> ('a list \<times> 'a hash_table) option" where
  "HashSet_Difference_self hf s = self_loop hf False s (Iter_begin list_head s)"

definition HashSet_Union_self :: "('a \<Rightarrow> nat) \<Rightarrow> 'a hash_table \<Rightarrow> ('a list \<times> 'a hash_table) option" where
  "HashSet_Union_self hf s =
     do { ms \<leftarrow> range_for_list s; (out, s) \<leftarrow> self_loop hf False s (Iter_begin list_head s); Some (ms @ out, s) }"

text \<open>\<^verbatim>\<open>EraseRandom\<close>: the front of the first bucket that is not empty, from the rehash index on.\<close>

definition pop_front_at :: "nat \<Rightarrow> 'a table \<Rightarrow> 'a table" where
  "pop_front_at j t = set_bucket j (tl (buckets t ! j)) t"

definition HashSet_EraseRandom :: "('a \<Rightarrow> nat) \<Rightarrow> 'a hash_table \<Rightarrow> (nat \<times> 'a hash_table) option" where
  "HashSet_EraseRandom hf s0 =
     do { s \<leftarrow> IncrementalRehash hf id s0;
          let start = (case rehash_idx s of Some i \<Rightarrow> i | None \<Rightarrow> 0);
          Some (case scan_buckets Slist_FrontNode (buckets (table1 s)) start of
                  Some (j, _) \<Rightarrow> (1, s\<lparr>table1 := pop_front_at j (table1 s)\<rparr>)
                | None \<Rightarrow>
                    if InRehashing s
                    then (case scan_buckets Slist_FrontNode (buckets (table2 s)) 0 of
                            Some (j, _) \<Rightarrow> (1, s\<lparr>table2 := pop_front_at j (table2 s)\<rparr>)
                          | None \<Rightarrow> (0, s))
                    else (0, s)) }"

section \<open>Union, intersection and difference\<close>

abbreviation hs_inv :: "('a \<Rightarrow> nat) \<Rightarrow> 'a hash_table \<Rightarrow> bool" where
  "hs_inv hf \<equiv> ht_inv hf id"

abbreviation members :: "'a hash_table \<Rightarrow> 'a set" where
  "members s \<equiv> set (ht_elems s)"

lemma ht_map_members: "hs_inv hf s \<Longrightarrow> ht_map id s m = (if m \<in> members s then Some m else None)"
  using ht_map_Some [of id s m] ht_map_None [of s id m] ht_invD(2) [of hf id s] by auto

lemma Find_member:
  assumes "hs_inv hf s"
  shows "\<exists>s'. HashTable_Find hf id m s = Some (if m \<in> members s then Some m else None, s') \<and> hs_inv hf s'
    \<and> mset (ht_elems s') = mset (ht_elems s)"
  using FindSlot_ok [OF assms, of m] ht_map_members [OF assms, of m] by (auto simp: HashTable_Find_def)

lemma range_for_members: "range_for_list s = Some (ht_elems s)"
  using list_cursor.Iter_all [of _ s] by (simp add: range_for_list_def ht_elems_def)

lemma member_loop_ok:
  "hs_inv hf s \<Longrightarrow> \<exists>s'. member_loop hf want ms s = Some (filter (\<lambda>m. (m \<in> members s) = want) ms, s')
     \<and> hs_inv hf s' \<and> mset (ht_elems s') = mset (ht_elems s)"
proof (induction ms arbitrary: s)
  case (Cons m ms)
  obtain s1 where s1: "HashTable_Find hf id m s = Some (if m \<in> members s then Some m else None, s1)" "hs_inv hf s1"
      "mset (ht_elems s1) = mset (ht_elems s)"
    using Find_member [OF Cons.prems] by blast
  then have "members s1 = members s" by (metis set_mset_mset)
  with Cons.IH [OF s1(2)] s1 show ?case by auto
qed simp

lemma distinct_elems: "hs_inv hf s \<Longrightarrow> distinct (ht_elems s)"
  using ht_invD(2) [of hf id s] by simp

lemma set_algebra:
  assumes "hs_inv hf s" "hs_inv hf t"
  shows "(case HashSet_Union hf s t of None \<Rightarrow> False | Some (out, s', t') \<Rightarrow>
       distinct out \<and> set out = members s \<union> members t \<and> hs_inv hf s' \<and> hs_inv hf t' \<and> members s' = members s \<and> members t' = members t)
    \<and> (case HashSet_Intersection hf s t of None \<Rightarrow> False | Some (out, s', t') \<Rightarrow>
       distinct out \<and> set out = members s \<inter> members t \<and> hs_inv hf s' \<and> hs_inv hf t' \<and> members s' = members s \<and> members t' = members t)
    \<and> (case HashSet_Difference hf s t of None \<Rightarrow> False | Some (out, s', t') \<Rightarrow>
       distinct out \<and> set out = members s - members t \<and> hs_inv hf s' \<and> hs_inv hf t' \<and> members s' = members s \<and> members t' = members t)"
proof -
  have loop: "\<exists>out q'. member_loop hf want (ht_elems p) q = Some (out, q') \<and> hs_inv hf q' \<and> members q' = members q
      \<and> distinct out \<and> set out = (if want then members p \<inter> members q else members p - members q)"
    if "hs_inv hf p" "hs_inv hf q" for p q :: "'a hash_table" and want
    using member_loop_ok [OF that(2), of want "ht_elems p"] distinct_elems [OF that(1)] by (auto dest: mset_eq_setD)
  note simps = HashSet_Union_def HashSet_Intersection_def HashSet_Difference_def range_for_members
  from loop [OF assms, of False] loop [OF assms, of True] loop [OF assms(2,1), of False] loop [OF assms(2,1), of True]
    distinct_elems [OF assms(1)] distinct_elems [OF assms(2)]
  show ?thesis using assms by (elim exE conjE, cases "set_size s < set_size t") (auto simp: simps)
qed

text \<open>
  C32. The set algebra. For two well-formed set objects, \<^verbatim>\<open>Union\<close>, \<^verbatim>\<open>Intersection\<close> and \<^verbatim>\<open>Difference\<close> return, hand
  each member of the result to the callback exactly once, and leave the members of both sets as they were.
\<close>

theorem hash_set_algebra:
  assumes "hs_inv hf s" "hs_inv hf t"
  shows "(case HashSet_Union hf s t of None \<Rightarrow> False | Some (out, s', t') \<Rightarrow>
       distinct out \<and> set out = members s \<union> members t \<and> hs_inv hf s' \<and> hs_inv hf t' \<and> members s' = members s \<and> members t' = members t)
    \<and> (case HashSet_Intersection hf s t of None \<Rightarrow> False | Some (out, s', t') \<Rightarrow>
       distinct out \<and> set out = members s \<inter> members t \<and> hs_inv hf s' \<and> hs_inv hf t' \<and> members s' = members s \<and> members t' = members t)
    \<and> (case HashSet_Difference hf s t of None \<Rightarrow> False | Some (out, s', t') \<Rightarrow>
       distinct out \<and> set out = members s - members t \<and> hs_inv hf s' \<and> hs_inv hf t' \<and> members s' = members s \<and> members t' = members t)"
  by (rule set_algebra [OF assms])

theorem hash_set_algebra_witness:
  "(case HashSet_Union (\<lambda>n :: nat. n) HashTable_new HashTable_new of None \<Rightarrow> False | Some (out, s', t') \<Rightarrow> out = [])"
proof -
  note n = HashTable_new_ok [of "\<lambda>n :: nat. n" id]
  from hash_set_algebra [OF n [THEN conjunct1] n [THEN conjunct1]] n [THEN conjunct2]
  show ?thesis by (auto split: option.splits)
qed

section \<open>Erasing any member\<close>

lemma pop_front_ok:
  assumes "table_ok hf gk t" "j < tsize t" "buckets t ! j \<noteq> []"
  shows "table_ok hf gk (pop_front_at j t)" "tsize (pop_front_at j t) = tsize t" "used (pop_front_at j t) = used t"
    "mset (telems t) = add_mset (hd (buckets t ! j)) (mset (telems (pop_front_at j t)))"
proof -
  show "table_ok hf gk (pop_front_at j t)"
    unfolding pop_front_at_def using assms by (intro table_ok_set_bucket) (auto simp: table_ok_def dest: list.set_sel(2))
  have "mset (telems (pop_front_at j t)) + mset (buckets t ! j) = mset (telems t) + mset (tl (buckets t ! j))"
    unfolding pop_front_at_def using mset_concat_update [OF assms(2), of "tl (buckets t ! j)"] by simp
  then show "mset (telems t) = add_mset (hd (buckets t ! j)) (mset (telems (pop_front_at j t)))"
    using assms(3) by (cases "buckets t ! j") simp_all
qed (simp_all add: pop_front_at_def)

lemma pop_front_inv:
  assumes inv: "hs_inv hf s" and inv': "rehash_idx s' = rehash_idx s"
    and t1: "table_ok hf id (table1 s')" "tsize (table1 s') = tsize (table1 s)" "used (table1 s') = used (table1 s)"
    and ro: "rehash_ok hf id s'" and ms: "mset (ht_elems s) = add_mset x (mset (ht_elems s'))"
  shows "hs_inv hf s' \<and> x \<in> members s \<and> members s' = members s - {x}"
proof -
  note d = ht_map_remove(2,3) [OF ht_invD(2) [OF inv] ms]
  have "set_mset (mset (ht_elems s)) = insert x (members s')" unfolding ms by simp
  moreover have "mset (ht_elems s) = mset (x # ht_elems s')" using ms by simp
  then have "x \<notin> members s'" using distinct_elems [OF inv] mset_eq_imp_distinct_iff by fastforce
  ultimately have "members s = insert x (members s')" "x \<notin> members s'" by simp_all
  with inv t1 ro d ht_invD(3) [OF inv] show ?thesis by (auto simp: ht_inv_def)
qed

text \<open>
  \<^verbatim>\<open>EraseRandom\<close> on a well-formed set returns 1 and removes exactly one member when the set has one, also
  while the set is being rehashed, and 0 otherwise. The size it reports does not change.
\<close>

theorem hash_set_erase_random:
  assumes "hs_inv hf s"
  shows "case HashSet_EraseRandom hf s of None \<Rightarrow> False | Some (n, s') \<Rightarrow> hs_inv hf s' \<and> set_size s' = set_size s
    \<and> (if members s = {} then n = 0 \<and> members s' = {} else n = 1 \<and> (\<exists>m. m \<in> members s \<and> members s' = members s - {m}))"
proof -
  obtain t where t: "IncrementalRehash hf id s = Some t" and inv: "hs_inv hf t" and ms: "mset (ht_elems t) = mset (ht_elems s)"
      and u: "used (table1 t) = used (table1 s)"
    using IncrementalRehash_ok [OF assms] by blast
  have mem: "members t = members s" using ms by (metis set_mset_mset)
  let ?j = "case rehash_idx t of Some i \<Rightarrow> i | None \<Rightarrow> 0"
  have low: "telems (table1 t) = rest_from (\<lambda>b. b) (buckets (table1 t)) ?j"
  proof (cases "rehash_idx t")
    case (Some i)
    have "concat (take i (buckets (table1 t))) = []"
      using ht_invD(6,7) [OF inv Some] by (auto simp: in_set_conv_nth)
    moreover have "telems (table1 t) = concat (take i (buckets (table1 t))) @ concat (drop i (buckets (table1 t)))"
      by (simp only: concat_append [symmetric] append_take_drop_id)
    ultimately show ?thesis using Some by (simp only: append_Nil rest_from_def list.map_ident option.case)
  qed (simp add: rest_from_def)
  show ?thesis
  proof (cases "scan_buckets Slist_FrontNode (buckets (table1 t)) ?j")
    case (Some jp)
    obtain j p where jp: "jp = (j, p)" by (cases jp)
    have j: "j < tsize (table1 t)" "buckets (table1 t) ! j \<noteq> []"
      using list_cursor.scan_ok [of "buckets (table1 t)" ?j] Some jp by (auto simp: Slist_FrontNode_def)
    note p = pop_front_ok [OF ht_invD(1) [OF inv] j]
    let ?t = "t\<lparr>table1 := pop_front_at j (table1 t)\<rparr>"
    have "rehash_ok hf id ?t"
      using inv j by (auto simp: ht_inv_def rehash_ok_def pop_front_at_def nth_list_update split: option.splits)
    then have "hs_inv hf ?t \<and> hd (buckets (table1 t) ! j) \<in> members t \<and> members ?t = members t - {hd (buckets (table1 t) ! j)}"
      using p by (intro pop_front_inv [OF inv]) (simp_all add: ht_elems_def)
    with t Some jp u p(3) mem show ?thesis by (auto simp: HashSet_EraseRandom_def Let_def)
  next
    case None
    then have e1: "telems (table1 t) = []" using list_cursor.scan_ok [of "buckets (table1 t)" ?j] low by simp
    show ?thesis
    proof (cases "InRehashing t \<and> scan_buckets Slist_FrontNode (buckets (table2 t)) 0 \<noteq> None")
      case True
      then obtain i j p where i: "rehash_idx t = Some i" and sc: "scan_buckets Slist_FrontNode (buckets (table2 t)) 0 = Some (j, p)"
        by (auto simp: InRehashing_def)
      have j: "j < tsize (table2 t)" "buckets (table2 t) ! j \<noteq> []"
        using list_cursor.scan_ok [of "buckets (table2 t)" 0] sc by (auto simp: Slist_FrontNode_def)
      note p = pop_front_ok [OF ht_invD(5) [OF inv i] j]
      let ?t = "t\<lparr>table2 := pop_front_at j (table2 t)\<rparr>"
      have "rehash_ok hf id ?t" using inv i p by (auto simp: ht_inv_def rehash_ok_def)
      then have "hs_inv hf ?t \<and> hd (buckets (table2 t) ! j) \<in> members t \<and> members ?t = members t - {hd (buckets (table2 t) ! j)}"
        using p ht_invD(1) [OF inv] by (intro pop_front_inv [OF inv]) (simp_all add: ht_elems_def)
      with t None sc True u mem show ?thesis by (auto simp: HashSet_EraseRandom_def Let_def)
    next
      case False
      have "telems (table2 t) = []"
      proof (cases "rehash_idx t")
        case (Some i)
        with False have "scan_buckets Slist_FrontNode (buckets (table2 t)) 0 = None" unfolding InRehashing_def by blast
        then show ?thesis using list_cursor.scan_ok [of "buckets (table2 t)" 0] by (simp add: rest_from_def)
      qed (simp add: ht_invD(4) [OF inv])
      then have "members t = {}" using e1 by (simp add: ht_elems_def)
      moreover have "HashSet_EraseRandom hf s = Some (0, t)"
        using t None False by (cases "scan_buckets Slist_FrontNode (buckets (table2 t)) 0") (auto simp: HashSet_EraseRandom_def Let_def)
      ultimately show ?thesis using inv u mem by simp
    qed
  qed
qed

theorem hash_set_erase_random_witness:
  "case HashSet_EraseRandom (\<lambda>n :: nat. n) HashTable_new of None \<Rightarrow> False | Some (n, s') \<Rightarrow> n = 0"
proof -
  note n = HashTable_new_ok [of "\<lambda>n :: nat. n" id]
  from hash_set_erase_random [OF n [THEN conjunct1]] n [THEN conjunct2] show ?thesis by (auto split: option.splits)
qed

section \<open>A set combined with itself\<close>

lemma Find_in_place:
  assumes inv: "hs_inv hf s" and nr: "rehash_idx s = None" and j: "j < tsize (table1 s)" "m \<in> set (buckets (table1 s) ! j)"
  shows "HashTable_Find hf id m s = Some (Some m, s\<lparr>table1 := set_bucket j (m # remove1 m (buckets (table1 s) ! j)) (table1 s)\<rparr>)"
proof -
  let ?b = "buckets (table1 s) ! j"
  have i: "bucket_index (table1 s) (hf m) = j" using ht_invD(1) [OF inv] j by (auto simp: table_ok_def)
  obtain us vs where b: "?b = us @ m # vs" "m \<notin> set us" using j(2) split_list_first by fast
  have "Slist_ExtractNodeIf (\<lambda>v. v = m) (us @ m # vs) = (Some m, us @ vs)"
    by (rule ExtractNodeIf_split) (use b(2) in auto)
  then have "Slist_ExtractNodeIf (\<lambda>v. v = m) ?b = (Some m, remove1 m ?b)" using b by (simp add: remove1_append)
  with i j nr show ?thesis
    by (simp add: HashTable_Find_def HashTable_FindSlot_def IncrementalRehash_def extract_from_def ReservedArray_at_def
        emplace_front_at_def Slist_EmplaceFront_def bucket_index_def set_bucket_def)
qed

lemma find_unique:
  assumes "x \<in> set xs" "P x" "\<And>y. y \<in> set xs \<Longrightarrow> P y \<Longrightarrow> y = x"
  shows "List.find P xs = Some x"
proof (cases "List.find P xs")
  case None
  with assms(1,2) show ?thesis by (auto simp: find_None_iff)
next
  case (Some y)
  with find_SomeD [OF Some] assms(3) show ?thesis by simp
qed

text \<open>The loop is at a member of the first table, and a bucket not yet passed has two members.\<close>

definition stuck :: "('a \<Rightarrow> nat) \<Rightarrow> 'a hash_table \<Rightarrow> 'a ht_iter \<Rightarrow> bool" where
  "stuck hf s it = (hs_inv hf s \<and> rehash_idx s = None \<and> table_index it = 0
     \<and> (\<exists>j m k. bucket_idx it = Some j \<and> slot it = Some m \<and> j < tsize (table1 s) \<and> m \<in> set (buckets (table1 s) ! j)
          \<and> j \<le> k \<and> k < tsize (table1 s) \<and> 2 \<le> length (buckets (table1 s) ! k)))"

lemma scan_head:
  "j \<le> k \<Longrightarrow> k < length bs \<Longrightarrow> bs ! k \<noteq> [] \<Longrightarrow>
   \<exists>i m. scan_buckets list_head bs j = Some (i, m) \<and> j \<le> i \<and> i \<le> k \<and> m \<in> set (bs ! i)"
proof (induction "k - j" arbitrary: j)
  case 0
  then show ?case by (cases "bs ! k") (auto simp: scan_buckets.simps [of list_head bs j])
next
  case (Suc n)
  show ?case
  proof (cases "bs ! j")
    case Nil
    with Suc have "\<exists>i m. scan_buckets list_head bs (Suc j) = Some (i, m) \<and> Suc j \<le> i \<and> i \<le> k \<and> m \<in> set (bs ! i)"
      by (metis Suc_diff_Suc Suc_inject Suc_leI diff_is_0_eq le_neq_implies_less not_less_eq_eq zero_less_Suc zero_less_diff)
    with Nil Suc.prems show ?thesis by (auto simp: scan_buckets.simps [of list_head bs j])
  next
    case (Cons a as)
    with Suc.prems show ?thesis by (auto simp: scan_buckets.simps [of list_head bs j])
  qed
qed

lemma stuck_step:
  assumes "stuck hf s it"
  obtains m s' where "slot it = Some m" "HashTable_Find hf id m s = Some (Some m, s')"
    "stuck hf s' (case slot_next m s' of Some m' \<Rightarrow> it\<lparr>slot := Some m'\<rparr>
       | None \<Rightarrow> Increment_loop list_head s' [table_index it ..< 2] it)"
proof -
  from assms obtain j m k where inv: "hs_inv hf s" and nr: "rehash_idx s = None" and ti: "table_index it = 0"
    and it: "bucket_idx it = Some j" "slot it = Some m" and j: "j < tsize (table1 s)" "m \<in> set (buckets (table1 s) ! j)"
    and k: "j \<le> k" "k < tsize (table1 s)" "2 \<le> length (buckets (table1 s) ! k)"
    by (auto simp: stuck_def)
  let ?b = "buckets (table1 s) ! j"
  let ?s = "s\<lparr>table1 := set_bucket j (m # remove1 m ?b) (table1 s)\<rparr>"
  have find: "HashTable_Find hf id m s = Some (Some m, ?s)" by (rule Find_in_place [OF inv nr j])
  obtain s'' where "HashTable_Find hf id m s = Some (if m \<in> members s then Some m else None, s'')" "hs_inv hf s''"
    using Find_member [OF inv] by blast
  with find have inv': "hs_inv hf ?s" by simp
  have len: "length (m # remove1 m ?b) = length ?b" using j(2) length_pos_if_in_set [OF j(2)] by (simp add: length_remove1)
  have b2: "buckets (table2 ?s) = []" using ht_invD(4) [OF inv nr] by simp
  have "List.find (\<lambda>b. m \<in> set b) (buckets (table1 ?s)) = Some (m # remove1 m ?b)"
  proof -
    have "b = m # remove1 m ?b" if "b \<in> set (buckets (table1 ?s))" "m \<in> set b" for b
    proof -
      from that(1) obtain i where i: "i < tsize (table1 ?s)" "b = buckets (table1 ?s) ! i" by (metis in_set_conv_nth)
      with that(2) ht_invD(1) [OF inv'] have "bucket_index (table1 ?s) (hf m) = i" by (auto simp: table_ok_def)
      moreover have "bucket_index (table1 ?s) (hf m) = j" using ht_invD(1) [OF inv] j by (auto simp: table_ok_def bucket_index_def)
      ultimately show ?thesis using i j by simp
    qed
    moreover have "m # remove1 m ?b \<in> set (buckets (table1 ?s))" using j(1) by (simp add: set_update_memI)
    ultimately show ?thesis by (intro find_unique) auto
  qed
  then have nx: "slot_next m ?s = next_in m (m # remove1 m ?b)" using b2 by (simp add: slot_next_def)
  have "stuck hf ?s (case slot_next m ?s of Some m' \<Rightarrow> it\<lparr>slot := Some m'\<rparr>
       | None \<Rightarrow> Increment_loop list_head ?s [table_index it ..< 2] it)"
  proof (cases "remove1 m ?b")
    case (Cons m' rest)
    have "2 \<le> length (buckets (table1 ?s) ! k)" using k len j by (cases "k = j") auto
    moreover have "m' \<in> set (buckets (table1 ?s) ! j)" using j Cons by simp
    ultimately show ?thesis using inv' nr ti it j k nx Cons unfolding stuck_def by fastforce
  next
    case Nil
    then have "length ?b = 1" using len by simp
    then have kj: "j < k" using k by (cases "k = j") auto
    then have bk: "buckets (table1 ?s) ! k = buckets (table1 s) ! k" by simp
    then have "buckets (table1 ?s) ! k \<noteq> []" using k(3) by auto
    then obtain i m' where sc: "scan_buckets list_head (buckets (table1 ?s)) (Suc j) = Some (i, m')" "Suc j \<le> i" "i \<le> k"
        "m' \<in> set (buckets (table1 ?s) ! i)"
      using scan_head [of "Suc j" k "buckets (table1 ?s)"] kj k(2) by auto
    have "Increment_loop list_head ?s [table_index it ..< 2] it = it\<lparr>bucket_idx := Some i, table_index := 0, slot := Some m'\<rparr>"
      using sc(1) it ti by (simp add: upt_rec nth_table_def)
    then show ?thesis using inv' nr sc k bk nx Nil unfolding stuck_def by fastforce
  qed
  with it(2) find show thesis by (rule that)
qed

lemma self_loop_stuck: "stuck hf s it \<Longrightarrow> self_loop hf want s it = None"
proof (rule ccontr)
  assume st: "stuck hf s it" and "self_loop hf want s it \<noteq> None"
  then obtain y where y: "self_loop hf want s it = Some y" by blast
  have "\<not> stuck hf s it"
  proof (rule self_loop.raw_induct [where P = "\<lambda>hf want s it y. \<not> stuck hf s it", OF _ y])
    fix loop :: "('a \<Rightarrow> nat) \<Rightarrow> bool \<Rightarrow> 'a hash_table \<Rightarrow> 'a ht_iter \<Rightarrow> ('a list \<times> 'a hash_table) option"
      and hf want s it y
    assume IH: "\<And>hf want s it y. loop hf want s it = Some y \<Longrightarrow> \<not> stuck hf s it"
      and eq: "(case slot it of None \<Rightarrow> Some ([], s)
        | Some m \<Rightarrow> do { (r, s) \<leftarrow> HashTable_Find hf id m s;
             (out, s) \<leftarrow> loop hf want s (case slot_next m s of
                None \<Rightarrow> Increment_loop list_head s [table_index it ..< 2] it
              | Some m' \<Rightarrow> it\<lparr>slot := Some m'\<rparr>);
             Some (if (r \<noteq> None) = want then m # out else out, s) }) = Some y"
    show "\<not> stuck hf s it"
    proof
      assume "stuck hf s it"
      then obtain m s' where step: "slot it = Some m" "HashTable_Find hf id m s = Some (Some m, s')"
          "stuck hf s' (case slot_next m s' of Some m' \<Rightarrow> it\<lparr>slot := Some m'\<rparr>
             | None \<Rightarrow> Increment_loop list_head s' [table_index it ..< 2] it)"
        by (rule stuck_step)
      from eq step(1,2) obtain z where "loop hf want s' (case slot_next m s' of
                None \<Rightarrow> Increment_loop list_head s' [table_index it ..< 2] it
              | Some m' \<Rightarrow> it\<lparr>slot := Some m'\<rparr>) = Some z"
        by auto
      from IH [OF this] step(3) show False by simp
    qed
  qed
  with st show False by simp
qed



end
