(* ===== verification/Caches.thy ===== *)
theory Caches
  imports HashTable Blist
begin

text \<open>
  The replacement caches \<^verbatim>\<open>LruCache\<close> and \<^verbatim>\<open>MruCache\<close> of \<^verbatim>\<open>replacement/\<close>: a linked list of the keys in order of
  use and a dictionary from each key to its list node. The list lives on its own node heap; a node's value
  stands for the key it points to in the dictionary. \<open>lnext\<close> is the address the next \<^verbatim>\<open>CreateNode\<close> gets.

  Shown: each operation returns, keeps list and dictionary consistent, and acts on the sequence of keys as
  the policy says; both caches satisfy the contract of \<^verbatim>\<open>CacheInterface\<close>.
\<close>

section \<open>Writing through a pointer into a hash table\<close>

text \<open>The value of the node with the key of \<open>x\<close> is overwritten by \<open>x\<close>, which has the same key.\<close>

definition assign_entry :: "('a \<Rightarrow> 'k) \<Rightarrow> 'a \<Rightarrow> 'a \<Rightarrow> 'a" where
  "assign_entry gk x y = (if gk y = gk x then x else y)"

definition HashTable_assign :: "('a \<Rightarrow> 'k) \<Rightarrow> 'a \<Rightarrow> 'a hash_table \<Rightarrow> 'a hash_table" where
  "HashTable_assign gk x ht =
     ht\<lparr>table1 := (table1 ht)\<lparr>buckets := map (map (assign_entry gk x)) (buckets (table1 ht))\<rparr>,
        table2 := (table2 ht)\<lparr>buckets := map (map (assign_entry gk x)) (buckets (table2 ht))\<rparr>\<rparr>"

section \<open>Operations\<close>

record 'k list_cache =
  lmax :: nat
  lheap :: "'k bheap"
  llist :: blist
  ldict :: "('k \<times> addr option) hash_table"
  lnext :: addr

definition cache_new :: "nat \<Rightarrow> 'k list_cache" where
  "cache_new n = \<lparr>lmax = n, lheap = Map.empty, llist = blist_new, ldict = HashTable_new, lnext = 0\<rparr>"

text \<open>\<^verbatim>\<open>lst.PushFront(&duplicate->key); duplicate->value = lst.FrontNode();\<close>\<close>

definition push_new :: "'k \<Rightarrow> 'k list_cache \<Rightarrow> 'k list_cache option" where
  "push_new k c =
     do { let a = lnext c;
          (_, h, l) \<leftarrow> Blist_PushFront a (Blist_CreateNode a k (lheap c)) (llist c);
          Some (c\<lparr>lheap := h, llist := l, lnext := a + 1, ldict := HashTable_assign fst (k, bheader l) (ldict c)\<rparr>) }"

text \<open>\<^verbatim>\<open>Extract(node); PushFront(node);\<close> for the node recorded in the dictionary.\<close>

definition move_front :: "addr option \<Rightarrow> 'k list_cache \<Rightarrow> 'k list_cache option" where
  "move_front node c =
     do { (h, l) \<leftarrow> Blist_Extract node (lheap c) (llist c);
          a \<leftarrow> node;
          (_, h, l) \<leftarrow> Blist_PushFront a h l;
          Some (c\<lparr>lheap := h, llist := l\<rparr>) }"

definition Lru_Victim :: "'k list_cache \<Rightarrow> 'k option option" where
  "Lru_Victim c = (if bheader (llist c) = None then Some None
     else do { k \<leftarrow> Blist_Back (lheap c) (llist c); Some (Some k) })"

definition Lru_DelVictim :: "('k \<Rightarrow> nat) \<Rightarrow> 'k list_cache \<Rightarrow> 'k list_cache option" where
  "Lru_DelVictim hf c = (if bheader (llist c) = None then Some c
     else do { k \<leftarrow> Blist_Back (lheap c) (llist c);
               (_, d) \<leftarrow> HashTable_Erase hf fst k (ldict c);
               (_, h, l) \<leftarrow> Blist_PopBack (lheap c) (llist c);
               Some (c\<lparr>ldict := d, lheap := h, llist := l\<rparr>) })"

definition Lru_UpdateEntry :: "('k \<Rightarrow> nat) \<Rightarrow> 'k \<Rightarrow> 'k list_cache \<Rightarrow> ('k option \<times> 'k list_cache) option" where
  "Lru_UpdateEntry hf k c = (if lmax c = 0 then Some (None, c)
     else do { (ok, d, dict) \<leftarrow> InsertWithDuplicate hf fst (k, None) (ldict c);
               let c = c\<lparr>ldict := dict\<rparr>;
               c \<leftarrow> (if \<not> ok then move_front (snd d) c
                     else do { c \<leftarrow> (if lmax c \<le> bcount (llist c)
                                     then do { b \<leftarrow> Blist_Back (lheap c) (llist c);
                                               (_, dict) \<leftarrow> HashTable_Erase hf fst b (ldict c);
                                               (_, h, l) \<leftarrow> Blist_PopBack (lheap c) (llist c);
                                               Some (c\<lparr>ldict := dict, lheap := h, llist := l\<rparr>) }
                                     else Some c);
                               assertion (bcount (llist c) < lmax c);
                               push_new k c });
               f \<leftarrow> Blist_Front (lheap c) (llist c);
               Some (Some f, c) })"

definition Lru_Search :: "('k \<Rightarrow> nat) \<Rightarrow> 'k \<Rightarrow> 'k list_cache \<Rightarrow> ('k option \<times> 'k list_cache) option" where
  "Lru_Search hf k c =
     do { (r, d) \<leftarrow> HashTable_Find hf fst k (ldict c); Some (map_option fst r, c\<lparr>ldict := d\<rparr>) }"

definition Lru_DelEntry :: "('k \<Rightarrow> nat) \<Rightarrow> 'k \<Rightarrow> 'k list_cache \<Rightarrow> (bool \<times> 'k list_cache) option" where
  "Lru_DelEntry hf k c =
     do { (r, d) \<leftarrow> HashTable_Extract hf fst k (ldict c);
          case r of
            None \<Rightarrow> Some (False, c\<lparr>ldict := d\<rparr>)
          | Some e \<Rightarrow> do { a \<leftarrow> snd e; (h, l) \<leftarrow> Blist_Erase a (lheap c) (llist c);
                          Some (True, c\<lparr>ldict := d, lheap := h, llist := l\<rparr>) } }"

definition Lru_Clear :: "'k list_cache \<Rightarrow> 'k list_cache option" where
  "Lru_Clear c =
     do { d \<leftarrow> HashTable_Clear (ldict c); (h, l) \<leftarrow> Blist_Clear (lheap c) (llist c);
          Some (c\<lparr>ldict := d, lheap := h, llist := l\<rparr>) }"

text \<open>\<^verbatim>\<open>MruCache\<close>: the victim is at the front; \<^verbatim>\<open>Victim\<close> and \<^verbatim>\<open>DelVictim\<close> of an empty cache dereference null.\<close>

definition Mru_Victim :: "'k list_cache \<Rightarrow> 'k option" where
  "Mru_Victim c = Blist_Front (lheap c) (llist c)"

definition Mru_DelVictim :: "('k \<Rightarrow> nat) \<Rightarrow> 'k list_cache \<Rightarrow> 'k list_cache option" where
  "Mru_DelVictim hf c =
     do { k \<leftarrow> Blist_Front (lheap c) (llist c);
          (_, d) \<leftarrow> HashTable_Erase hf fst k (ldict c);
          (_, h, l) \<leftarrow> Blist_PopFront (lheap c) (llist c);
          Some (c\<lparr>ldict := d, lheap := h, llist := l\<rparr>) }"

definition Mru_UpdateEntry :: "('k \<Rightarrow> nat) \<Rightarrow> 'k \<Rightarrow> 'k list_cache \<Rightarrow> ('k option \<times> 'k list_cache) option" where
  "Mru_UpdateEntry hf k c = (if lmax c = 0 then Some (None, c)
     else do { (ok, d, dict) \<leftarrow> InsertWithDuplicate hf fst (k, None) (ldict c);
               let c = c\<lparr>ldict := dict\<rparr>;
               c \<leftarrow> (if ok then do { c \<leftarrow> (if lmax c \<le> bcount (llist c) then Mru_DelVictim hf c else Some c); push_new k c }
                     else move_front (snd d) c);
               f \<leftarrow> Blist_Front (lheap c) (llist c);
               Some (Some f, c) })"

definition Mru_Search :: "('k \<Rightarrow> nat) \<Rightarrow> 'k \<Rightarrow> 'k list_cache \<Rightarrow> ('k option \<times> 'k list_cache) option" where
  "Mru_Search hf k c =
     do { (r, d) \<leftarrow> HashTable_Find hf fst k (ldict c); Some (map_option fst r, c\<lparr>ldict := d\<rparr>) }"

definition Mru_DelEntry :: "('k \<Rightarrow> nat) \<Rightarrow> 'k \<Rightarrow> 'k list_cache \<Rightarrow> (bool \<times> 'k list_cache) option" where
  "Mru_DelEntry hf k c =
     do { (r, d) \<leftarrow> HashTable_Extract hf fst k (ldict c);
          case r of
            None \<Rightarrow> Some (False, c\<lparr>ldict := d\<rparr>)
          | Some e \<Rightarrow> do { a \<leftarrow> snd e; (h, l) \<leftarrow> Blist_Erase a (lheap c) (llist c);
                          Some (True, c\<lparr>ldict := d, lheap := h, llist := l\<rparr>) } }"

definition Mru_Clear :: "'k list_cache \<Rightarrow> 'k list_cache option" where
  "Mru_Clear c =
     do { d \<leftarrow> HashTable_Clear (ldict c); (h, l) \<leftarrow> Blist_Clear (lheap c) (llist c);
          Some (c\<lparr>ldict := d, lheap := h, llist := l\<rparr>) }"

section \<open>Consistency of list and dictionary\<close>

text \<open>The dictionary maps each key held by the nodes \<open>as\<close> to its node, and nothing else.\<close>

definition linked_to :: "('k \<rightharpoonup> 'k \<times> addr option) \<Rightarrow> 'k list \<Rightarrow> addr list \<Rightarrow> bool" where
  "linked_to m ks as = (distinct ks \<and> length ks = length as \<and> m = map_of (zip ks (zip ks (map Some as))))"

definition cache_ok :: "('k \<Rightarrow> nat) \<Rightarrow> 'k list_cache \<Rightarrow> addr list \<Rightarrow> 'k list \<Rightarrow> bool" where
  "cache_ok hf c as ks = (ht_inv hf fst (ldict c) \<and> blist_ok (lheap c) (llist c) as \<and> bvals (lheap c) as = ks
     \<and> linked_to (ht_map fst (ldict c)) ks as
     \<and> (\<forall>a. lheap c a \<noteq> None \<longrightarrow> a < lnext c) \<and> length ks \<le> lmax c \<and> lmax c < 2 ^ 64)"

text \<open>The cache holds the keys \<open>ks\<close>, the most recently used first.\<close>

definition cache_keys :: "('k \<Rightarrow> nat) \<Rightarrow> 'k list_cache \<Rightarrow> 'k list \<Rightarrow> bool" where
  "cache_keys hf c ks = (\<exists>as. cache_ok hf c as ks)"

lemma assign_entry_key [simp]: "gk (assign_entry gk x y) = gk y"
  by (simp add: assign_entry_def)

lemma keyed_map_map: "(\<And>y. gk (f y) = gk y) \<Longrightarrow> keyed_map gk (map f xs) k = map_option f (keyed_map gk xs k)"
  by (induction xs) (auto simp: keyed_map_def)

lemma assign_entry_comp [simp]: "gk \<circ> assign_entry gk x = gk"
  by (simp add: fun_eq_iff)

lemma HashTable_assign_ok:
  assumes inv: "ht_inv hf gk ht" and y: "ht_map gk ht (gk x) = Some y"
  shows "ht_inv hf gk (HashTable_assign gk x ht) \<and> ht_map gk (HashTable_assign gk x ht) = (ht_map gk ht)(gk x \<mapsto> x)"
proof -
  let ?f = "assign_entry gk x"
  have el: "ht_elems (HashTable_assign gk x ht) = map ?f (ht_elems ht)"
    by (simp add: ht_elems_def HashTable_assign_def map_concat)
  have "ht_inv hf gk (HashTable_assign gk x ht)"
    using inv unfolding ht_inv_def el by (auto simp: HashTable_assign_def table_ok_def rehash_ok_def bucket_index_def split: option.splits)
  moreover have "ht_map gk (HashTable_assign gk x ht) k = ((ht_map gk ht)(gk x \<mapsto> x)) k" for k
  proof -
    have "ht_map gk (HashTable_assign gk x ht) k = map_option ?f (ht_map gk ht k)"
      unfolding ht_map_def el by (rule keyed_map_map) simp
    moreover have "gk y = k" if "ht_map gk ht k = Some y" for y
      using that keyed_map_SomeD by (fastforce simp: ht_map_def)
    ultimately show ?thesis using y by (cases "ht_map gk ht k") (auto simp: assign_entry_def)
  qed
  ultimately show ?thesis by blast
qed

lemma map_of_mid: "k \<notin> fst ` set xs \<Longrightarrow> map_of (xs @ (k, v) # ys) = (map_of (xs @ ys))(k \<mapsto> v)"
  by (induction xs) (auto simp: fun_upd_twist)

lemma linked_to_dom: "linked_to m ks as \<Longrightarrow> m k \<noteq> None \<longleftrightarrow> k \<in> set ks"
  using dom_map_of_zip [of ks "zip ks (map Some as)"] by (auto simp: linked_to_def domIff)

lemma linked_to_mid:
  assumes "linked_to m (us @ k # vs) (bs @ a # cs)" "length us = length bs"
  shows "m k = Some (k, Some a)" "linked_to (m(k := None)) (us @ vs) (bs @ cs)" "linked_to m (k # us @ vs) (a # bs @ cs)"
proof -
  let ?z = "\<lambda>ks as. zip ks (zip ks (map Some as))"
  have d: "distinct (us @ k # vs)" "length vs = length cs" "m = map_of (?z (us @ k # vs) (bs @ a # cs))"
    using assms by (auto simp: linked_to_def)
  have z: "?z (us @ k # vs) (bs @ a # cs) = ?z us bs @ (k, k, Some a) # ?z vs cs" "?z (us @ vs) (bs @ cs) = ?z us bs @ ?z vs cs"
    using assms(2) by simp_all
  have "k \<notin> fst ` set (?z us bs)" using d(1) by (auto dest: set_zip_leftD)
  then have m: "m = (map_of (?z (us @ vs) (bs @ cs)))(k \<mapsto> (k, Some a))" using d(3) z map_of_mid by metis
  moreover have "map_of (?z (us @ vs) (bs @ cs)) k = None"
    using d(1,2) assms(2) dom_map_of_zip [of "us @ vs" "zip (us @ vs) (map Some (bs @ cs))"] by (auto simp: domIff)
  ultimately show "m k = Some (k, Some a)" "linked_to (m(k := None)) (us @ vs) (bs @ cs)" "linked_to m (k # us @ vs) (a # bs @ cs)"
    using d(1,2) assms(2) by (auto simp: linked_to_def fun_upd_idem)
qed

lemma linked_to_Cons: "linked_to m ks as \<Longrightarrow> k \<notin> set ks \<Longrightarrow> linked_to (m(k \<mapsto> (k, Some a))) (k # ks) (a # as)"
  by (simp add: linked_to_def)

lemma bvals_split:
  assumes "k \<in> set (bvals h as)"
  obtains bs a cs where "as = bs @ a # cs" "bvals h as = bvals h bs @ k # bvals h cs" "bvalue (the (h a)) = k"
proof -
  from assms obtain a where "a \<in> set as" "bvalue (the (h a)) = k" by (auto simp: bvals_def)
  with that show thesis by (metis bvals_simps(2,3) split_list)
qed

lemma length_bvals [simp]: "length (bvals h as) = length as"
  by (simp add: bvals_def)

text \<open>The pieces the operations are made of.\<close>

lemma cache_okD:
  assumes "cache_ok hf c as ks"
  shows "ht_inv hf fst (ldict c)" "blist_ok (lheap c) (llist c) as" "bvals (lheap c) as = ks"
    "linked_to (ht_map fst (ldict c)) ks as" "length as = length ks" "length ks \<le> lmax c" "lmax c < 2 ^ 64"
    "lheap c a \<noteq> None \<Longrightarrow> a < lnext c"
  using assms by (auto simp: cache_ok_def linked_to_def)

lemma relinked_alloc: "relinked S h h' \<Longrightarrow> h' a \<noteq> None \<longleftrightarrow> h a \<noteq> None"
  unfolding relinked_def by (metis map_option_is_None)

lemma push_new_ok:
  assumes "ht_inv hf fst (ldict c)" "ht_map fst (ldict c) = m(k \<mapsto> (k, None))" "linked_to m ks as" "k \<notin> set ks"
    and bl: "blist_ok (lheap c) (llist c) as" "bvals (lheap c) as = ks"
    and n: "\<And>a. lheap c a \<noteq> None \<Longrightarrow> a < lnext c" and len: "length ks < lmax c" "lmax c < 2 ^ 64"
  shows "\<exists>c'. push_new k c = Some c' \<and> cache_ok hf c' (lnext c # as) (k # ks) \<and> lmax c' = lmax c"
proof -
  let ?a = "lnext c" and ?h = "Blist_CreateNode (lnext c) k (lheap c)"
  have fresh: "lheap c ?a = None" using n [of ?a] by fastforce
  note cr = create_push(1) [OF bl(1) fresh, of k] create_push(2) [OF bl(1) fresh] create_push(3,4) [OF bl(1) fresh, of k]
  obtain h' l' where p: "Blist_PushFront ?a ?h (llist c) = Some (1, h', l')" "blist_ok h' l' (?a # as)"
      "relinked (set (?a # as)) ?h h'"
    using PushFront_ok [OF cr(1,3) _ cr(2)] len bl(2) by auto
  have vals: "bvals h' (?a # as) = k # ks" using relinked_bvals [OF p(3), of "?a # as"] cr(4) bl(2) by (simp only:)
  have hdr: "bheader l' = Some ?a" using ends_ok(1) [OF p(2)] by simp
  have d: "ht_inv hf fst (HashTable_assign fst (k, Some ?a) (ldict c))
      \<and> ht_map fst (HashTable_assign fst (k, Some ?a) (ldict c)) = m(k \<mapsto> (k, Some ?a))"
    using HashTable_assign_ok [OF assms(1), of "(k, Some ?a)" "(k, None)"] assms(2) by simp
  have nx: "b < lnext c + 1" if "h' b \<noteq> None" for b
  proof -
    have "?h b \<noteq> None" using that relinked_alloc [OF p(3)] by blast
    then show ?thesis using n [of b] by (auto simp: Blist_CreateNode_def split: if_splits)
  qed
  let ?c = "c\<lparr>lheap := h', llist := l', lnext := ?a + 1, ldict := HashTable_assign fst (k, Some ?a) (ldict c)\<rparr>"
  have "push_new k c = Some ?c" using p(1) hdr by (simp add: push_new_def Let_def)
  moreover have "cache_ok hf ?c (?a # as) (k # ks)"
    using d p(2) vals linked_to_Cons [OF assms(3,4), of ?a] nx len by (auto simp: cache_ok_def)
  ultimately show ?thesis by auto
qed

lemma move_front_ok:
  assumes ok: "cache_ok hf c (bs @ a # cs) (us @ k # vs)" and len: "length us = length bs"
  shows "\<exists>c'. move_front (Some a) c = Some c' \<and> cache_ok hf c' (a # bs @ cs) (k # us @ vs) \<and> lmax c' = lmax c"
proof -
  note D = cache_okD [OF ok]
  obtain h1 l1 where e: "Blist_Extract (Some a) (lheap c) (llist c) = Some (h1, l1)" "blist_ok h1 l1 (bs @ cs)"
      "relinked (set (bs @ a # cs)) (lheap c) h1" "unlinked a h1"
    using Blist_Extract_ok [OF D(2)] by blast
  then obtain n where n: "h1 a = Some n" "bnext n = None" by (auto simp: unlinked_def split: option.splits)
  have na: "a \<notin> set (bs @ cs)" using D(2) by (simp add: blist_ok_def)
  have l: "length (bs @ cs) < 2 ^ 64" using D(5,6,7) len by simp
  obtain h2 l2 where p: "Blist_PushFront a h1 l1 = Some (1, h2, l2)" "blist_ok h2 l2 (a # bs @ cs)" "relinked (set (a # bs @ cs)) h1 h2"
    using PushFront_ok [OF e(2) n na l] by blast
  have v: "bvals h2 as = bvals (lheap c) as" for as using relinked_bvals [OF p(3)] relinked_bvals [OF e(3)] by simp
  have "bvals (lheap c) bs = us" "bvalue (the (lheap c a)) = k" "bvals (lheap c) cs = vs"
    using D(3) len by (auto simp: append_eq_append_conv)
  then have v2: "bvals h2 (a # bs @ cs) = k # us @ vs" using v by (metis bvals_simps(2,3))
  have al: "h2 b \<noteq> None \<longleftrightarrow> lheap c b \<noteq> None" for b using relinked_alloc [OF p(3)] relinked_alloc [OF e(3)] by simp
  have "cache_ok hf (c\<lparr>lheap := h2, llist := l2\<rparr>) (a # bs @ cs) (k # us @ vs)"
    using D(1,6,7) p(2) v2 linked_to_mid(3) [OF D(4) len] al D(8) by (auto simp: cache_ok_def)
  moreover have "move_front (Some a) c = Some (c\<lparr>lheap := h2, llist := l2\<rparr>)"
    using e(1) p(1) by (simp add: move_front_def)
  ultimately show ?thesis by auto
qed

text \<open>Erasing the entry of a key from the dictionary and its node from the list.\<close>

lemma dropped_node:
  assumes ok: "cache_ok hf c (bs @ a # cs) (us @ k # vs)" and len: "length us = length bs"
    and l: "relinked (set (bs @ cs)) ((lheap c)(a := None)) h"
  shows "bvals h (bs @ cs) = us @ vs" "h b \<noteq> None \<Longrightarrow> b < lnext c"
proof -
  note D = cache_okD [OF ok]
  have na: "a \<notin> set (bs @ cs)" using D(2) by (simp add: blist_ok_def)
  have "bvals (lheap c) bs = us" "bvals (lheap c) cs = vs" using D(3) len by (auto simp: append_eq_append_conv)
  then show "bvals h (bs @ cs) = us @ vs" using relinked_bvals [OF l, of "bs @ cs"] na by simp
  show "b < lnext c" if "h b \<noteq> None"
    using that relinked_alloc [OF l, of b] D(8) by (auto split: if_splits)
qed

lemma unlink_ok:
  assumes ok: "cache_ok hf c (bs @ a # cs) (us @ k # vs)" and len: "length us = length bs"
    and d: "ht_inv hf fst d" "ht_map fst d = (ht_map fst (ldict c))(k := None)"
    and l: "blist_ok h l (bs @ cs)" "relinked (set (bs @ cs)) ((lheap c)(a := None)) h"
  shows "cache_ok hf (c\<lparr>ldict := d, lheap := h, llist := l\<rparr>) (bs @ cs) (us @ vs)"
  using d l(1) linked_to_mid(2) [OF cache_okD(4) [OF ok] len] cache_okD(6,7) [OF ok] dropped_node [OF ok len l(2)]
  by (auto simp: cache_ok_def)

lemma Erase_key:
  assumes "ht_inv hf fst d"
  shows "\<exists>n d'. HashTable_Erase hf fst k d = Some (n, d') \<and> ht_inv hf fst d' \<and> ht_map fst d' = (ht_map fst d)(k := None)"
  using ht.erase_law [OF assms, of k] by auto

lemma cache_split:
  assumes ok: "cache_ok hf c as ks" and k: "k \<in> set ks"
  obtains bs a cs us vs where "as = bs @ a # cs" "ks = us @ k # vs" "length us = length bs" "k \<notin> set us"
    "ht_map fst (ldict c) k = Some (k, Some a)"
proof -
  note D = cache_okD [OF ok]
  from k D(3) obtain bs a cs where s: "as = bs @ a # cs" "ks = bvals (lheap c) bs @ k # bvals (lheap c) cs"
    by (metis bvals_split)
  moreover have "k \<notin> set (bvals (lheap c) bs)" using D(4) s(2) by (simp add: linked_to_def)
  ultimately show thesis using linked_to_mid(1) [of _ "bvals (lheap c) bs" k "bvals (lheap c) cs" bs a cs] D(4)
    by (intro that [of bs a cs "bvals (lheap c) bs" "bvals (lheap c) cs"]) auto
qed

lemma InsertWithDuplicate_key:
  assumes ok: "cache_ok hf c as ks"
  shows "k \<in> set ks \<Longrightarrow> \<exists>d'. InsertWithDuplicate hf fst (k, None) (ldict c) = Some (False, the (ht_map fst (ldict c) k), d')
      \<and> cache_ok hf (c\<lparr>ldict := d'\<rparr>) as ks"
    "k \<notin> set ks \<Longrightarrow> \<exists>d'. InsertWithDuplicate hf fst (k, None) (ldict c) = Some (True, (k, None), d')
      \<and> ht_inv hf fst d' \<and> ht_map fst d' = (ht_map fst (ldict c))(k \<mapsto> (k, None))"
proof -
  note D = cache_okD [OF ok]
  show "\<exists>d'. InsertWithDuplicate hf fst (k, None) (ldict c) = Some (False, the (ht_map fst (ldict c) k), d')
      \<and> cache_ok hf (c\<lparr>ldict := d'\<rparr>) as ks" if k: "k \<in> set ks"
  proof -
    obtain e where "ht_map fst (ldict c) k = Some e" using k linked_to_dom [OF D(4), of k] by blast
    with ht.ins_dup [OF D(1), of "(k, None)" e] ok show ?thesis by (auto simp: cache_ok_def)
  qed
  show "\<exists>d'. InsertWithDuplicate hf fst (k, None) (ldict c) = Some (True, (k, None), d')
      \<and> ht_inv hf fst d' \<and> ht_map fst d' = (ht_map fst (ldict c))(k \<mapsto> (k, None))" if k: "k \<notin> set ks"
  proof -
    have "ht_map fst (ldict c) k = None" using k linked_to_dom [OF D(4), of k] by blast
    with ht.ins_new [OF D(1), of "(k, None)"] show ?thesis by simp
  qed
qed

section \<open>The policies\<close>

definition lru_touch :: "nat \<Rightarrow> 'k \<Rightarrow> 'k list \<Rightarrow> 'k list" where
  "lru_touch n k ks = k # (if k \<in> set ks then remove1 k ks else if n \<le> length ks then butlast ks else ks)"

definition mru_touch :: "nat \<Rightarrow> 'k \<Rightarrow> 'k list \<Rightarrow> 'k list" where
  "mru_touch n k ks = k # (if k \<in> set ks then remove1 k ks else if n \<le> length ks then tl ks else ks)"

lemma update_existing:
  assumes ok: "cache_ok hf c as ks" and k: "k \<in> set ks"
  shows "\<exists>d c' as'. InsertWithDuplicate hf fst (k, None) (ldict c) = Some (False, the (ht_map fst (ldict c) k), d)
    \<and> move_front (snd (the (ht_map fst (ldict c) k))) (c\<lparr>ldict := d\<rparr>) = Some c'
    \<and> cache_ok hf c' as' (k # remove1 k ks) \<and> lmax c' = lmax c"
proof -
  obtain bs a cs us vs where s: "as = bs @ a # cs" "ks = us @ k # vs" "length us = length bs" "k \<notin> set us"
      "ht_map fst (ldict c) k = Some (k, Some a)"
    by (rule cache_split [OF ok k])
  obtain d where d: "InsertWithDuplicate hf fst (k, None) (ldict c) = Some (False, the (ht_map fst (ldict c) k), d)"
      "cache_ok hf (c\<lparr>ldict := d\<rparr>) as ks"
    using InsertWithDuplicate_key(1) [OF ok k] by blast
  from move_front_ok [OF d(2) [unfolded s(1,2)] s(3)] obtain c' where
    "move_front (Some a) (c\<lparr>ldict := d\<rparr>) = Some c'" "cache_ok hf c' (a # bs @ cs) (k # us @ vs)" "lmax c' = lmax c" by auto
  with d s show ?thesis by (simp add: remove1_append) blast
qed

lemma cache_Front: "cache_ok hf c as (k # ks) \<Longrightarrow> Blist_Front (lheap c) (llist c) = Some k"
  using ends_ok(3) [of "lheap c" "llist c" as] by (cases as) (auto simp: cache_ok_def)

lemma Lru_UpdateEntry_ok:
  assumes ok: "cache_ok hf c as ks" and "0 < lmax c"
  shows "\<exists>c' as'. Lru_UpdateEntry hf k c = Some (Some k, c') \<and> cache_ok hf c' as' (lru_touch (lmax c) k ks) \<and> lmax c' = lmax c"
proof -
  note D = cache_okD [OF ok]
  have cnt: "bcount (llist c) = length ks" using D(2,5) by (simp add: blist_ok_def)
  consider (old) "k \<in> set ks" | (room) "k \<notin> set ks" "length ks < lmax c" | (full) "k \<notin> set ks" "length ks = lmax c"
    using D(6) by fastforce
  then show ?thesis
  proof cases
    case old
    with update_existing [OF ok old] assms(2) cache_Front show ?thesis by (fastforce simp: Lru_UpdateEntry_def lru_touch_def)
  next
    case room
    obtain d where d: "InsertWithDuplicate hf fst (k, None) (ldict c) = Some (True, (k, None), d)" "ht_inv hf fst d"
        "ht_map fst d = (ht_map fst (ldict c))(k \<mapsto> (k, None))"
      using InsertWithDuplicate_key(2) [OF ok room(1)] by blast
    obtain c' where "push_new k (c\<lparr>ldict := d\<rparr>) = Some c'" "cache_ok hf c' (lnext c # as) (k # ks)" "lmax c' = lmax c"
      using push_new_ok [of hf "c\<lparr>ldict := d\<rparr>", OF _ _ D(4) room(1)] d(2,3) D room(2) by auto
    with d room cnt cache_Front show ?thesis by (fastforce simp: Lru_UpdateEntry_def lru_touch_def assertion_def)
  next
    case full
    obtain d where d: "InsertWithDuplicate hf fst (k, None) (ldict c) = Some (True, (k, None), d)" "ht_inv hf fst d"
        "ht_map fst d = (ht_map fst (ldict c))(k \<mapsto> (k, None))"
      using InsertWithDuplicate_key(2) [OF ok full(1)] by blast
    obtain us b where ks: "ks = us @ [b]" using full(2) assms(2) by (cases ks rule: rev_cases) auto
    obtain bs a where asb: "as = bs @ [a]" using D(5) ks by (cases as rule: rev_cases) auto
    have ok': "cache_ok hf c (bs @ a # []) (us @ b # [])" and len: "length us = length bs" using ok ks asb D(5) by auto
    obtain h l where p: "Blist_PopBack (lheap c) (llist c) = Some (1, h, l)" "blist_ok h l bs" "relinked (set bs) ((lheap c)(a := None)) h"
      using PopBack_ok [of "lheap c" "llist c" bs a] D(2) asb by auto
    have dn: "bvals h bs = us" "\<And>x. h x \<noteq> None \<Longrightarrow> x < lnext c" using dropped_node [OF ok' len] p(3) by auto
    have bk: "Blist_Back (lheap c) (llist c) = Some b" using ends_ok(4) [OF D(2)] D(3) asb ks by simp
    obtain n d' where e: "HashTable_Erase hf fst b d = Some (n, d')" "ht_inv hf fst d'" "ht_map fst d' = (ht_map fst d)(b := None)"
      using Erase_key [OF d(2)] by blast
    have m': "ht_map fst d' = ((ht_map fst (ldict c))(b := None))(k \<mapsto> (k, None))"
      using e(3) d(3) full(1) ks by (auto simp: fun_upd_twist)
    have lk: "linked_to ((ht_map fst (ldict c))(b := None)) us bs"
      using linked_to_mid(2) [OF cache_okD(4) [OF ok'] len] by simp
    have l': "bcount l = length us" using p(2) len by (simp add: blist_ok_def)
    obtain c' where "push_new k (c\<lparr>ldict := d', lheap := h, llist := l\<rparr>) = Some c'" "cache_ok hf c' (lnext c # bs) (k # us)" "lmax c' = lmax c"
      using push_new_ok [of hf "c\<lparr>ldict := d', lheap := h, llist := l\<rparr>", OF _ _ lk, where k = k] e(2) m' p(2) dn D(7) full ks by auto
    with d bk e p(1) full cnt l' ks cache_Front show ?thesis
      by (fastforce simp: Lru_UpdateEntry_def lru_touch_def assertion_def)
  qed
qed

lemma cache_ends:
  assumes ok: "cache_ok hf c as ks" and "ks \<noteq> []"
  shows "bheader (llist c) \<noteq> None" "Blist_Front (lheap c) (llist c) = Some (hd ks)" "Blist_Back (lheap c) (llist c) = Some (last ks)"
proof -
  have "as \<noteq> []" using cache_okD(5) [OF ok] assms(2) by auto
  from ends_ok [OF cache_okD(2) [OF ok] this] cache_okD(3) [OF ok]
  show "bheader (llist c) \<noteq> None" "Blist_Front (lheap c) (llist c) = Some (hd ks)" "Blist_Back (lheap c) (llist c) = Some (last ks)"
    by simp_all
qed

lemma Lru_DelVictim_ok:
  assumes ok: "cache_ok hf c as ks" and ne: "ks \<noteq> []"
  shows "\<exists>c' as'. Lru_DelVictim hf c = Some c' \<and> cache_ok hf c' as' (butlast ks) \<and> lmax c' = lmax c"
proof -
  note D = cache_okD [OF ok]
  obtain us b where ks: "ks = us @ [b]" using ne by (cases ks rule: rev_cases) auto
  obtain bs a where asb: "as = bs @ [a]" using D(5) ks by (cases as rule: rev_cases) auto
  have ok': "cache_ok hf c (bs @ a # []) (us @ b # [])" and len: "length us = length bs" using ok ks asb D(5) by auto
  obtain h l where p: "Blist_PopBack (lheap c) (llist c) = Some (1, h, l)" "blist_ok h l bs" "relinked (set bs) ((lheap c)(a := None)) h"
    using PopBack_ok [of "lheap c" "llist c" bs a] D(2) asb by auto
  obtain n d where e: "HashTable_Erase hf fst b (ldict c) = Some (n, d)" "ht_inv hf fst d" "ht_map fst d = (ht_map fst (ldict c))(b := None)"
    using Erase_key [OF D(1)] by blast
  have "cache_ok hf (c\<lparr>ldict := d, lheap := h, llist := l\<rparr>) bs us"
    using unlink_ok [OF ok' len e(2,3)] p(2,3) by simp
  moreover have "Lru_DelVictim hf c = Some (c\<lparr>ldict := d, lheap := h, llist := l\<rparr>)"
    using cache_ends [OF ok ne] e(1) p(1) ks by (auto simp: Lru_DelVictim_def)
  ultimately show ?thesis using ks by auto
qed

lemma Mru_DelVictim_ok:
  assumes D: "ht_inv hf fst d0" "blist_ok (lheap c) (llist c) (a # as)" "bvals (lheap c) (a # as) = k # ks" and c: "ldict c = d0"
  shows "\<exists>d h l. Mru_DelVictim hf c = Some (c\<lparr>ldict := d, lheap := h, llist := l\<rparr>) \<and> ht_inv hf fst d
    \<and> ht_map fst d = (ht_map fst d0)(k := None) \<and> blist_ok h l as \<and> relinked (set as) ((lheap c)(a := None)) h"
proof -
  obtain h l where p: "Blist_PopFront (lheap c) (llist c) = Some (1, h, l)" "blist_ok h l as" "relinked (set as) ((lheap c)(a := None)) h"
    using PopFront_ok [OF D(2)] by blast
  obtain n d where e: "HashTable_Erase hf fst k d0 = Some (n, d)" "ht_inv hf fst d" "ht_map fst d = (ht_map fst d0)(k := None)"
    using Erase_key [OF D(1)] by blast
  have "Blist_Front (lheap c) (llist c) = Some k" using ends_ok(3) [OF D(2)] D(3) by simp
  with p e c show ?thesis by (auto simp: Mru_DelVictim_def)
qed

lemma Mru_DelVictim_keys:
  assumes ok: "cache_ok hf c as (k # ks)"
  shows "\<exists>c' as'. Mru_DelVictim hf c = Some c' \<and> cache_ok hf c' as' ks \<and> lmax c' = lmax c"
proof -
  note D = cache_okD [OF ok]
  obtain a bs where asb: "as = a # bs" using D(5) by (cases as) auto
  have ok': "cache_ok hf c ([] @ a # bs) ([] @ k # ks)" using ok asb by simp
  obtain d h l where v: "Mru_DelVictim hf c = Some (c\<lparr>ldict := d, lheap := h, llist := l\<rparr>)" "ht_inv hf fst d"
      "ht_map fst d = (ht_map fst (ldict c))(k := None)" "blist_ok h l bs" "relinked (set bs) ((lheap c)(a := None)) h"
    using Mru_DelVictim_ok [OF D(1) D(2) [unfolded asb] D(3) [unfolded asb] refl] by blast
  then show ?thesis using unlink_ok [OF ok' _ v(2,3)] by auto
qed

lemma Mru_UpdateEntry_ok:
  assumes ok: "cache_ok hf c as ks" and "0 < lmax c"
  shows "\<exists>c' as'. Mru_UpdateEntry hf k c = Some (Some k, c') \<and> cache_ok hf c' as' (mru_touch (lmax c) k ks) \<and> lmax c' = lmax c"
proof -
  note D = cache_okD [OF ok]
  have cnt: "bcount (llist c) = length ks" using D(2,5) by (simp add: blist_ok_def)
  consider (old) "k \<in> set ks" | (room) "k \<notin> set ks" "length ks < lmax c" | (full) "k \<notin> set ks" "length ks = lmax c"
    using D(6) by fastforce
  then show ?thesis
  proof cases
    case old
    with update_existing [OF ok old] assms(2) cache_Front show ?thesis by (fastforce simp: Mru_UpdateEntry_def mru_touch_def)
  next
    case room
    obtain d where d: "InsertWithDuplicate hf fst (k, None) (ldict c) = Some (True, (k, None), d)" "ht_inv hf fst d"
        "ht_map fst d = (ht_map fst (ldict c))(k \<mapsto> (k, None))"
      using InsertWithDuplicate_key(2) [OF ok room(1)] by blast
    obtain c' where "push_new k (c\<lparr>ldict := d\<rparr>) = Some c'" "cache_ok hf c' (lnext c # as) (k # ks)" "lmax c' = lmax c"
      using push_new_ok [of hf "c\<lparr>ldict := d\<rparr>", OF _ _ D(4) room(1)] d(2,3) D room(2) by auto
    with d room cnt cache_Front show ?thesis by (fastforce simp: Mru_UpdateEntry_def mru_touch_def)
  next
    case full
    obtain d where d: "InsertWithDuplicate hf fst (k, None) (ldict c) = Some (True, (k, None), d)" "ht_inv hf fst d"
        "ht_map fst d = (ht_map fst (ldict c))(k \<mapsto> (k, None))"
      using InsertWithDuplicate_key(2) [OF ok full(1)] by blast
    obtain b us where ks: "ks = b # us" using full(2) assms(2) by (cases ks) auto
    obtain a bs where asb: "as = a # bs" using D(5) ks by (cases as) auto
    have ok': "cache_ok hf c ([] @ a # bs) ([] @ b # us)" using ok ks asb by simp
    obtain d' h l where v: "Mru_DelVictim hf (c\<lparr>ldict := d\<rparr>) = Some (c\<lparr>ldict := d', lheap := h, llist := l\<rparr>)" "ht_inv hf fst d'"
        "ht_map fst d' = (ht_map fst d)(b := None)" "blist_ok h l bs" "relinked (set bs) ((lheap c)(a := None)) h"
      using Mru_DelVictim_ok [OF d(2), of "c\<lparr>ldict := d\<rparr>" a bs b us] D(2,3) asb ks by auto
    have dn: "bvals h bs = us" "\<And>x. h x \<noteq> None \<Longrightarrow> x < lnext c" using dropped_node [OF ok'] v(5) by auto
    have m': "ht_map fst d' = ((ht_map fst (ldict c))(b := None))(k \<mapsto> (k, None))"
      using v(3) d(3) full(1) ks by (auto simp: fun_upd_twist)
    have lk: "linked_to ((ht_map fst (ldict c))(b := None)) us bs"
      using linked_to_mid(2) [OF cache_okD(4) [OF ok']] by simp
    obtain c' where "push_new k (c\<lparr>ldict := d', lheap := h, llist := l\<rparr>) = Some c'" "cache_ok hf c' (lnext c # bs) (k # us)" "lmax c' = lmax c"
      using push_new_ok [of hf "c\<lparr>ldict := d', lheap := h, llist := l\<rparr>", OF _ _ lk, where k = k] v(2,4) m' dn D(7) full ks by auto
    with d v(1) full cnt ks cache_Front show ?thesis by (fastforce simp: Mru_UpdateEntry_def mru_touch_def)
  qed
qed

lemma Lru_DelEntry_ok:
  assumes ok: "cache_ok hf c as ks"
  shows "\<exists>c' as'. Lru_DelEntry hf k c = Some (k \<in> set ks, c') \<and> cache_ok hf c' as' (remove1 k ks) \<and> lmax c' = lmax c"
proof (cases "k \<in> set ks")
  case True
  note D = cache_okD [OF ok]
  obtain bs a cs us vs where s: "as = bs @ a # cs" "ks = us @ k # vs" "length us = length bs" "k \<notin> set us"
      "ht_map fst (ldict c) k = Some (k, Some a)"
    by (rule cache_split [OF ok True])
  obtain d where d: "HashTable_Extract hf fst k (ldict c) = Some (Some (k, Some a), d)" "ht_inv hf fst d"
      "ht_map fst d = (ht_map fst (ldict c))(k := None)"
    using Extract_ok [OF D(1), of k] s(5) by (auto simp del: fun_upd_apply)
  obtain h l where e: "Blist_Erase a (lheap c) (llist c) = Some (h, l)" "blist_ok h l (bs @ cs)"
      "relinked (set (bs @ cs)) ((lheap c)(a := None)) h"
    using Erase_ok [OF D(2) [unfolded s(1)]] by blast
  have "cache_ok hf (c\<lparr>ldict := d, lheap := h, llist := l\<rparr>) (bs @ cs) (us @ vs)"
    by (rule unlink_ok [OF ok [unfolded s(1,2)] s(3) d(2,3) e(2,3)])
  with d(1) e(1) s show ?thesis by (auto simp: Lru_DelEntry_def remove1_append)
next
  case False
  note D = cache_okD [OF ok]
  have "ht_map fst (ldict c) k = None" using False linked_to_dom [OF D(4), of k] by blast
  moreover from this obtain d where "HashTable_Extract hf fst k (ldict c) = Some (None, d)" "ht_inv hf fst d"
      "ht_map fst d = ht_map fst (ldict c)"
    using Extract_ok [OF D(1), of k] by (auto simp: fun_upd_idem simp del: fun_upd_apply)
  ultimately show ?thesis using ok False by (auto simp: Lru_DelEntry_def cache_ok_def remove1_idem)
qed

lemma Mru_DelEntry_Lru: "Mru_DelEntry = Lru_DelEntry"
  by (simp add: fun_eq_iff Mru_DelEntry_def Lru_DelEntry_def)

section \<open>The contract of the cache interface\<close>

text \<open>
  What the database relies on: an update makes the key an entry, a deletion removes it, and while there are
  entries the victim is one of them and \<^verbatim>\<open>DelVictim\<close> removes exactly it. \<open>room\<close> says that the cache is not full.
\<close>

fun repeat_op :: "nat \<Rightarrow> ('s \<Rightarrow> 's option) \<Rightarrow> 's \<Rightarrow> 's option" where
  "repeat_op 0 f s = Some s"
| "repeat_op (Suc n) f s = do { s \<leftarrow> f s; repeat_op n f s }"

locale cache_interface =
  fixes invar :: "'s \<Rightarrow> bool"
    and entries :: "'s \<Rightarrow> 'k set"
    and room :: "'s \<Rightarrow> bool"
    and upd :: "'k \<Rightarrow> 's \<Rightarrow> 's option"
    and del :: "'k \<Rightarrow> 's \<Rightarrow> 's option"
    and victim :: "'s \<Rightarrow> 'k option"
    and delv :: "'s \<Rightarrow> 's option"
  assumes upd_law: "invar s \<Longrightarrow> k \<in> entries s \<or> room s \<Longrightarrow>
      \<exists>s'. upd k s = Some s' \<and> invar s' \<and> entries s' = insert k (entries s)"
    and upd_full: "invar s \<Longrightarrow> k \<notin> entries s \<Longrightarrow> \<not> room s \<Longrightarrow>
      \<exists>s' v. upd k s = Some s' \<and> invar s' \<and> victim s = Some v \<and> entries s' = insert k (entries s - {v})"
    and del_law: "invar s \<Longrightarrow> \<exists>s'. del k s = Some s' \<and> invar s' \<and> entries s' = entries s - {k}"
    and victim_law: "invar s \<Longrightarrow> entries s \<noteq> {} \<Longrightarrow>
      \<exists>v s'. victim s = Some v \<and> v \<in> entries s \<and> delv s = Some s' \<and> invar s' \<and> entries s' = entries s - {v}"
    and finite_entries: "invar s \<Longrightarrow> finite (entries s)"
begin

text \<open>Evicting down to nothing: as many evictions as there are entries return and empty the cache.\<close>

lemma evict_all:
  "invar s \<Longrightarrow> card (entries s) = n \<Longrightarrow>
   \<exists>s'. repeat_op n delv s = Some s' \<and> invar s' \<and> entries s' = {}"
proof (induction n arbitrary: s)
  case 0
  then show ?case using finite_entries [of s] by simp
next
  case (Suc n)
  then have "entries s \<noteq> {}" by auto
  then obtain v s1 where s1: "v \<in> entries s" "delv s = Some s1" "invar s1" "entries s1 = entries s - {v}"
    using victim_law [OF Suc.prems(1)] by blast
  then have "card (entries s1) = n" using Suc.prems(2) finite_entries [OF Suc.prems(1)] by simp
  from Suc.IH [OF s1(3) this] s1(2) show ?case by simp
qed

end

definition cache_entries :: "'k list_cache \<Rightarrow> 'k set" where
  "cache_entries c = dom (ht_map fst (ldict c))"

definition cache_invar :: "('k \<Rightarrow> nat) \<Rightarrow> 'k list_cache \<Rightarrow> bool" where
  "cache_invar hf c = (0 < lmax c \<and> (\<exists>as ks. cache_ok hf c as ks))"

definition cache_room :: "'k list_cache \<Rightarrow> bool" where
  "cache_room c = (bcount (llist c) < lmax c)"

lemma cache_entries_keys: "cache_ok hf c as ks \<Longrightarrow> cache_entries c = set ks"
  unfolding cache_entries_def by (rule set_eqI) (simp only: domIff linked_to_dom [OF cache_okD(4)])

lemma cache_room_iff: "cache_ok hf c as ks \<Longrightarrow> cache_room c \<longleftrightarrow> length ks < lmax c"
  by (auto simp: cache_room_def cache_ok_def blist_ok_def linked_to_def)

lemma cache_ok_distinct: "cache_ok hf c as ks \<Longrightarrow> distinct ks"
  by (simp add: cache_ok_def linked_to_def)

interpretation lru: cache_interface "cache_invar hf" cache_entries cache_room
    "\<lambda>k c. map_option snd (Lru_UpdateEntry hf k c)" "\<lambda>k c. map_option snd (Lru_DelEntry hf k c)"
    "\<lambda>c. Option.bind (Lru_Victim c) id" "Lru_DelVictim hf" for hf :: "'k \<Rightarrow> nat"
proof unfold_locales
  fix s :: "'k list_cache" and k :: 'k
  assume inv: "cache_invar hf s"
  then obtain as ks where ok: "cache_ok hf s as ks" and p: "0 < lmax s" by (auto simp: cache_invar_def)
  note E = cache_entries_keys [OF ok] and R = cache_room_iff [OF ok]
  obtain c' as' where u: "Lru_UpdateEntry hf k s = Some (Some k, c')" "cache_ok hf c' as' (lru_touch (lmax s) k ks)" "lmax c' = lmax s"
    using Lru_UpdateEntry_ok [OF ok p] by blast
  have uk: "cache_invar hf c'" "cache_entries c' = set (lru_touch (lmax s) k ks)"
    using u p cache_entries_keys [OF u(2)] by (auto simp: cache_invar_def)
  show "\<exists>s'. map_option snd (Lru_UpdateEntry hf k s) = Some s' \<and> cache_invar hf s' \<and> cache_entries s' = insert k (cache_entries s)"
    if "k \<in> cache_entries s \<or> cache_room s"
    using that u(1) uk E R cache_ok_distinct [OF ok] by (auto simp: lru_touch_def insert_absorb)
  show "\<exists>s' v. map_option snd (Lru_UpdateEntry hf k s) = Some s' \<and> cache_invar hf s' \<and> Option.bind (Lru_Victim s) id = Some v
      \<and> cache_entries s' = insert k (cache_entries s - {v})" if "k \<notin> cache_entries s" "\<not> cache_room s"
  proof -
    have ne: "ks \<noteq> []" using that(2) R p by auto
    moreover have "set (butlast ks) = set ks - {last ks}"
      using cache_ok_distinct [OF ok] ne by (cases ks rule: rev_cases) auto
    ultimately show ?thesis using that u(1) uk E R cache_ends [OF ok ne] by (auto simp: lru_touch_def Lru_Victim_def)
  qed
  obtain d' ad where d: "Lru_DelEntry hf k s = Some (k \<in> set ks, d')" "cache_ok hf d' ad (remove1 k ks)" "lmax d' = lmax s"
    using Lru_DelEntry_ok [OF ok] by blast
  then show "\<exists>s'. map_option snd (Lru_DelEntry hf k s) = Some s' \<and> cache_invar hf s' \<and> cache_entries s' = cache_entries s - {k}"
    using E p cache_entries_keys [OF d(2)] cache_ok_distinct [OF ok] by (auto simp: cache_invar_def)
  show "\<exists>v s'. Option.bind (Lru_Victim s) id = Some v \<and> v \<in> cache_entries s \<and> Lru_DelVictim hf s = Some s'
      \<and> cache_invar hf s' \<and> cache_entries s' = cache_entries s - {v}" if "cache_entries s \<noteq> {}"
  proof -
    have ne: "ks \<noteq> []" using that E by auto
    obtain c2 a2 where c2: "Lru_DelVictim hf s = Some c2" "cache_ok hf c2 a2 (butlast ks)" "lmax c2 = lmax s"
      using Lru_DelVictim_ok [OF ok ne] by blast
    moreover have "set (butlast ks) = set ks - {last ks}"
      using cache_ok_distinct [OF ok] ne by (cases ks rule: rev_cases) auto
    ultimately show ?thesis using E p ne cache_ends [OF ok ne] cache_entries_keys [OF c2(2)]
      by (auto simp: Lru_Victim_def cache_invar_def)
  qed
  show "finite (cache_entries s)" using E by simp
qed

interpretation mru: cache_interface "cache_invar hf" cache_entries cache_room
    "\<lambda>k c. map_option snd (Mru_UpdateEntry hf k c)" "\<lambda>k c. map_option snd (Mru_DelEntry hf k c)"
    Mru_Victim "Mru_DelVictim hf" for hf :: "'k \<Rightarrow> nat"
proof unfold_locales
  fix s :: "'k list_cache" and k :: 'k
  assume inv: "cache_invar hf s"
  then obtain as ks where ok: "cache_ok hf s as ks" and p: "0 < lmax s" by (auto simp: cache_invar_def)
  note E = cache_entries_keys [OF ok] and R = cache_room_iff [OF ok]
  obtain c' as' where u: "Mru_UpdateEntry hf k s = Some (Some k, c')" "cache_ok hf c' as' (mru_touch (lmax s) k ks)" "lmax c' = lmax s"
    using Mru_UpdateEntry_ok [OF ok p] by blast
  have uk: "cache_invar hf c'" "cache_entries c' = set (mru_touch (lmax s) k ks)"
    using u p cache_entries_keys [OF u(2)] by (auto simp: cache_invar_def)
  have hdtl: "set (tl ks) = set ks - {hd ks}" if "ks \<noteq> []"
    using cache_ok_distinct [OF ok] that by (cases ks) auto
  show "\<exists>s'. map_option snd (Mru_UpdateEntry hf k s) = Some s' \<and> cache_invar hf s' \<and> cache_entries s' = insert k (cache_entries s)"
    if "k \<in> cache_entries s \<or> cache_room s"
    using that u(1) uk E R cache_ok_distinct [OF ok] by (auto simp: mru_touch_def insert_absorb)
  show "\<exists>s' v. map_option snd (Mru_UpdateEntry hf k s) = Some s' \<and> cache_invar hf s' \<and> Mru_Victim s = Some v
      \<and> cache_entries s' = insert k (cache_entries s - {v})" if "k \<notin> cache_entries s" "\<not> cache_room s"
  proof -
    have ne: "ks \<noteq> []" using that(2) R p by auto
    then show ?thesis using that u(1) uk E R cache_ends [OF ok ne] hdtl [OF ne] by (auto simp: mru_touch_def Mru_Victim_def)
  qed
  show "\<exists>s'. map_option snd (Mru_DelEntry hf k s) = Some s' \<and> cache_invar hf s' \<and> cache_entries s' = cache_entries s - {k}"
    unfolding Mru_DelEntry_Lru by (rule lru.del_law [OF inv])
  show "\<exists>v s'. Mru_Victim s = Some v \<and> v \<in> cache_entries s \<and> Mru_DelVictim hf s = Some s'
      \<and> cache_invar hf s' \<and> cache_entries s' = cache_entries s - {v}" if "cache_entries s \<noteq> {}"
  proof -
    have ne: "ks \<noteq> []" using that E by auto
    then have ok': "cache_ok hf s as (hd ks # tl ks)" using ok by simp
    obtain c2 a2 where c2: "Mru_DelVictim hf s = Some c2" "cache_ok hf c2 a2 (tl ks)" "lmax c2 = lmax s"
      using Mru_DelVictim_keys [OF ok'] by blast
    then show ?thesis using E p ne cache_ends [OF ok ne] hdtl [OF ne] cache_entries_keys [OF c2(2)]
      by (auto simp: Mru_Victim_def cache_invar_def)
  qed
  show "finite (cache_entries s)" using E by simp
qed

section \<open>Properties\<close>

lemma cache_new_ok:
  fixes hf :: "'k \<Rightarrow> nat"
  assumes "n < 2 ^ 64"
  shows "cache_ok hf (cache_new n) [] []"
proof -
  note new = HashTable_new_ok [of hf "fst :: 'k \<times> addr option \<Rightarrow> 'k"]
  have "ht_map fst (HashTable_new :: ('k \<times> addr option) hash_table) = Map.empty"
    using new by (simp add: ht_map_def keyed_map_def)
  with new assms show ?thesis by (simp add: cache_ok_def cache_new_def blist_ok_Nil linked_to_def)
qed

fun touch_all :: "('k \<Rightarrow> 'c \<Rightarrow> ('k option \<times> 'c) option) \<Rightarrow> 'k list \<Rightarrow> 'c \<Rightarrow> 'c option" where
  "touch_all upd [] c = Some c"
| "touch_all upd (k # ks) c = do { (_, c) \<leftarrow> upd k c; touch_all upd ks c }"

lemma touch_all_lru:
  "cache_ok hf c as ks \<Longrightarrow> 0 < lmax c \<Longrightarrow> \<exists>c' as'. touch_all (Lru_UpdateEntry hf) xs c = Some c'
     \<and> cache_ok hf c' as' (fold (lru_touch (lmax c)) xs ks) \<and> lmax c' = lmax c"
proof (induction xs arbitrary: c as ks)
  case (Cons x xs)
  obtain c1 a1 where c1: "Lru_UpdateEntry hf x c = Some (Some x, c1)" "cache_ok hf c1 a1 (lru_touch (lmax c) x ks)" "lmax c1 = lmax c"
    using Lru_UpdateEntry_ok [OF Cons.prems] by blast
  from Cons.IH [OF c1(2)] c1(1,3) Cons.prems(2) show ?case by simp
qed auto

lemma touch_all_mru:
  "cache_ok hf c as ks \<Longrightarrow> 0 < lmax c \<Longrightarrow> \<exists>c' as'. touch_all (Mru_UpdateEntry hf) xs c = Some c'
     \<and> cache_ok hf c' as' (fold (mru_touch (lmax c)) xs ks) \<and> lmax c' = lmax c"
proof (induction xs arbitrary: c as ks)
  case (Cons x xs)
  obtain c1 a1 where c1: "Mru_UpdateEntry hf x c = Some (Some x, c1)" "cache_ok hf c1 a1 (mru_touch (lmax c) x ks)" "lmax c1 = lmax c"
    using Mru_UpdateEntry_ok [OF Cons.prems] by blast
  from Cons.IH [OF c1(2)] c1(1,3) Cons.prems(2) show ?case by simp
qed auto



text \<open>
  MRU order. From an empty MRU cache of size \<open>n > 0\<close>, any sequence of updates returns and leaves the keys in
  the order of their last use; the victim is the key used last, and the one a new key replaces when the
  cache is full.
\<close>

theorem mru_cache_policy:
  assumes "0 < n" "n < 2 ^ 64" "fold (mru_touch n) xs [] = v # ks"
  shows "case touch_all (Mru_UpdateEntry hf) xs (cache_new n) of None \<Rightarrow> False | Some c \<Rightarrow>
    cache_keys hf c (v # ks) \<and> Mru_Victim c = Some v
    \<and> (case Mru_DelVictim hf c of None \<Rightarrow> False | Some c' \<Rightarrow> cache_keys hf c' ks)"
proof -
  obtain c as where c: "touch_all (Mru_UpdateEntry hf) xs (cache_new n) = Some c" "cache_ok hf c as (v # ks)"
    using touch_all_mru [OF cache_new_ok [OF assms(2)], of hf xs] assms by (auto simp: cache_new_def)
  obtain c' as' where "Mru_DelVictim hf c = Some c'" "cache_ok hf c' as' ks"
    using Mru_DelVictim_keys [OF c(2)] by auto
  with c cache_Front [OF c(2)] show ?thesis by (auto simp: cache_keys_def Mru_Victim_def)
qed

theorem mru_cache_policy_witness:
  "case touch_all (Mru_UpdateEntry (\<lambda>k. k)) [1, 2, 3] (cache_new 2 :: nat list_cache) of None \<Rightarrow> False
   | Some c \<Rightarrow> Mru_Victim c = Some 3"
  using mru_cache_policy [of 2 "[1, 2, 3]" 3 "[1]" "\<lambda>k :: nat. k"] by (auto simp: mru_touch_def split: option.splits)

text \<open>
  Eviction ends. On both caches, evicting as many times as there are entries returns and leaves the
  cache empty and consistent.
\<close>

theorem cache_eviction_ends:
  assumes "cache_invar hf c" "card (cache_entries c) = n"
  shows "(\<exists>c'. repeat_op n (Lru_DelVictim hf) c = Some c' \<and> cache_invar hf c' \<and> cache_entries c' = {})
    \<and> (\<exists>c'. repeat_op n (Mru_DelVictim hf) c = Some c' \<and> cache_invar hf c' \<and> cache_entries c' = {})"
  using lru.evict_all [OF assms] mru.evict_all [OF assms] by blast

theorem cache_eviction_ends_witness:
  "\<exists>c'. repeat_op 0 (Lru_DelVictim (\<lambda>k. k)) (cache_new 3 :: nat list_cache) = Some c' \<and> cache_entries c' = {}"
proof -
  have ok: "cache_ok (\<lambda>k. k) (cache_new 3 :: nat list_cache) [] []" by (rule cache_new_ok) simp
  then have "cache_invar (\<lambda>k. k) (cache_new 3 :: nat list_cache)" by (auto simp: cache_invar_def cache_new_def)
  from cache_eviction_ends [OF this, of 0] cache_entries_keys [OF ok] show ?thesis by auto
qed

end
