(* ===== verification/Vset.thy ===== *)
theory Vset
  imports Complex_Main AvlProps HashTable
begin

text \<open>
  The sorted set of \<^verbatim>\<open>db/vset.h\<close> and \<^verbatim>\<open>db/vset.cc\<close>: an AVL tree ordered by weight and a dictionary from
  member to weight. Weights are the non-NaN doubles, taken as reals. A tree element holds its member by
  value where the code keeps a pointer to the dictionary's key.

  An iterator is the in-order position of its node, or \<open>None\<close> for the null \<^verbatim>\<open>end()\<close>; erasing a node moves
  the positions behind it down by one. Moving or reading a null iterator is undefined behaviour and
  gives \<open>None\<close>. Counters of type \<^verbatim>\<open>int64_t\<close> and \<^verbatim>\<open>size_t\<close> are kept at their width.
\<close>

section \<open>Operations\<close>

definition DoubleComparator :: "real \<Rightarrow> real \<Rightarrow> int" where
  "DoubleComparator x y = (if y < x then 1 else if x = y then 0 else - 1)"

type_synonym weight_value = "real \<times> string"
type_synonym iter = "nat option"

record vset =
  vtree :: "weight_value avl_tree"
  vdict :: "(string \<times> real) hash_table"

definition Vset_new :: vset where
  "Vset_new = \<lparr>vtree = \<lparr>root_of = Null, count_of = 0\<rparr>, vdict = HashTable_new\<rparr>"

definition Vset_Insert :: "(string \<Rightarrow> nat) \<Rightarrow> real \<Rightarrow> string \<Rightarrow> vset \<Rightarrow> (bool \<times> vset) option" where
  "Vset_Insert hf w member v =
     do { (kv, d) \<leftarrow> HashTable_Insert hf fst (member, w) (vdict v);
          case kv of
            None \<Rightarrow> Some (False, v\<lparr>vdict := d\<rparr>)
          | Some e \<Rightarrow> do { t \<leftarrow> AvlTree_InsertEq DoubleComparator fst (w, fst e) (vtree v);
                          Some (True, \<lparr>vtree = t, vdict = d\<rparr>) } }"

fun Vset_of :: "(string \<Rightarrow> nat) \<Rightarrow> weight_value list \<Rightarrow> vset \<Rightarrow> vset option" where
  "Vset_of hf [] v = Some v"
| "Vset_of hf ((w, m) # wms) v = do { (_, v) \<leftarrow> Vset_Insert hf w m v; Vset_of hf wms v }"

definition Vset_Erase :: "(string \<Rightarrow> nat) \<Rightarrow> string \<Rightarrow> vset \<Rightarrow> (bool \<times> vset) option" where
  "Vset_Erase hf member v =
     do { (node, d) \<leftarrow> HashTable_Extract hf fst member (vdict v);
          case node of
            None \<Rightarrow> Some (False, v\<lparr>vdict := d\<rparr>)
          | Some e \<Rightarrow> do { (_, t) \<leftarrow> AvlTree_Erase_pred DoubleComparator fst (snd e) (\<lambda>x. snd x = fst e) (vtree v);
                          Some (True, \<lparr>vtree = t, vdict = d\<rparr>) } }"

subsection \<open>Iterators\<close>

fun pos_of :: "nat \<Rightarrow> 'a avl_node \<Rightarrow> dir list" where
  "pos_of i Null = []"
| "pos_of i (Node l a h r) =
     (if i < avl_size l then L # pos_of i l else if i = avl_size l then [] else R # pos_of (i - Suc (avl_size l)) r)"

definition iter_at :: "'a avl_node \<Rightarrow> dir list option \<Rightarrow> iter" where
  "iter_at t p = map_option (\<lambda>q. pos_index q t) p"

definition tree_begin :: "'a avl_tree \<Rightarrow> iter" where
  "tree_begin t = iter_at (root_of t) (GetFirstNode (root_of t))"

definition tree_before_end :: "'a avl_tree \<Rightarrow> iter" where
  "tree_before_end t = iter_at (root_of t) (GetLastNode (root_of t))"

definition iter_inc :: "'a avl_tree \<Rightarrow> iter \<Rightarrow> iter option" where
  "iter_inc t it = do { i \<leftarrow> it; Some (iter_at (root_of t) (GetNextNode (root_of t) (pos_of i (root_of t)))) }"

definition iter_dec :: "'a avl_tree \<Rightarrow> iter \<Rightarrow> iter option" where
  "iter_dec t it = do { i \<leftarrow> it; Some (iter_at (root_of t) (GetPrevNode (root_of t) (pos_of i (root_of t)))) }"

definition iter_deref :: "'a avl_tree \<Rightarrow> iter \<Rightarrow> 'a option" where
  "iter_deref t it = do { i \<leftarrow> it; value_at (pos_of i (root_of t)) (root_of t) }"

text \<open>\<^verbatim>\<open>Erase(const_iterator)\<close>, and where another node is after the node at \<open>it\<close> has been erased.\<close>

definition tree_Erase :: "iter \<Rightarrow> 'a avl_tree \<Rightarrow> (bool \<times> 'a avl_tree) option" where
  "tree_Erase it t = AvlTree_EraseNode (map_option (\<lambda>i. pos_of i (root_of t)) it) t"

definition renumber :: "iter \<Rightarrow> iter \<Rightarrow> iter" where
  "renumber erased it = map_option (\<lambda>j. if (case erased of None \<Rightarrow> False | Some i \<Rightarrow> i < j) then j - 1 else j) it"

fun advance :: "(iter \<Rightarrow> iter option) \<Rightarrow> nat \<Rightarrow> iter \<Rightarrow> iter option" where
  "advance step 0 it = Some it"
| "advance step (Suc n) it = do { it \<leftarrow> step it; advance step n it }"

subsection \<open>Ranges by order\<close>

definition int64 :: "int \<Rightarrow> int" where
  "int64 x = sint (word_of_int x :: 64 word)"

definition size_t :: "int \<Rightarrow> int" where
  "size_t x = x mod 2 ^ 64"

text \<open>The number of rounds of \<^verbatim>\<open>while (x--)\<close> for an \<^verbatim>\<open>int64_t\<close> \<open>x\<close>: a negative \<open>x\<close> wraps around to zero.\<close>

definition rounds :: "int \<Rightarrow> nat" where
  "rounds x = nat (size_t x)"

definition tree_size :: "'a avl_tree \<Rightarrow> int" where
  "tree_size t = uint (count_of t)"

definition N2P :: "'a avl_tree \<Rightarrow> int \<Rightarrow> int" where
  "N2P t x = int64 (if x < 0 then size_t (tree_size t - x) else x)"

definition VSET_MIN :: "int \<Rightarrow> int \<Rightarrow> int" where
  "VSET_MIN x y = (if x < y then x else y)"

fun erase_fwd :: "nat \<Rightarrow> iter \<Rightarrow> 'a avl_tree \<Rightarrow> nat \<Rightarrow> (nat \<times> 'a avl_tree) option" where
  "erase_fwd 0 it t ret = Some (ret, t)"
| "erase_fwd (Suc c) it t ret =
     do { it' \<leftarrow> iter_inc t it; (ok, t) \<leftarrow> tree_Erase it t; erase_fwd c (renumber it it') t (if ok then ret + 1 else ret) }"

fun erase_bwd :: "nat \<Rightarrow> iter \<Rightarrow> 'a avl_tree \<Rightarrow> nat \<Rightarrow> (nat \<times> 'a avl_tree) option" where
  "erase_bwd 0 it t ret = Some (ret, t)"
| "erase_bwd (Suc c) it t ret =
     do { it' \<leftarrow> iter_dec t it; (ok, t) \<leftarrow> tree_Erase it t; erase_bwd c (renumber it it') t (if ok then ret + 1 else ret) }"

definition Vset_EraseRange :: "int \<Rightarrow> int \<Rightarrow> vset \<Rightarrow> (nat \<times> vset) option" where
  "Vset_EraseRange left right v =
     (let t = vtree v; left = N2P t left; right = int64 (VSET_MIN (size_t (N2P t right)) (tree_size t)) in
      if right \<le> left then Some (0, v)
      else let count = int64 (right - left + 1); right = int64 (tree_size t - 1 - right) in
        if left < right
        then do { it \<leftarrow> advance (iter_inc t) (rounds left) (tree_begin t);
                  (ret, t') \<leftarrow> erase_fwd (rounds count) it t 0; Some (ret, v\<lparr>vtree := t'\<rparr>) }
        else do { it \<leftarrow> advance (iter_dec t) (rounds right) (tree_before_end t);
                  (ret, t') \<leftarrow> erase_bwd (rounds count) it t 0; Some (ret, v\<lparr>vtree := t'\<rparr>) })"

fun range_loop :: "'a avl_tree \<Rightarrow> nat \<Rightarrow> iter \<Rightarrow> 'a list \<Rightarrow> 'a list option" where
  "range_loop t 0 it values = Some values"
| "range_loop t (Suc c) it values = (if it = None then Some values
     else do { x \<leftarrow> iter_deref t it; it' \<leftarrow> iter_inc t it; range_loop t c it' (values @ [x]) })"

definition Vset_GetRange :: "int \<Rightarrow> int \<Rightarrow> vset \<Rightarrow> weight_value list option" where
  "Vset_GetRange left right v =
     (let t = vtree v; left = N2P t left; right = int64 (VSET_MIN (tree_size t) (size_t (N2P t right)));
          count = int64 (right - left + 1) in
      do { it \<leftarrow> advance (iter_inc t) (rounds left) (tree_begin t); range_loop t (rounds count) it [] })"

fun rrange_loop :: "'a avl_tree \<Rightarrow> iter \<Rightarrow> nat \<Rightarrow> iter \<Rightarrow> 'a list \<Rightarrow> 'a list option" where
  "rrange_loop t first 0 it values = Some values"
| "rrange_loop t first (Suc c) it values =
     do { x \<leftarrow> iter_deref t it;
          if it = first then Some (values @ [x])
          else do { it' \<leftarrow> iter_dec t it; rrange_loop t first c it' (values @ [x]) } }"

definition Vset_GetRRange :: "int \<Rightarrow> int \<Rightarrow> vset \<Rightarrow> weight_value list option" where
  "Vset_GetRRange left right v =
     (let t = vtree v; left = N2P t left; right = int64 (VSET_MIN (size_t (N2P t right)) (tree_size t));
          count = int64 (right - left + 1) in
      do { it \<leftarrow> advance (iter_dec t) (rounds left) (tree_before_end t);
           rrange_loop t (tree_begin t) (rounds count) it [] })"

subsection \<open>Ranges by weight\<close>

definition tree_LowerBound :: "real \<Rightarrow> weight_value avl_tree \<Rightarrow> iter" where
  "tree_LowerBound w t = iter_at (root_of t) (LowerBound DoubleComparator fst w (root_of t))"

definition tree_UpperBound :: "real \<Rightarrow> weight_value avl_tree \<Rightarrow> iter" where
  "tree_UpperBound w t = iter_at (root_of t) (UpperBound DoubleComparator fst w (root_of t))"

text \<open>The \<^verbatim>\<open>for (;;)\<close> loops leave only through the comparison with the other bound.\<close>

partial_function (option) erase_until :: "iter \<Rightarrow> iter \<Rightarrow> 'a avl_tree \<Rightarrow> nat \<Rightarrow> (nat \<times> 'a avl_tree) option" where
  "erase_until it stop t ret =
     do { it' \<leftarrow> iter_inc t it;
          r \<leftarrow> tree_Erase it t;
          if it' = stop then Some (ret + 1, snd r)
          else erase_until (renumber it it') (renumber it stop) (snd r) (ret + 1) }"

definition Vset_EraseRangeByWeight :: "real \<Rightarrow> real \<Rightarrow> vset \<Rightarrow> (nat \<times> vset) option" where
  "Vset_EraseRangeByWeight left right v =
     (let t = vtree v; left_bound = tree_LowerBound left t in
      if left_bound = None then Some (0, v)
      else do { (ret, t) \<leftarrow> erase_until left_bound (tree_UpperBound right t) t 0; Some (ret, v\<lparr>vtree := t\<rparr>) })"

partial_function (option) collect_until :: "'a avl_tree \<Rightarrow> iter \<Rightarrow> iter \<Rightarrow> 'a list \<Rightarrow> 'a list option" where
  "collect_until t it stop values =
     do { x \<leftarrow> iter_deref t it;
          it' \<leftarrow> iter_inc t it;
          if it' = stop then Some (values @ [x]) else collect_until t it' stop (values @ [x]) }"

definition Vset_GetRangeByWeight :: "real \<Rightarrow> real \<Rightarrow> vset \<Rightarrow> weight_value list option" where
  "Vset_GetRangeByWeight left right v =
     (let t = vtree v; left_bound = tree_LowerBound left t in
      if left_bound = None then Some [] else collect_until t left_bound (tree_UpperBound right t) [])"

partial_function (option) rcollect_until :: "'a avl_tree \<Rightarrow> iter \<Rightarrow> iter \<Rightarrow> 'a list \<Rightarrow> 'a list option" where
  "rcollect_until t first it values =
     do { it' \<leftarrow> iter_dec t it;
          x \<leftarrow> iter_deref t it';
          if first = it' then Some (values @ [x]) else rcollect_until t first it' (values @ [x]) }"

definition Vset_GetRRangeByWeight :: "real \<Rightarrow> real \<Rightarrow> vset \<Rightarrow> weight_value list option" where
  "Vset_GetRRangeByWeight left right v =
     rcollect_until (vtree v) (tree_LowerBound left (vtree v)) (tree_UpperBound right (vtree v)) []"

text \<open>\<^verbatim>\<open>std::distance\<close> on the tree's iterators.\<close>

partial_function (option) distance :: "'a avl_tree \<Rightarrow> iter \<Rightarrow> iter \<Rightarrow> nat \<Rightarrow> nat option" where
  "distance t first stop n =
     (if first = stop then Some n else do { first' \<leftarrow> iter_inc t first; distance t first' stop (n + 1) })"

definition Vset_GetSizeByWeight :: "real \<Rightarrow> real \<Rightarrow> vset \<Rightarrow> nat option" where
  "Vset_GetSizeByWeight left right v =
     (let first = tree_LowerBound left (vtree v) in
      if first = None then Some 0 else distance (vtree v) first (tree_UpperBound right (vtree v)) 0)"

subsection \<open>Queries on one member\<close>

definition Vset_GetWeight :: "(string \<Rightarrow> nat) \<Rightarrow> string \<Rightarrow> vset \<Rightarrow> (real option \<times> vset) option" where
  "Vset_GetWeight hf member v =
     do { (kv, d) \<leftarrow> HashTable_Find hf fst member (vdict v); Some (map_option snd kv, v\<lparr>vdict := d\<rparr>) }"

partial_function (option) order_loop :: "(iter \<Rightarrow> iter option) \<Rightarrow> (iter \<Rightarrow> 'a option) \<Rightarrow> 'a \<Rightarrow> iter \<Rightarrow> nat \<Rightarrow> nat option" where
  "order_loop step deref wm it order =
     do { x \<leftarrow> deref it;
          if x = wm then Some order else do { it' \<leftarrow> step it; order_loop step deref wm it' (order + 1) } }"

definition Vset_GetOrder :: "(string \<Rightarrow> nat) \<Rightarrow> string \<Rightarrow> vset \<Rightarrow> (nat option \<times> vset) option" where
  "Vset_GetOrder hf member v =
     do { (r, v) \<leftarrow> Vset_GetWeight hf member v;
          case r of
            None \<Rightarrow> Some (None, v)
          | Some w \<Rightarrow> do { order \<leftarrow> order_loop (iter_inc (vtree v)) (iter_deref (vtree v)) (w, member) (tree_begin (vtree v)) 0;
                          Some (Some order, v) } }"

definition Vset_GetROrder :: "(string \<Rightarrow> nat) \<Rightarrow> string \<Rightarrow> vset \<Rightarrow> (nat option \<times> vset) option" where
  "Vset_GetROrder hf member v =
     do { (r, v) \<leftarrow> Vset_GetWeight hf member v;
          case r of
            None \<Rightarrow> Some (None, v)
          | Some w \<Rightarrow> do { order \<leftarrow> order_loop (iter_dec (vtree v)) (iter_deref (vtree v)) (w, member) (tree_before_end (vtree v)) 0;
                          Some (Some order, v) } }"

text \<open>\<^verbatim>\<open>GetSize\<close> with its assertion.\<close>

definition Vset_GetSize :: "vset \<Rightarrow> int option" where
  "Vset_GetSize v =
     (if tree_size (vtree v) = int (used (table1 (vdict v))) then Some (tree_size (vtree v)) else None)"

definition Vset_GetAll :: "vset \<Rightarrow> weight_value list" where
  "Vset_GetAll v = DoInAll (root_of (vtree v))"

section \<open>Iterators as positions\<close>

interpretation dbl: comparator DoubleComparator
  by unfold_locales (auto simp: DoubleComparator_def split: if_splits)

abbreviation elems :: "'a avl_tree \<Rightarrow> 'a list" where
  "elems t \<equiv> inorder (root_of t)"

text \<open>The iterator of position \<open>i\<close>, which is \<^verbatim>\<open>end()\<close> past the last element.\<close>

definition at_pos :: "'a avl_tree \<Rightarrow> nat \<Rightarrow> iter" where
  "at_pos t i = (if i < length (elems t) then Some i else None)"

lemma pos_of_ok: "i < avl_size t \<Longrightarrow> valid_pos (pos_of i t) t \<and> pos_index (pos_of i t) t = i"
  by (induction i t rule: pos_of.induct) auto

lemma tree_begin_at: "tree_begin t = at_pos t 0"
  using leftmost_pos [of "root_of t"] by (auto simp: tree_begin_def iter_at_def GetFirstNode_def at_pos_def is_Null_inorder)

lemma tree_before_end_at: "tree_before_end t = (if elems t = [] then None else Some (length (elems t) - 1))"
  using rightmost_pos [of "root_of t"] by (auto simp: tree_before_end_def iter_at_def GetLastNode_def is_Null_inorder)

lemma iter_null [simp]: "iter_inc t None = None" "iter_dec t None = None" "iter_deref t None = None"
  by (simp_all add: iter_inc_def iter_dec_def iter_deref_def)

lemma iter_inc_at: "i < length (elems t) \<Longrightarrow> iter_inc t (Some i) = Some (at_pos t (Suc i))"
  using GetNextNode_step [of "pos_of i (root_of t)" "root_of t"] pos_of_ok [of i "root_of t"]
    pos_index_less [of _ "root_of t"]
  by (fastforce simp: iter_inc_def iter_at_def at_pos_def split: option.splits)

lemma iter_dec_at: "i < length (elems t) \<Longrightarrow> iter_dec t (Some i) = Some (if i = 0 then None else Some (i - 1))"
  using GetPrevNode_step [of "pos_of i (root_of t)" "root_of t"] pos_of_ok [of i "root_of t"]
  by (fastforce simp: iter_dec_def iter_at_def split: option.splits)

lemma iter_deref_at: "i < length (elems t) \<Longrightarrow> iter_deref t (Some i) = Some (elems t ! i)"
  using value_at_pos [of "pos_of i (root_of t)" "root_of t"] pos_of_ok [of i "root_of t"]
  by (simp add: iter_deref_def)

lemma takeWhile_all: "\<forall>x \<in> set xs. P x \<Longrightarrow> takeWhile P xs = xs"
  by (simp add: takeWhile_eq_all_conv)

lemma takeWhile_less: "length (takeWhile P xs) < length xs \<longleftrightarrow> (\<exists>x \<in> set xs. \<not> P x)"
  by (induction xs) auto

lemma dbl_less [simp]: "DoubleComparator x y < 0 \<longleftrightarrow> x < y" "DoubleComparator x y \<le> 0 \<longleftrightarrow> x \<le> y"
    "DoubleComparator x y = 0 \<longleftrightarrow> x = y"
  by (auto simp: DoubleComparator_def)

lemma weak_sorted_dbl: "weak_sorted DoubleComparator fst xs \<longleftrightarrow> sorted (map fst xs)"
  by (simp add: weak_sorted_def sorted_wrt_map)

text \<open>The numbers of elements below a weight, and not above it.\<close>

definition below :: "real \<Rightarrow> weight_value avl_tree \<Rightarrow> nat" where
  "below w t = length (takeWhile (\<lambda>x. fst x < w) (elems t))"

definition not_above :: "real \<Rightarrow> weight_value avl_tree \<Rightarrow> nat" where
  "not_above w t = length (takeWhile (\<lambda>x. fst x \<le> w) (elems t))"

lemma bounds_at:
  assumes "sorted (map fst (elems t))"
  shows "tree_LowerBound w t = at_pos t (below w t)" "tree_UpperBound w t = at_pos t (not_above w t)"
  using dbl.LowerBound_index [of fst "root_of t" w] dbl.UpperBound_index [of fst "root_of t" w] assms
  by (auto simp: tree_LowerBound_def tree_UpperBound_def iter_at_def at_pos_def below_def not_above_def weak_sorted_dbl
      takeWhile_all dest!: pos_index_less split: option.splits)

lemma bound_parts:
  assumes "sorted (map fst (xs :: weight_value list))"
  shows "takeWhile (\<lambda>x. fst x < w) xs = filter (\<lambda>x. fst x < w) xs" "takeWhile (\<lambda>x. fst x \<le> w) xs = filter (\<lambda>x. fst x \<le> w) xs"
    "dropWhile (\<lambda>x. fst x < w) xs = filter (\<lambda>x. w \<le> fst x) xs" "dropWhile (\<lambda>x. fst x \<le> w) xs = filter (\<lambda>x. w < fst x) xs"
  using assms by (induction xs) (auto simp: filter_empty_conv intro!: filter_id_conv' [symmetric] filter_empty_conv' [symmetric])

section \<open>The loops over the tree\<close>

lemma take_drop_Suc: "i < j \<Longrightarrow> i < length xs \<Longrightarrow> take (j - i) (drop i xs) = xs ! i # take (j - Suc i) (drop (Suc i) xs)"
  by (metis Cons_nth_drop_Suc Suc_diff_Suc take_Suc_Cons)

lemma at_pos_eq: "i \<le> length (elems t) \<Longrightarrow> j \<le> length (elems t) \<Longrightarrow> at_pos t i = at_pos t j \<longleftrightarrow> i = j"
  by (auto simp: at_pos_def)

lemma collect_until_at:
  assumes "i < j" "j \<le> length (elems t)"
  shows "collect_until t (Some i) (at_pos t j) values = Some (values @ take (j - i) (drop i (elems t)))"
  using assms
proof (induction "j - i" arbitrary: i "values")
  case (Suc n)
  then have i: "i < length (elems t)" by simp
  show ?case
  proof (cases "Suc i = j")
    case True
    with i show ?thesis by (subst collect_until.simps) (simp add: iter_inc_at iter_deref_at take_drop_Suc)
  next
    case False
    with Suc i have "at_pos t (Suc i) \<noteq> at_pos t j" "at_pos t (Suc i) = Some (Suc i)" by (auto simp: at_pos_def)
    with Suc i False show ?thesis
      by (subst collect_until.simps) (simp add: iter_inc_at iter_deref_at take_drop_Suc)
  qed
qed simp

text \<open>A bound that is not ahead is never met: the loop runs off the end of the tree.\<close>

lemma collect_until_off:
  assumes "j \<le> i" "j < length (elems t)"
  shows "collect_until t (at_pos t i) (Some j) values = None"
  using assms
proof (induction "length (elems t) - i" arbitrary: i "values")
  case 0
  then show ?case by (subst collect_until.simps) (simp add: at_pos_def)
next
  case (Suc n)
  then have i: "i < length (elems t)" "at_pos t i = Some i" "at_pos t (Suc i) \<noteq> Some j" by (auto simp: at_pos_def)
  moreover have "collect_until t (at_pos t (Suc i)) (Some j) vs = None" for vs using Suc by simp
  ultimately show ?case by (subst collect_until.simps) (simp add: iter_inc_at iter_deref_at)
qed

lemma distance_at:
  assumes "i \<le> j" "j \<le> length (elems t)"
  shows "distance t (at_pos t i) (at_pos t j) n = Some (n + (j - i))"
  using assms
proof (induction "j - i" arbitrary: i n)
  case 0
  then show ?case by (subst distance.simps) simp
next
  case (Suc m)
  then have "at_pos t i = Some i" "at_pos t i \<noteq> at_pos t j" "i < length (elems t)" by (auto simp: at_pos_def)
  with Suc show ?case by (subst distance.simps) (simp add: iter_inc_at)
qed

lemma advance_inc:
  "i + n \<le> length (elems t) \<Longrightarrow> advance (iter_inc t) n (at_pos t i) = Some (at_pos t (i + n))"
proof (induction n arbitrary: i)
  case (Suc n)
  then have "at_pos t i = Some i" "i < length (elems t)" by (auto simp: at_pos_def)
  with Suc show ?case by (simp add: iter_inc_at)
qed simp

lemma advance_inc_off:
  "i \<le> length (elems t) \<Longrightarrow> length (elems t) < i + n \<Longrightarrow> advance (iter_inc t) n (at_pos t i) = None"
proof (induction n arbitrary: i)
  case (Suc n)
  show ?case
  proof (cases "i < length (elems t)")
    case True
    then have "at_pos t i = Some i" by (simp add: at_pos_def)
    with True Suc show ?thesis by (simp add: iter_inc_at)
  next
    case False
    then have "at_pos t i = None" by (simp add: at_pos_def)
    then show ?thesis by simp
  qed
qed simp

lemma advance_dec:
  "n \<le> i \<Longrightarrow> i < length (elems t) \<Longrightarrow> advance (iter_dec t) n (Some i) = Some (Some (i - n))"
  by (induction n arbitrary: i) (auto simp: iter_dec_at)

lemma range_loop_at:
  "i \<le> length (elems t) \<Longrightarrow> range_loop t n (at_pos t i) values = Some (values @ take n (drop i (elems t)))"
proof (induction n arbitrary: i "values")
  case (Suc n)
  show ?case
  proof (cases "i < length (elems t)")
    case True
    then have "take (Suc n) (drop i (elems t)) = elems t ! i # take n (drop (Suc i) (elems t))"
      by (metis Cons_nth_drop_Suc take_Suc_Cons)
    with True Suc show ?thesis by (simp add: at_pos_def [of t i] iter_inc_at iter_deref_at)
  qed (use Suc in \<open>simp add: at_pos_def\<close>)
qed simp

lemma order_loop_inc:
  assumes "j < length (elems t)" "elems t ! j = x" "\<And>k. k < j \<Longrightarrow> elems t ! k \<noteq> x" "i \<le> j"
  shows "order_loop (iter_inc t) (iter_deref t) x (Some i) n = Some (n + (j - i))"
  using assms(4)
proof (induction "j - i" arbitrary: i n)
  case 0
  with assms show ?case by (subst order_loop.simps) (simp add: iter_deref_at)
next
  case (Suc m)
  then have "elems t ! i \<noteq> x" "i < length (elems t)" "at_pos t (Suc i) = Some (Suc i)"
    using assms(1,3) by (auto simp: at_pos_def)
  with Suc show ?case by (subst order_loop.simps) (simp add: iter_deref_at iter_inc_at)
qed

lemma order_loop_dec:
  assumes "j < length (elems t)" "elems t ! j = x" "\<And>k. j < k \<Longrightarrow> k < length (elems t) \<Longrightarrow> elems t ! k \<noteq> x"
    "j \<le> i" "i < length (elems t)"
  shows "order_loop (iter_dec t) (iter_deref t) x (Some i) n = Some (n + (i - j))"
  using assms(4,5)
proof (induction "i - j" arbitrary: i n)
  case 0
  with assms show ?case by (subst order_loop.simps) (simp add: iter_deref_at)
next
  case (Suc m)
  then have "elems t ! i \<noteq> x" "i \<noteq> 0" using assms(3) by auto
  with Suc show ?case by (subst order_loop.simps) (simp add: iter_deref_at iter_dec_at)
qed

text \<open>Erasing through an iterator removes the element at its position.\<close>

definition vtree_ok :: "'a avl_tree \<Rightarrow> bool" where
  "vtree_ok t = (avl_root (root_of t) \<and> counted t)"

lemma tree_Erase_at:
  assumes "vtree_ok t" "i < length (elems t)"
  shows "\<exists>t'. tree_Erase (Some i) t = Some (True, t') \<and> vtree_ok t' \<and> elems t' = take i (elems t) @ drop (Suc i) (elems t)"
proof -
  note p = pos_of_ok [OF assms(2)]
  obtain r go where r: "Erase_node (pos_of i (root_of t)) (root_of t) = Some (r, go)"
      "inorder r = take i (elems t) @ drop (Suc i) (elems t)"
    using Erase_node_yields [of "root_of t" "pos_of i (root_of t)"] p assms(1) avl_root_nonneg
    by (auto simp: vtree_ok_def elim!: yieldsE)
  moreover have "avl_root r" using Erase_node_avl_root [OF _ r(1)] assms(1) by (simp add: vtree_ok_def)
  ultimately show ?thesis using assms
    by (auto simp: tree_Erase_def AvlTree_EraseNode_def Avl_EraseNode_def EraseRoutine_count_def vtree_ok_def counted_def)
qed

section \<open>Tree and dictionary agree\<close>

definition vset_ok :: "(string \<Rightarrow> nat) \<Rightarrow> vset \<Rightarrow> bool" where
  "vset_ok hf v = (ht_inv hf fst (vdict v) \<and> vtree_ok (vtree v) \<and> sorted (map fst (elems (vtree v)))
     \<and> mset (ht_elems (vdict v)) = mset (map prod.swap (elems (vtree v)))
     \<and> used (table1 (vdict v)) = length (elems (vtree v)) \<and> length (elems (vtree v)) < 2 ^ 64)"

text \<open>The weight of every member.\<close>

definition vset_map :: "vset \<Rightarrow> string \<rightharpoonup> real" where
  "vset_map v m = map_option snd (ht_map fst (vdict v) m)"

lemma vset_okD:
  assumes "vset_ok hf v"
  shows "ht_inv hf fst (vdict v)" "vtree_ok (vtree v)" "sorted (map fst (elems (vtree v)))"
    "distinct (map snd (elems (vtree v)))" "tree_size (vtree v) = int (length (elems (vtree v)))"
    "(w, m) \<in> set (elems (vtree v)) \<longleftrightarrow> vset_map v m = Some w"
proof -
  show 1: "ht_inv hf fst (vdict v)" "vtree_ok (vtree v)" "sorted (map fst (elems (vtree v)))"
    using assms by (simp_all add: vset_ok_def)
  have ms: "mset (ht_elems (vdict v)) = mset (map prod.swap (elems (vtree v)))" using assms by (simp add: vset_ok_def)
  have d: "distinct (map fst (ht_elems (vdict v)))" using ht_invD(2) [OF 1(1)] .
  have "mset (map fst (ht_elems (vdict v))) = mset (map snd (elems (vtree v)))"
    using arg_cong [OF ms, of "image_mset fst"] by (simp add: image_mset.compositionality comp_def)
  then show "distinct (map snd (elems (vtree v)))" using d mset_eq_imp_distinct_iff by blast
  show "tree_size (vtree v) = int (length (elems (vtree v)))"
    using assms by (simp add: vset_ok_def vtree_ok_def counted_def tree_size_def unsigned_of_nat take_bit_nat_eq_self)
  have "set (ht_elems (vdict v)) = prod.swap ` set (elems (vtree v))" using ms by (metis list.set_map mset_eq_setD)
  then have "(w, m) \<in> set (elems (vtree v)) \<longleftrightarrow> (m, w) \<in> set (ht_elems (vdict v))" by force
  also have "\<dots> \<longleftrightarrow> ht_map fst (vdict v) m = Some (m, w)"
    using ht_map_Some [OF d, of "(m, w)"] keyed_map_SomeD [of fst "ht_elems (vdict v)" m] by (auto simp: ht_map_def)
  also have "\<dots> \<longleftrightarrow> vset_map v m = Some w"
    using keyed_map_SomeD [of fst "ht_elems (vdict v)" m] by (auto simp: vset_map_def ht_map_def)
  finally show "(w, m) \<in> set (elems (vtree v)) \<longleftrightarrow> vset_map v m = Some w" .
qed

lemma vset_new_ok: "vset_ok hf Vset_new" "vset_map Vset_new = Map.empty"
  using HashTable_new_ok [of hf "fst :: string \<times> real \<Rightarrow> string"]
  by (simp_all add: vset_ok_def vset_map_def Vset_new_def vtree_ok_def counted_def fun_eq_iff ht_map_def keyed_map_def
      HashTable_new_def Table_Grow_def Table_new_def Let_def)

lemma InsertEq_tree:
  assumes "vtree_ok t" "sorted (map fst (elems t))"
  shows "\<exists>t'. AvlTree_InsertEq DoubleComparator fst x t = Some t' \<and> vtree_ok t' \<and> sorted (map fst (elems t'))
    \<and> mset (elems t') = add_mset x (mset (elems t)) \<and> length (elems t') = Suc (length (elems t))"
proof -
  have a: "avl_root (root_of t)" "weak_sorted DoubleComparator fst (elems t)" using assms by (simp_all add: vtree_ok_def weak_sorted_dbl)
  obtain r ys zs where r: "Avl_PushEq DoubleComparator fst 1 x (root_of t) = Some r" "elems t = ys @ zs"
      "inorder r = ys @ x # zs" "weak_sorted DoubleComparator fst (inorder r)"
    using dbl.PushEq_spec [OF avl_root_nonneg [OF a(1)] a(2) zero_le_one, of x] by blast
  with Avl_PushEq_root [OF a(1) r(1)] assms show ?thesis
    by (auto simp: AvlTree_InsertEq_def Avl_InsertEq_def vtree_ok_def counted_def weak_sorted_dbl)
qed

lemma Insert_dup:
  assumes ok: "vset_ok hf v" and d: "vset_map v m = Some x"
  shows "\<exists>v'. Vset_Insert hf w m v = Some (False, v') \<and> vset_ok hf v' \<and> vset_map v' = vset_map v"
proof -
  from d obtain e where "ht_map fst (vdict v) m = Some e" by (auto simp: vset_map_def)
  then obtain h where h: "InsertWithDuplicate hf fst (m, w) (vdict v) = Some (False, e, h)" "ht_inv hf fst h"
      "ht_map fst h = ht_map fst (vdict v)" "mset (ht_elems h) = mset (ht_elems (vdict v))"
      "used (table1 h) = used (table1 (vdict v))"
    using InsertWithDuplicate_ok [OF vset_okD(1) [OF ok], of "(m, w)"] by auto
  then have "Vset_Insert hf w m v = Some (False, v\<lparr>vdict := h\<rparr>)" by (simp add: Vset_Insert_def HashTable_Insert_def)
  moreover have "vset_ok hf (v\<lparr>vdict := h\<rparr>) \<and> vset_map (v\<lparr>vdict := h\<rparr>) = vset_map v"
    using ok h by (simp add: vset_ok_def vset_map_def fun_eq_iff)
  ultimately show ?thesis by blast
qed

lemma Insert_new:
  assumes ok: "vset_ok hf v" and n: "vset_map v m = None" and len: "Suc (length (elems (vtree v))) < 2 ^ 64"
  shows "\<exists>v'. Vset_Insert hf w m v = Some (True, v') \<and> vset_ok hf v' \<and> vset_map v' = (vset_map v)(m \<mapsto> w)"
proof -
  from n have h: "ht_map fst (vdict v) m = None" by (simp add: vset_map_def)
  obtain t where t: "AvlTree_InsertEq DoubleComparator fst (w, m) (vtree v) = Some t" "vtree_ok t" "sorted (map fst (elems t))"
      "mset (elems t) = add_mset (w, m) (mset (elems (vtree v)))" "length (elems t) = Suc (length (elems (vtree v)))"
    using InsertEq_tree [OF vset_okD(2,3) [OF ok], of "(w, m)"] by blast
  obtain d where d: "InsertWithDuplicate hf fst (m, w) (vdict v) = Some (True, (m, w), d)" "ht_inv hf fst d"
      "ht_map fst d = (ht_map fst (vdict v))(m \<mapsto> (m, w))" "mset (ht_elems d) = add_mset (m, w) (mset (ht_elems (vdict v)))"
      "used (table1 d) = used (table1 (vdict v)) + 1"
    using InsertWithDuplicate_ok [OF vset_okD(1) [OF ok], of "(m, w)"] h by auto
  let ?v = "\<lparr>vtree = t, vdict = d\<rparr>"
  have "Vset_Insert hf w m v = Some (True, ?v)" using d(1) t(1) by (simp add: Vset_Insert_def HashTable_Insert_def)
  moreover have "vset_ok hf ?v" using ok d t len by (simp add: vset_ok_def)
  moreover have "vset_map ?v = (vset_map v)(m \<mapsto> w)" using d(3) by (simp add: vset_map_def fun_eq_iff)
  ultimately show ?thesis by blast
qed

lemma unique_weight_erase:
  assumes "vtree_ok t" "sorted (map fst (elems t))" "(w, m) \<in> set (elems t)" "\<forall>x \<in> set (elems t). fst x = w \<longrightarrow> x = (w, m)"
  shows "\<exists>t'. AvlTree_Erase_pred DoubleComparator fst w (\<lambda>x. snd x = m) t = Some (True, t') \<and> vtree_ok t'
    \<and> sorted (map fst (elems t')) \<and> add_mset (w, m) (mset (elems t')) = mset (elems t)"
proof -
  let ?r = "root_of t"
  obtain p where p: "FindNode DoubleComparator fst w ?r = Some p"
    using dbl.FindNode_None [of fst ?r w "(w, m)"] assms(2,3) by (cases "FindNode DoubleComparator fst w ?r") (auto simp: weak_sorted_dbl)
  then have v: "valid_pos p ?r" "fst (elems t ! pos_index p ?r) = w" using dbl.FindNode_Some by fastforce+
  then have i: "pos_index p ?r < length (elems t)" "elems t ! pos_index p ?r = (w, m)"
    using assms(4) pos_index_less [OF v(1)] by auto
  obtain r go where r: "Erase_node p ?r = Some (r, go)"
      "inorder r = take (pos_index p ?r) (elems t) @ drop (Suc (pos_index p ?r)) (elems t)" "avl_root r"
    using Erase_node_yields [of ?r p] v(1) assms(1) avl_root_nonneg Erase_node_avl_root
    by (fastforce simp: vtree_ok_def elim!: yieldsE)
  obtain ys zs where e: "elems t = ys @ (w, m) # zs" "inorder r = ys @ zs"
    using i r(2) by (metis id_take_nth_drop)
  then have "mset (elems t) = add_mset (w, m) (mset (inorder r))" "sorted (map fst (inorder r))"
      "length (elems t) = Suc (length (inorder r))"
    using assms(2) by (auto simp: sorted_append)
  moreover have "Avl_Erase_pred DoubleComparator fst w (\<lambda>x. snd x = m) ?r = Some (True, r)"
    using p r(1) i(2) value_at_pos [OF v(1)]
    by (simp add: Avl_Erase_pred_def Erase_pred_loop.simps [of _ _ _ _ _ p] del: Erase_pred_loop.simps value_at.simps)
  ultimately show ?thesis using r(3) assms(1)
    by (simp add: AvlTree_Erase_pred_def EraseRoutine_count_def vtree_ok_def counted_def)
qed

lemma Erase_none:
  assumes ok: "vset_ok hf v" and n: "vset_map v m = None"
  shows "\<exists>v'. Vset_Erase hf m v = Some (False, v') \<and> vset_ok hf v' \<and> vset_map v' = vset_map v"
proof -
  from n have h: "ht_map fst (vdict v) m = None" by (simp add: vset_map_def)
  then obtain d where d: "HashTable_Extract hf fst m (vdict v) = Some (None, d)" "ht_inv hf fst d"
      "ht_map fst d = ht_map fst (vdict v)" "mset (ht_elems d) = mset (ht_elems (vdict v))"
      "used (table1 d) = used (table1 (vdict v))"
    using Extract_ok [OF vset_okD(1) [OF ok], of m] by (auto simp: fun_upd_idem)
  then have "Vset_Erase hf m v = Some (False, v\<lparr>vdict := d\<rparr>)" by (simp add: Vset_Erase_def)
  moreover have "vset_ok hf (v\<lparr>vdict := d\<rparr>) \<and> vset_map (v\<lparr>vdict := d\<rparr>) = vset_map v"
    using ok d by (simp add: vset_ok_def vset_map_def fun_eq_iff)
  ultimately show ?thesis by blast
qed

lemma Erase_unique:
  assumes ok: "vset_ok hf v" and w: "vset_map v m = Some w" and u: "\<forall>m'. vset_map v m' = Some w \<longrightarrow> m' = m"
  shows "\<exists>v'. Vset_Erase hf m v = Some (True, v') \<and> vset_ok hf v' \<and> vset_map v' = (vset_map v)(m := None)"
proof -
  have m: "(w, m) \<in> set (elems (vtree v))" "\<forall>x \<in> set (elems (vtree v)). fst x = w \<longrightarrow> x = (w, m)"
    using vset_okD(6) [OF ok] w u by (blast, metis prod.collapse)
  obtain t where t: "AvlTree_Erase_pred DoubleComparator fst w (\<lambda>x. snd x = m) (vtree v) = Some (True, t)" "vtree_ok t"
      "sorted (map fst (elems t))" "add_mset (w, m) (mset (elems t)) = mset (elems (vtree v))"
    using unique_weight_erase [OF vset_okD(2,3) [OF ok] m] by blast
  from w have h: "ht_map fst (vdict v) m = Some (m, w)"
    using keyed_map_SomeD [of fst "ht_elems (vdict v)" m] by (auto simp: vset_map_def ht_map_def)
  then obtain d where d: "HashTable_Extract hf fst m (vdict v) = Some (Some (m, w), d)" "ht_inv hf fst d"
      "ht_map fst d = (ht_map fst (vdict v))(m := None)" "mset (ht_elems (vdict v)) = add_mset (m, w) (mset (ht_elems d))"
      "used (table1 d) = used (table1 (vdict v)) - 1"
    using Extract_ok [OF vset_okD(1) [OF ok], of m] by auto
  let ?v = "\<lparr>vtree = t, vdict = d\<rparr>"
  have len: "length (elems (vtree v)) = Suc (length (elems t))" using arg_cong [OF t(4), of size] by simp
  have "add_mset (m, w) (mset (ht_elems d)) = add_mset (m, w) (image_mset prod.swap (mset (elems t)))"
    using d(4) ok t(4) [symmetric] by (simp add: vset_ok_def)
  then have "vset_ok hf ?v" using ok d t len by (simp add: vset_ok_def)
  moreover have "vset_map ?v = (vset_map v)(m := None)" using d(3) by (simp add: vset_map_def fun_eq_iff)
  moreover have "Vset_Erase hf m v = Some (True, ?v)" using d(1) t(1) by (simp add: Vset_Erase_def)
  ultimately show ?thesis by blast
qed

lemma GetWeight_ok:
  assumes ok: "vset_ok hf v"
  shows "\<exists>v'. Vset_GetWeight hf m v = Some (vset_map v m, v') \<and> vset_ok hf v' \<and> vset_map v' = vset_map v \<and> vtree v' = vtree v"
proof -
  obtain d where d: "HashTable_FindSlot hf fst m (vdict v) = Some (ht_map fst (vdict v) m, d)" "ht_inv hf fst d"
      "mset (ht_elems d) = mset (ht_elems (vdict v))" "used (table1 d) = used (table1 (vdict v))"
    using FindSlot_ok [OF vset_okD(1) [OF ok], of m] by blast
  have "ht_map fst d = ht_map fst (vdict v)" using ht_map_mset_eq(1) [OF ht_invD(2) [OF vset_okD(1) [OF ok]] d(3)] .
  then show ?thesis using d ok
    by (intro exI [of _ "v\<lparr>vdict := d\<rparr>"]) (simp add: Vset_GetWeight_def HashTable_Find_def vset_ok_def vset_map_def fun_eq_iff)
qed

section \<open>Queries and removals by weight\<close>

abbreviation in_range :: "real \<Rightarrow> real \<Rightarrow> weight_value \<Rightarrow> bool" where
  "in_range l r x \<equiv> l \<le> fst x \<and> fst x \<le> r"

lemma outside_parts:
  assumes "sorted (map fst (xs :: weight_value list))" "l \<le> r"
  shows "filter (\<lambda>x. fst x < l) xs @ filter (\<lambda>x. r < fst x) xs = filter (\<lambda>x. \<not> in_range l r x) xs"
  using assms(1)
proof (induction xs)
  case (Cons x xs)
  then have "l \<le> fst x \<Longrightarrow> filter (\<lambda>x. fst x < l) xs = []" by (fastforce simp: filter_empty_conv)
  with Cons assms(2) show ?case by (auto simp: not_less not_le)
qed simp

lemma below_upto:
  assumes "sorted (map fst (elems t))" "l \<le> r"
  shows "below l t \<le> not_above r t" "not_above r t \<le> length (elems t)"
    "take (not_above r t - below l t) (drop (below l t) (elems t)) = filter (in_range l r) (elems t)"
    "take (below l t) (elems t) @ drop (not_above r t) (elems t) = filter (\<lambda>x. \<not> in_range l r x) (elems t)"
    "length (filter (in_range l r) (elems t)) = not_above r t - below l t"
proof -
  let ?xs = "elems t" and ?A = "\<lambda>x :: weight_value. fst x < l" and ?B = "\<lambda>x :: weight_value. fst x \<le> r"
  have w: "not_above r t = length (filter ?B ?xs)" "below l t = length (filter ?A ?xs)"
    using bound_parts [OF assms(1)] by (simp_all add: not_above_def below_def)
  have AB: "filter ?A (filter ?B ?xs) = filter ?A ?xs" using assms(2) by (auto intro: filter_cong)
  show 1: "below l t \<le> not_above r t" using w AB by (metis length_filter_le)
  show "not_above r t \<le> length ?xs" by (simp add: not_above_def length_takeWhile_le)
  have tb: "take (not_above r t) ?xs = filter ?B ?xs" "take (below l t) ?xs = filter ?A ?xs"
    unfolding not_above_def below_def takeWhile_eq_take [symmetric] by (rule bound_parts(2,1) [OF assms(1)])+
  have s: "sorted (map fst (filter ?B ?xs))" using sorted_filter [OF assms(1)] .
  have bl: "below l t = length (takeWhile ?A (filter ?B ?xs))"
    using bound_parts(1) [OF s] w(2) AB by simp
  have "take (not_above r t - below l t) (drop (below l t) ?xs) = drop (below l t) (filter ?B ?xs)"
    using tb(1) 1 by (metis drop_take)
  also have "\<dots> = dropWhile ?A (filter ?B ?xs)"
    unfolding bl by (simp add: dropWhile_eq_drop)
  also have "\<dots> = filter (in_range l r) ?xs" using bound_parts(3) [OF s] by (simp add: conj_commute)
  finally show 3: "take (not_above r t - below l t) (drop (below l t) ?xs) = filter (in_range l r) ?xs" .
  show "length (filter (in_range l r) ?xs) = not_above r t - below l t"
    using arg_cong [OF 3, of length] 1 \<open>not_above r t \<le> length ?xs\<close> by simp
  show "take (below l t) ?xs @ drop (not_above r t) ?xs = filter (\<lambda>x. \<not> in_range l r x) ?xs"
    using outside_parts [OF assms] tb(2) bound_parts(4) [OF assms(1), of r] by (simp add: not_above_def dropWhile_eq_drop)
qed

lemma rcollect_until_at:
  assumes "i < j" "j < length (elems t)"
  shows "rcollect_until t (Some i) (Some j) values = Some (values @ rev (take (j - i) (drop i (elems t))))"
  using assms
proof (induction j arbitrary: "values")
  case (Suc j)
  have tk: "take (Suc j - i) (drop i (elems t)) = take (j - i) (drop i (elems t)) @ [elems t ! j]"
    using Suc.prems by (simp add: take_Suc_conv_app_nth Suc_diff_le)
  show ?case
  proof (cases "i = j")
    case True
    with Suc.prems tk show ?thesis by (subst rcollect_until.simps) (simp add: iter_dec_at iter_deref_at)
  next
    case False
    with Suc tk show ?thesis by (subst rcollect_until.simps) (simp add: iter_dec_at iter_deref_at)
  qed
qed simp

lemma renumber_next:
  assumes "i < length (elems t)" "elems t' = take i (elems t) @ drop (Suc i) (elems t)" "i < j"
  shows "renumber (Some i) (at_pos t j) = at_pos t' (j - 1)"
  using assms by (auto simp: renumber_def at_pos_def)

lemma erase_until_at:
  assumes "vtree_ok t" "i < j" "j \<le> length (elems t)"
  shows "\<exists>t'. erase_until (Some i) (at_pos t j) t ret = Some (ret + (j - i), t') \<and> vtree_ok t'
    \<and> elems t' = take i (elems t) @ drop j (elems t)"
  using assms
proof (induction "j - i" arbitrary: j t ret)
  case (Suc n)
  then have i: "i < length (elems t)" by simp
  obtain u where u: "tree_Erase (Some i) t = Some (True, u)" "vtree_ok u" "elems u = take i (elems t) @ drop (Suc i) (elems t)"
    using tree_Erase_at [OF Suc.prems(1) i] by blast
  show ?case
  proof (cases "Suc i = j")
    case True
    with u i show ?thesis by (subst erase_until.simps) (simp add: iter_inc_at)
  next
    case False
    then have ne: "at_pos t (Suc i) \<noteq> at_pos t j" "i < j - 1" "n = j - 1 - i" using Suc.prems Suc.hyps(2) by (auto simp: at_pos_def)
    have lu: "j - 1 \<le> length (elems u)" using u(3) Suc.prems i by simp
    have "erase_until (Some i) (at_pos t j) t ret = erase_until (Some i) (at_pos u (j - 1)) u (ret + 1)"
      using u ne(1) i ne(2) lu renumber_next [OF i u(3), of "Suc i"] renumber_next [OF i u(3), of j] Suc.prems
      by (subst erase_until.simps) (simp add: iter_inc_at at_pos_def [of u i])
    with Suc.hyps(1) [OF ne(3) u(2) ne(2) lu, of "ret + 1"] u(3) ne i Suc.prems show ?thesis
      by (auto simp: min_def)
  qed
qed simp

lemma erase_fwd_at:
  assumes "vtree_ok t" "i + c \<le> length (elems t)"
  shows "\<exists>t'. erase_fwd c (at_pos t i) t ret = Some (ret + c, t') \<and> vtree_ok t' \<and> elems t' = take i (elems t) @ drop (i + c) (elems t)"
  using assms
proof (induction c arbitrary: t ret)
  case (Suc c)
  then have i: "i < length (elems t)" "at_pos t i = Some i" by (simp_all add: at_pos_def)
  obtain u where u: "tree_Erase (Some i) t = Some (True, u)" "vtree_ok u" "elems u = take i (elems t) @ drop (Suc i) (elems t)"
    using tree_Erase_at [OF Suc.prems(1) i(1)] by blast
  have "erase_fwd (Suc c) (at_pos t i) t ret = erase_fwd c (at_pos u i) u (ret + 1)"
    using i u(1) renumber_next [OF i(1) u(3), of "Suc i"] by (simp add: iter_inc_at)
  with Suc.IH [OF u(2), of "ret + 1"] u(3) Suc.prems(2) i show ?case by (auto simp: min_def ac_simps)
qed simp

lemma erase_bwd_at:
  assumes "vtree_ok t" "i < length (elems t)" "c \<le> Suc i"
  shows "\<exists>t'. erase_bwd c (Some i) t ret = Some (ret + c, t') \<and> vtree_ok t'
    \<and> elems t' = take (Suc i - c) (elems t) @ drop (Suc i) (elems t)"
  using assms
proof (induction c arbitrary: i t ret)
  case 0
  then show ?case by simp
next
  case (Suc c)
  obtain u where u: "tree_Erase (Some i) t = Some (True, u)" "vtree_ok u" "elems u = take i (elems t) @ drop (Suc i) (elems t)"
    using tree_Erase_at [OF Suc.prems(1,2)] by blast
  show ?case
  proof (cases i)
    case 0
    with Suc.prems u show ?thesis by (simp add: iter_dec_at)
  next
    case (Suc k)
    then have "erase_bwd (Suc c) (Some i) t ret = erase_bwd c (Some k) u (ret + 1)"
      using u(1) Suc.prems(2) by (simp add: iter_dec_at renumber_def)
    with Suc.IH [OF u(2), of k "ret + 1"] u(3) Suc.prems Suc show ?thesis by (auto simp: min_def)
  qed
qed

section \<open>Removal with equal weights\<close>

lemma Erase_pred_loop_miss:
  "\<forall>i. pos_index p t \<le> i \<longrightarrow> i < avl_size t \<longrightarrow> \<not> pred (inorder t ! i) \<Longrightarrow>
   Erase_pred_loop cmp gk k pred t p \<in> {None, Some (False, t)}"
proof (induction cmp gk k pred t p rule: Erase_pred_loop.induct)
  case (1 cmp gk k pred t p)
  show ?case
  proof (cases "valid_pos p t")
    case False
    then have "value_at p t = None" by (auto simp: is_Null_def)
    then show ?thesis by (subst Erase_pred_loop.simps) (simp del: value_at.simps)
  next
    case True
    note v = value_at_pos [OF True]
    have np: "\<not> pred (inorder t ! pos_index p t)" using 1(2) pos_index_less [OF True] by blast
    show ?thesis
    proof (cases "GetNextNode t p")
      case None
      with v np show ?thesis by (subst Erase_pred_loop.simps) (simp del: Erase_pred_loop.simps value_at.simps)
    next
      case (Some q)
      have q: "valid_pos q t" "pos_index q t = Suc (pos_index p t)" using GetNextNode_step [OF True] Some by auto
      have "\<forall>i. pos_index q t \<le> i \<longrightarrow> i < avl_size t \<longrightarrow> \<not> pred (inorder t ! i)" using 1(2) q(2) by simp
      with 1(1) [OF v np Some value_at_pos [OF q(1)]] have
        "cmp (gk (inorder t ! pos_index q t)) k = 0 \<Longrightarrow> Erase_pred_loop cmp gk k pred t q \<in> {None, Some (False, t)}" by blast
      with v np Some value_at_pos [OF q(1)] show ?thesis
        by (subst Erase_pred_loop.simps) (simp del: Erase_pred_loop.simps value_at.simps)
    qed
  qed
qed

lemma Erase_tie:
  assumes ok: "vset_ok hf v" and root: "root_of (vtree v) = Node lt (w, m0) h rt" and m: "(w, m) \<in> set (inorder lt)"
  shows "Vset_Erase hf m v = None
    \<or> (\<exists>v'. Vset_Erase hf m v = Some (True, v') \<and> vset_map v' m = None \<and> vtree v' = vtree v \<and> Vset_GetSize v' = None)"
proof -
  have wm: "vset_map v m = Some w" using vset_okD(6) [OF ok, of w m] root m by simp
  then have h: "ht_map fst (vdict v) m = Some (m, w)"
    using keyed_map_SomeD [of fst "ht_elems (vdict v)" m] by (auto simp: vset_map_def ht_map_def)
  then obtain d where d: "HashTable_Extract hf fst m (vdict v) = Some (Some (m, w), d)"
      "ht_map fst d = (ht_map fst (vdict v))(m := None)" "used (table1 d) = used (table1 (vdict v)) - 1"
    using Extract_ok [OF vset_okD(1) [OF ok], of m] by auto
  have "snd x \<noteq> m" if "x \<in> set ((w, m0) # inorder rt)" for x
    using vset_okD(4) [OF ok] that m root by (force simp: image_iff)
  then have "\<forall>i. pos_index [] (root_of (vtree v)) \<le> i \<longrightarrow> i < avl_size (root_of (vtree v)) \<longrightarrow> snd (inorder (root_of (vtree v)) ! i) \<noteq> m"
    unfolding root by (auto simp: nth_append nth_Cons' dest!: nth_mem)
  from Erase_pred_loop_miss [where pred = "\<lambda>x. snd x = m", OF this]
  have "Avl_Erase_pred DoubleComparator fst w (\<lambda>x. snd x = m) (root_of (vtree v)) \<in> {None, Some (False, root_of (vtree v))}"
    using root by (simp add: Avl_Erase_pred_def del: Erase_pred_loop.simps)
  then consider "Avl_Erase_pred DoubleComparator fst w (\<lambda>x. snd x = m) (root_of (vtree v)) = None"
    | "Avl_Erase_pred DoubleComparator fst w (\<lambda>x. snd x = m) (root_of (vtree v)) = Some (False, root_of (vtree v))" by auto
  then show ?thesis
  proof cases
    case 1
    with d(1) show ?thesis by (simp add: Vset_Erase_def AvlTree_Erase_pred_def EraseRoutine_count_def)
  next
    case 2
    then have 2: "Vset_Erase hf m v = Some (True, \<lparr>vtree = vtree v, vdict = d\<rparr>)"
      using d(1) by (simp add: Vset_Erase_def AvlTree_Erase_pred_def EraseRoutine_count_def)
    have "elems (vtree v) \<noteq> []" "used (table1 (vdict v)) = length (elems (vtree v))" using root ok by (simp_all add: vset_ok_def)
    then have "Vset_GetSize \<lparr>vtree = vtree v, vdict = d\<rparr> = None"
      using d(3) vset_okD(5) [OF ok] by (cases "elems (vtree v)") (simp_all add: Vset_GetSize_def)
    with 2 d(2) show ?thesis by (intro disjI2 exI [of _ "\<lparr>vtree = vtree v, vdict = d\<rparr>"]) (simp add: vset_map_def)
  qed
qed

lemma dict_of:
  "distinct (map fst es) \<Longrightarrow> \<exists>d. ht_inv hf fst d \<and> mset (ht_elems d) = mset es \<and> used (table1 d) = length es"
proof (induction es)
  case Nil
  show ?case using HashTable_new_ok [of hf fst]
    by (intro exI [of _ HashTable_new]) (simp add: HashTable_new_def Table_Grow_def Table_new_def Let_def)
next
  case (Cons e es)
  then obtain d where d: "ht_inv hf fst d" "mset (ht_elems d) = mset es" "used (table1 d) = length es" by auto
  have "ht_map fst d (fst e) = None"
    unfolding ht_map_def using Cons.prems mset_eq_setD [OF d(2)] by (intro keyed_map_None) (simp, metis imageI)
  with InsertWithDuplicate_ok [OF d(1), of e] d show ?case by auto
qed

end
