(* ===== verification/VsetProps.thy ===== *)
theory VsetProps
  imports Vset
begin

text \<open>
  What the sorted set of \<^verbatim>\<open>db/vset.cc\<close> does: its updates, and its queries and removals by weight and by order.
\<close>

text \<open>A sorted set with two members of one weight, for the examples.\<close>

definition ex_vtree :: "weight_value avl_tree" where
  "ex_vtree = \<lparr>root_of = Node (Node Null (1, ''a'') 1 Null) (1, ''b'') 2 (Node Null (3, ''c'') 1 Null), count_of = 3\<rparr>"

lemma ex_vset: "\<exists>v. vset_ok length v \<and> vtree v = ex_vtree"
proof -
  obtain d :: "(string \<times> real) hash_table" where d: "ht_inv length fst d"
      "mset (ht_elems d) = mset [(''a'', 1), (''b'', 1), (''c'', 3)]" "used (table1 d) = Suc (Suc (Suc 0))"
    using dict_of [of "[(''a'', 1 :: real), (''b'', 1), (''c'', 3)]" length] by auto
  then have "vset_ok length \<lparr>vtree = ex_vtree, vdict = d\<rparr>"
    by (simp add: vset_ok_def ex_vtree_def vtree_ok_def counted_def)
  then show ?thesis by (metis vset.select_convs(1))
qed

section \<open>Properties\<close>

text \<open>
  C35. Insertion and removal of a sorted set whose tree and dictionary agree. Insertion returns, keeps the
  agreement, refuses a member that is present and otherwise records its weight; removal of a member whose
  weight no other member has returns, keeps the agreement and removes exactly that member.
\<close>

theorem vset_updates:
  assumes "vset_ok hf v" "Suc (length (elems (vtree v))) < 2 ^ 64"
  shows "(\<exists>v'. Vset_Insert hf w m v = Some (vset_map v m = None, v') \<and> vset_ok hf v'
        \<and> vset_map v' = (if vset_map v m = None then (vset_map v)(m \<mapsto> w) else vset_map v))
    \<and> ((\<forall>m'. vset_map v m' = vset_map v m \<longrightarrow> vset_map v m = None \<or> m' = m) \<longrightarrow>
       (\<exists>v'. Vset_Erase hf m v = Some (vset_map v m \<noteq> None, v') \<and> vset_ok hf v' \<and> vset_map v' = (vset_map v)(m := None)))"
proof (cases "vset_map v m")
  case None
  from None have u: "(vset_map v)(m := None) = vset_map v" by (simp add: fun_upd_idem)
  show ?thesis unfolding u using Insert_new [OF assms(1) None assms(2), of w] Erase_none [OF assms(1) None] None by simp
next
  case (Some x)
  show ?thesis
  proof (intro conjI impI)
    assume "\<forall>m'. vset_map v m' = vset_map v m \<longrightarrow> vset_map v m = None \<or> m' = m"
    then have "\<forall>m'. vset_map v m' = Some x \<longrightarrow> m' = m" unfolding Some by blast
    from Erase_unique [OF assms(1) Some this] show "\<exists>v'. Vset_Erase hf m v = Some (vset_map v m \<noteq> None, v') \<and> vset_ok hf v'
        \<and> vset_map v' = (vset_map v)(m := None)" unfolding Some by simp
  qed (use Insert_dup [OF assms(1) Some, of w] Some in simp)
qed

theorem vset_updates_witness:
  "\<exists>v'. Vset_Insert length 2 ''ab'' Vset_new = Some (True, v') \<and> vset_map v' = [''ab'' \<mapsto> 2]"
proof -
  have "Suc (length (elems (vtree Vset_new))) < 2 ^ 64" by (simp add: Vset_new_def)
  from vset_updates [OF vset_new_ok(1) [of length] this, of 2 "''ab''"] show ?thesis by (auto simp: vset_new_ok(2))
qed

text \<open>
  With equal weights removal can miss. A member stored to the left of a root of the same weight is not
  found by \<^verbatim>\<open>Erase(key, pred)\<close>, which only walks forward from the root: either the walk reads past the last
  node, or the dictionary forgets the member, the tree keeps it, and the assertion of \<^verbatim>\<open>GetSize\<close> fails.
\<close>

theorem vset_erase_tie:
  assumes "vset_ok hf v" "root_of (vtree v) = Node lt (w, m0) h rt" "(w, m) \<in> set (inorder lt)"
  shows "case Vset_Erase hf m v of
      None \<Rightarrow> True
    | Some (ok, v') \<Rightarrow> ok \<and> vset_map v' m = None \<and> vtree v' = vtree v \<and> Vset_GetSize v' = None"
  using Erase_tie [OF assms] by (auto split: option.splits)

theorem vset_erase_tie_witness:
  "\<exists>v. vset_ok length v \<and> (case Vset_Erase length ''a'' v of None \<Rightarrow> True
     | Some (ok, v') \<Rightarrow> ok \<and> vset_map v' ''a'' = None \<and> vtree v' = ex_vtree \<and> Vset_GetSize v' = None)"
proof -
  obtain v where v: "vset_ok length v" "vtree v = ex_vtree" using ex_vset by blast
  then have "root_of (vtree v) = Node (Node Null (1, ''a'') 1 Null) (1, ''b'') 2 (Node Null (3, ''c'') 1 Null)"
    by (simp add: ex_vtree_def)
  from vset_erase_tie [OF v(1) this, of "''a''"] v(1) show ?thesis unfolding v(2) by (intro exI [of _ v]) simp
qed

text \<open>
  C36. Queries by weight, for bounds in order. \<^verbatim>\<open>GetSizeByWeight\<close> counts the elements in the range.
  \<^verbatim>\<open>GetRangeByWeight\<close> lists them in weight order when there are some, and also when every element is below
  the range; when the range is empty but an element lies above it, the loop never meets its end and reads
  past the tree. \<^verbatim>\<open>GetRRangeByWeight\<close> lists a non-empty range in reverse when an element lies above it, and
  otherwise starts by decrementing the null \<^verbatim>\<open>end()\<close>.
\<close>

theorem vset_weight_queries:
  assumes "vset_ok hf v" "l \<le> r"
  defines "hits \<equiv> filter (in_range l r) (Vset_GetAll v)"
  shows "Vset_GetSizeByWeight l r v = Some (length hits)
    \<and> Vset_GetRangeByWeight l r v = (if hits \<noteq> [] \<or> (\<forall>x \<in> set (Vset_GetAll v). fst x < l) then Some hits else None)
    \<and> (hits \<noteq> [] \<longrightarrow> Vset_GetRRangeByWeight l r v = (if \<exists>x \<in> set (Vset_GetAll v). r < fst x then Some (rev hits) else None))"
proof -
  let ?t = "vtree v" and ?n = "length (elems (vtree v))"
  note s = vset_okD(3) [OF assms(1)]
  note b = below_upto [OF s assms(2)] bounds_at [OF s]
  have hits: "hits = take (not_above r ?t - below l ?t) (drop (below l ?t) (elems ?t))"
    using b(3) by (simp add: hits_def Vset_GetAll_def DoInAll_inorder)
  have b3: "not_above r ?t < ?n \<longleftrightarrow> (\<exists>x \<in> set (Vset_GetAll v). r < fst x)" "below l ?t < ?n \<longleftrightarrow> (\<exists>x \<in> set (Vset_GetAll v). l \<le> fst x)"
    by (simp_all add: not_above_def below_def takeWhile_less Vset_GetAll_def DoInAll_inorder not_le not_less)
  have ne: "hits \<noteq> [] \<longleftrightarrow> below l ?t < not_above r ?t" using b(1,2) hits by auto
  have 1: "Vset_GetSizeByWeight l r v = Some (length hits)"
    using distance_at [OF b(1,2), of 0] b(1,2) hits
    by (auto simp: Vset_GetSizeByWeight_def Let_def b(6,7)) (simp_all add: at_pos_def split: if_splits)
  have 2: "Vset_GetRangeByWeight l r v = (if hits \<noteq> [] \<or> \<not> below l ?t < ?n then Some hits else None)"
  proof (cases "below l ?t < not_above r ?t")
    case True
    with b(2) collect_until_at [OF True b(2), of "[]"] ne hits show ?thesis
      by (simp add: Vset_GetRangeByWeight_def Let_def b(6,7)) (simp add: at_pos_def)
  next
    case False
    with b(1) have e: "below l ?t = not_above r ?t" by simp
    with collect_until_off [of "below l ?t" "below l ?t" ?t "[]"] hits show ?thesis
      by (simp add: Vset_GetRangeByWeight_def Let_def b(6,7)) (auto simp: at_pos_def)
  qed
  have 3: "Vset_GetRRangeByWeight l r v = (if not_above r ?t < ?n then Some (rev hits) else None)" if "hits \<noteq> []"
  proof -
    have lt: "below l ?t < not_above r ?t" using that ne by blast
    show ?thesis
    proof (cases "not_above r ?t < ?n")
      case True
      with rcollect_until_at [OF lt True, of "[]"] lt hits show ?thesis
        by (simp add: Vset_GetRRangeByWeight_def b(6,7)) (simp add: at_pos_def)
    next
      case False
      have "rcollect_until ?t f None vs = None" for f vs by (subst rcollect_until.simps) simp
      with False show ?thesis by (simp add: Vset_GetRRangeByWeight_def b(6,7)) (simp add: at_pos_def)
    qed
  qed
  show ?thesis using 1 2 3 b3 by (auto simp: not_le not_less)
qed

theorem vset_weight_queries_witness:
  "\<exists>v. vset_ok length v \<and> Vset_GetSizeByWeight 1 2 v = Some 2 \<and> Vset_GetRangeByWeight 1 2 v = Some [(1, ''a''), (1, ''b'')]
     \<and> Vset_GetRRangeByWeight 1 2 v = Some [(1, ''b''), (1, ''a'')]"
proof -
  obtain v where v: "vset_ok length v" "vtree v = ex_vtree" using ex_vset by blast
  then have "Vset_GetAll v = [(1, ''a''), (1, ''b''), (3, ''c'')]" by (simp add: Vset_GetAll_def DoInAll_inorder ex_vtree_def)
  with vset_weight_queries [OF v(1), of 1 2] v(1) show ?thesis by auto
qed

text \<open>
  \<^verbatim>\<open>GetOrder\<close> returns the position of a member in weight order and \<^verbatim>\<open>GetROrder\<close> its position from the
  end; both return for every member, and report a member that is absent.
\<close>

theorem vset_orders:
  assumes "vset_ok hf v"
  shows "case vset_map v m of
      None \<Rightarrow> (\<exists>v' v''. Vset_GetOrder hf m v = Some (None, v') \<and> Vset_GetROrder hf m v = Some (None, v''))
    | Some w \<Rightarrow> \<exists>i v' v''. Vset_GetOrder hf m v = Some (Some i, v') \<and> i < length (Vset_GetAll v) \<and> Vset_GetAll v ! i = (w, m)
        \<and> Vset_GetROrder hf m v = Some (Some (length (Vset_GetAll v) - 1 - i), v'')"
proof -
  let ?xs = "elems (vtree v)"
  obtain v' where v': "Vset_GetWeight hf m v = Some (vset_map v m, v')" "vtree v' = vtree v" using GetWeight_ok [OF assms] by blast
  show ?thesis
  proof (cases "vset_map v m")
    case None
    with v' show ?thesis by (simp add: Vset_GetOrder_def Vset_GetROrder_def)
  next
    case (Some w)
    then have "(w, m) \<in> set ?xs" using vset_okD(6) [OF assms] by blast
    then obtain i where i: "i < length ?xs" "?xs ! i = (w, m)" by (metis in_set_conv_nth)
    have "?xs ! k \<noteq> (w, m)" if "k \<noteq> i" "k < length ?xs" for k
      using nth_eq_iff_index_eq [OF vset_okD(4) [OF assms], of k i] i that by auto
    then have "order_loop (iter_inc (vtree v)) (iter_deref (vtree v)) (w, m) (Some 0) 0 = Some i"
        "order_loop (iter_dec (vtree v)) (iter_deref (vtree v)) (w, m) (Some (length ?xs - 1)) 0 = Some (length ?xs - 1 - i)"
      using order_loop_inc [OF i, of 0 0] order_loop_dec [OF i, of "length ?xs - 1" 0] i(1) by auto
    moreover have "tree_begin (vtree v) = Some 0" "tree_before_end (vtree v) = Some (length ?xs - 1)"
      using i(1) by (auto simp: tree_begin_at at_pos_def tree_before_end_at)
    ultimately show ?thesis using v' Some i by (simp add: Vset_GetOrder_def Vset_GetROrder_def Vset_GetAll_def DoInAll_inorder)
  qed
qed

theorem vset_orders_witness:
  "\<exists>v. vset_ok length v \<and> (\<exists>v'. Vset_GetOrder length ''c'' v = Some (Some 2, v')) \<and> (\<exists>v''. Vset_GetROrder length ''c'' v = Some (Some 0, v''))"
proof -
  obtain v where v: "vset_ok length v" "vtree v = ex_vtree" using ex_vset by blast
  then have all: "Vset_GetAll v = [(1, ''a''), (1, ''b''), (3, ''c'')]" by (simp add: Vset_GetAll_def DoInAll_inorder ex_vtree_def)
  have "vset_map v ''c'' = Some 3" using vset_okD(6) [OF v(1), of 3 "''c''"] v(2) by (simp add: ex_vtree_def)
  with vset_orders [OF v(1), of "''c''"] obtain i v' v'' where i: "Vset_GetOrder length ''c'' v = Some (Some i, v')" "i < 3"
      "Vset_GetAll v ! i = (3, ''c'')" "Vset_GetROrder length ''c'' v = Some (Some (2 - i), v'')"
    by (auto simp: all)
  then have "i = 2" unfolding all by (cases i; cases "i - 1") (auto simp: numeral_2_eq_2 less_Suc_eq nth_Cons')
  with i v(1) show ?thesis by auto
qed

section \<open>Ranges by order\<close>

lemma int64_id [simp]: "- (2 ^ 63) \<le> x \<Longrightarrow> x < 2 ^ 63 \<Longrightarrow> int64 x = x"
  by (simp add: int64_def signed_of_int signed_take_bit_int_eq_self)

lemma size_t_id [simp]: "0 \<le> x \<Longrightarrow> x < 2 ^ 64 \<Longrightarrow> size_t x = x"
  by (simp add: size_t_def)

lemma rounds_nat [simp]: "0 \<le> x \<Longrightarrow> x < 2 ^ 64 \<Longrightarrow> rounds x = nat x"
  by (simp add: rounds_def)

lemma rounds_negative: "x < 0 \<Longrightarrow> - (2 ^ 63) \<le> x \<Longrightarrow> 2 ^ 63 \<le> rounds x"
proof -
  assume x: "x < 0" "- (2 ^ 63) \<le> x"
  then have "(x + 2 ^ 64) mod 2 ^ 64 = x + 2 ^ 64" by (intro mod_pos_pos_trivial) auto
  then have "x mod 2 ^ 64 = x + 2 ^ 64" by (simp only: mod_add_self2)
  with x show ?thesis by (simp add: rounds_def size_t_def)
qed

lemma VSET_MIN_min [simp]: "VSET_MIN x y = min x y"
  by (simp add: VSET_MIN_def)

text \<open>
  \<^verbatim>\<open>GetRange\<close> on a set of fewer than \<^verbatim>\<open>2^63\<close> elements. For bounds from zero on it lists the elements
  from \<open>l\<close> to \<open>r\<close> inclusive; a left bound past the size reads beyond the tree, and a right bound more than one
  below the left lists everything from \<open>l\<close> on, since the counter wraps around. A negative left bound,
  meant to count from the end, is turned into \<^verbatim>\<open>size - left\<close>, which is always past the size.
\<close>

theorem vset_get_range:
  assumes "vset_ok hf v" "0 \<le> l" "l < 2 ^ 62" "0 \<le> r" "r < 2 ^ 62" "length (Vset_GetAll v) < 2 ^ 62"
  defines "n \<equiv> int (length (Vset_GetAll v))"
  shows "Vset_GetRange l r v = (if n < l then None
      else Some (if min n r + 1 < l then drop (nat l) (Vset_GetAll v)
        else take (nat (min n r - l + 1)) (drop (nat l) (Vset_GetAll v))))
    \<and> (0 < l \<longrightarrow> Vset_GetRange (- l) r v = None)"
proof -
  let ?t = "vtree v"
  have n: "tree_size ?t = n" "n = int (length (elems ?t))" "n < 2 ^ 62"
    using vset_okD(5) [OF assms(1)] assms(6) by (simp_all add: n_def Vset_GetAll_def DoInAll_inorder)
  have N: "N2P ?t l = l" "N2P ?t r = r" "0 < l \<Longrightarrow> N2P ?t (- l) = n + l" using n assms by (simp_all add: N2P_def)
  have adv: "advance (iter_inc ?t) (nat x) (tree_begin ?t) = (if n < x then None else Some (at_pos ?t (nat x)))" if "0 \<le> x" for x
    using that n(2) advance_inc [of 0 "nat x" ?t] advance_inc_off [of 0 ?t "nat x"] by (auto simp: tree_begin_at)
  have neg: "take (rounds c) (drop i (elems ?t)) = drop i (elems ?t)" if "c < 0" "- (2 ^ 62) \<le> c" for c i
    using rounds_negative [of c] that n by simp
  have c: "int64 (min n r) = min n r" "int64 (min n r - l + 1) = min n r - l + 1" using n assms by auto
  have "Vset_GetRange l r v = (if n < l then None
      else Some (if min n r + 1 < l then drop (nat l) (Vset_GetAll v)
        else take (nat (min n r - l + 1)) (drop (nat l) (Vset_GetAll v))))"
    using assms(2-5) n c neg [of "min n r - l + 1" "nat l"] range_loop_at [of "nat l" ?t _ "[]"]
    by (auto simp: Vset_GetRange_def Let_def N adv Vset_GetAll_def DoInAll_inorder)
  moreover have "Vset_GetRange (- l) r v = None" if "0 < l"
    using assms(2-5) n that by (simp add: Vset_GetRange_def Let_def N adv)
  ultimately show ?thesis by blast
qed

theorem vset_get_range_witness:
  "\<exists>v. vset_ok length v \<and> Vset_GetRange 1 2 v = Some [(1, ''b''), (3, ''c'')] \<and> Vset_GetRange (- 1) 2 v = None"
proof -
  obtain v where v: "vset_ok length v" "vtree v = ex_vtree" using ex_vset by blast
  then have all: "Vset_GetAll v = [(1, ''a''), (1, ''b''), (3, ''c'')]" by (simp add: Vset_GetAll_def DoInAll_inorder ex_vtree_def)
  from vset_get_range [OF v(1), of 1 2] v(1) show ?thesis by (auto simp: all)
qed

section \<open>Removal of ranges\<close>

lemma advance_dec_off: "i < length (elems t) \<Longrightarrow> Suc i < n \<Longrightarrow> advance (iter_dec t) n (Some i) = None"
proof (induction n arbitrary: i)
  case (Suc n)
  then show ?case
  proof (cases i)
    case 0
    with Suc.prems obtain k where "n = Suc k" by (cases n) auto
    with 0 Suc.prems show ?thesis by (simp add: iter_dec_at)
  qed (use Suc in \<open>simp add: iter_dec_at\<close>)
qed simp

lemma erased_size:
  assumes "vset_ok hf v" "vtree_ok t" "length (elems t) < length (elems (vtree v))"
  shows "Vset_GetSize (v\<lparr>vtree := t\<rparr>) = None"
proof -
  have "tree_size t = int (length (elems t))"
    using assms by (simp add: vset_ok_def vtree_ok_def counted_def tree_size_def unsigned_of_nat take_bit_nat_eq_self)
  then show ?thesis using assms by (simp add: Vset_GetSize_def vset_ok_def)
qed

lemma EraseRange_inside:
  assumes ok: "vset_ok hf v" and lr: "l < r" "r < length (elems (vtree v))" and n: "length (elems (vtree v)) < 2 ^ 62"
  shows "\<exists>t. Vset_EraseRange (int l) (int r) v = Some (Suc r - l, v\<lparr>vtree := t\<rparr>) \<and> vtree_ok t
    \<and> elems t = take l (elems (vtree v)) @ drop (Suc r) (elems (vtree v))"
proof -
  let ?t = "vtree v" and ?n = "length (elems (vtree v))"
  have sz: "tree_size ?t = int ?n" using vset_okD(5) [OF ok] .
  have N: "N2P ?t (int l) = int l" "N2P ?t (int r) = int r" using lr n by (simp_all add: N2P_def)
  have c: "int64 (VSET_MIN (size_t (int r)) (int ?n)) = int r" "int64 (int r - int l + 1) = int (Suc r - l)"
    "int64 (int ?n - 1 - int r) = int (?n - 1 - r)" "rounds (int (Suc r - l)) = Suc r - l" "rounds (int l) = l"
    "rounds (int (?n - 1 - r)) = ?n - 1 - r" "\<not> int r \<le> int l"
    using lr n by (auto simp: min_def of_nat_diff)
  have "Vset_EraseRange (int l) (int r) v = (if l < ?n - 1 - r
      then do { it \<leftarrow> advance (iter_inc ?t) l (tree_begin ?t); (ret, t) \<leftarrow> erase_fwd (Suc r - l) it ?t 0; Some (ret, v\<lparr>vtree := t\<rparr>) }
      else do { it \<leftarrow> advance (iter_dec ?t) (?n - 1 - r) (tree_before_end ?t);
                (ret, t) \<leftarrow> erase_bwd (Suc r - l) it ?t 0; Some (ret, v\<lparr>vtree := t\<rparr>) })"
    unfolding Vset_EraseRange_def Let_def N sz c using c(7) by (simp only: if_False of_nat_less_iff)
  moreover have "advance (iter_inc ?t) l (tree_begin ?t) = Some (at_pos ?t l)"
    using advance_inc [of 0 l ?t] lr by (simp add: tree_begin_at)
  moreover have "advance (iter_dec ?t) (?n - 1 - r) (tree_before_end ?t) = Some (Some r)"
    using advance_dec [of "?n - 1 - r" "?n - 1" ?t] lr by (auto simp: tree_before_end_at)
  moreover have "\<exists>t. erase_fwd (Suc r - l) (at_pos ?t l) ?t 0 = Some (Suc r - l, t) \<and> vtree_ok t
      \<and> elems t = take l (elems ?t) @ drop (Suc r) (elems ?t)"
    using erase_fwd_at [OF vset_okD(2) [OF ok], of l "Suc r - l" 0] lr by auto
  moreover have "\<exists>t. erase_bwd (Suc r - l) (Some r) ?t 0 = Some (Suc r - l, t) \<and> vtree_ok t
      \<and> elems t = take l (elems ?t) @ drop (Suc r) (elems ?t)"
    using erase_bwd_at [OF vset_okD(2) [OF ok] lr(2), of "Suc r - l" 0] lr by auto
  ultimately show ?thesis by (cases "l < ?n - 1 - r") force+
qed

lemma EraseRange_outside:
  assumes ok: "vset_ok hf v" and lr: "l < length (elems (vtree v))" "length (elems (vtree v)) \<le> r" "r < 2 ^ 62"
  shows "Vset_EraseRange (int l) (int r) v = None"
proof -
  let ?t = "vtree v" and ?n = "length (elems (vtree v))"
  have N: "N2P ?t (int l) = int l" "N2P ?t (int r) = int r" using lr by (simp_all add: N2P_def)
  have c: "int64 (min (int r) (int ?n)) = int ?n" "int64 (int ?n - 1 - int ?n) = - 1" using lr by (auto simp: min_def)
  have "Suc (?n - 1) < rounds (- 1)" using rounds_negative [of "- 1"] lr by simp
  moreover have "tree_before_end ?t = Some (?n - 1)" "?n - 1 < ?n" using lr by (auto simp: tree_before_end_at)
  ultimately have "advance (iter_dec ?t) (rounds (- 1)) (tree_before_end ?t) = None" by (simp add: advance_dec_off)
  then show ?thesis using lr by (simp add: Vset_EraseRange_def Let_def N vset_okD(5) [OF ok] c)
qed



end
