(* ===== verification/KvdbBase.thy ===== *)
theory KvdbBase
  imports HashSet Caches Vset ComparatorUtil
begin

text \<open>
  The state of a database instance (\<^verbatim>\<open>MmkvDb\<close> in \<^verbatim>\<open>db/kvdb.h\<close>) and the private operations its commands are
  made of: typed values, replacement, lazy and periodic expiration, and the shard tables.

  A dictionary node carries the address \<open>eaddr\<close> of its key: the cache and the shard tables hold such addresses,
  and reading through one that no node of the dictionary has is a use after free. Every operation returns an
  option; \<open>None\<close> stands for a failed assertion, a null or dangling pointer, or a loop that does not end. A string
  that was moved from is empty. A write through a pointer to a node replaces the entry with that key.
\<close>

section \<open>Data\<close>

datatype status_code = S_OK | S_EXISTS | S_NONEXISTS | S_INVALID_MESSAGE | S_INVALID_RANGE | S_VMEMBER_NONEXISTS
  | S_EXISTS_DIFF_TYPE | S_FIELD_NONEXISTS | S_SET_MEMBER_NONEXISTS | S_INVALID_REQUEST | S_SET_NO_MEMBER
  | S_DEST_EXISTS | S_EXPIRE_DISABLE | S_SHARD_LOCKED | S_SHARD_PROCESSING | S_SHARD_NONEXISTS

datatype data_type = D_STRING | D_STRLIST | D_SORTED_SET | D_MAP | D_SET

type_synonym smap = "(string \<times> string) hash_table"
type_synonym sset = "string hash_table"

text \<open>What \<^verbatim>\<open>any_data\<close> points to. The list is the sequence its nodes hold.\<close>

datatype any_data = PString string | PStrList "string list" | PVset vset | PMap smap | PSet sset

record mmkv_data =
  dtype :: data_type
  any_data :: "any_data option"

record entry =
  eaddr :: addr
  ekey :: string
  edata :: mmkv_data

datatype log_method = LM_REQUEST | LM_NONE

datatype replace_policy = RP_LRU | RP_MRU | RP_LFU | RP_NONE

record mmkv_config =
  log_method :: log_method
  replace_policy :: replace_policy
  lazy_expiration :: bool
  max_memory_usage :: nat
  expiration_check_cycle :: int
  shard_controller_endpoint :: string
  shard_num :: nat
  thread_num :: int

definition IsExpirationDisable :: "mmkv_config \<Rightarrow> bool" where
  "IsExpirationDisable c = (\<not> lazy_expiration c \<and> expiration_check_cycle c \<le> 0)"

definition IsSharder :: "mmkv_config \<Rightarrow> bool" where
  "IsSharder c = (shard_controller_endpoint c \<noteq> [])"

definition SupportDistribution :: "mmkv_config \<Rightarrow> bool" where
  "SupportDistribution c = (shard_controller_endpoint c \<noteq> [])"

text \<open>The virtual functions of the cache object (\<^verbatim>\<open>CacheInterface\<close>), whose state is of type \<open>'c\<close>.\<close>

record 'c cache_vtable =
  c_UpdateEntry :: "addr \<Rightarrow> 'c \<Rightarrow> (addr option \<times> 'c) option"
  c_DelEntry :: "addr \<Rightarrow> 'c \<Rightarrow> (bool \<times> 'c) option"
  c_Victim :: "'c \<Rightarrow> addr option option"
  c_DelVictim :: "'c \<Rightarrow> 'c option"
  c_Clear :: "'c \<Rightarrow> 'c option"

definition LruCache_vtable :: "(addr \<Rightarrow> nat) \<Rightarrow> addr list_cache cache_vtable" where
  "LruCache_vtable hf = \<lparr>c_UpdateEntry = Lru_UpdateEntry hf, c_DelEntry = Lru_DelEntry hf, c_Victim = Lru_Victim,
     c_DelVictim = Lru_DelVictim hf, c_Clear = Lru_Clear\<rparr>"

definition MruCache_vtable :: "(addr \<Rightarrow> nat) \<Rightarrow> addr list_cache cache_vtable" where
  "MruCache_vtable hf = \<lparr>c_UpdateEntry = Mru_UpdateEntry hf, c_DelEntry = Mru_DelEntry hf,
     c_Victim = (\<lambda>c. map_option Some (Mru_Victim c)), c_DelVictim = Mru_DelVictim hf, c_Clear = Mru_Clear\<rparr>"

text \<open>
  What a command finds around it: the configuration, the hash functions (\<^verbatim>\<open>XXH64\<close> with seed 0 among them), the
  clock, the memory statistics and the class of the cache.
\<close>

record 'c env =
  config :: mmkv_config
  hash_str :: "string \<Rightarrow> nat"
  hash_ptr :: "addr \<Rightarrow> nat"
  hash_shard :: "64 word \<Rightarrow> nat"
  XXH64 :: "string \<Rightarrow> nat"
  cur_ms :: nat
  memory_usage :: nat
  vtable :: "'c cache_vtable"

record 'c kvdb =
  dict :: "entry tree_hash_table"
  exp_dict :: "(string \<times> nat) tree_hash_table"
  cache :: "'c option"
  sdict :: "(64 word \<times> addr hash_table) tree_hash_table"
  locked_shards :: "64 word hash_table"
  is_ignore_locked_shard :: bool
  rlog :: "string list"
  next_addr :: addr

text \<open>\<^verbatim>\<open>MmkvDb\<close>'s constructor; \<open>new_cache\<close> constructs the cache class of a policy with capacity \<^verbatim>\<open>-1\<close>.\<close>

definition MmkvDb_new :: "(replace_policy \<Rightarrow> 'c) \<Rightarrow> mmkv_config \<Rightarrow> 'c kvdb" where
  "MmkvDb_new new_cache cf = \<lparr>dict = TreeHashTable_new, exp_dict = TreeHashTable_new,
     cache = (case replace_policy cf of
         RP_LRU \<Rightarrow> Some (new_cache RP_LRU)
       | RP_LFU \<Rightarrow> Some (new_cache RP_LFU)
       | RP_MRU \<Rightarrow> Some (new_cache RP_MRU)
       | RP_NONE \<Rightarrow> None),
     sdict = TreeHashTable_new, locked_shards = HashTable_new, is_ignore_locked_shard = False, rlog = [], next_addr = 1\<rparr>"

section \<open>Dictionary access\<close>

definition TreeTable_assign :: "('a \<Rightarrow> 'k) \<Rightarrow> 'a \<Rightarrow> 'a tree_hash_table \<Rightarrow> 'a tree_hash_table" where
  "TreeTable_assign gk x ht =
     ht\<lparr>table1 := (table1 ht)\<lparr>buckets := map (map_avl_node (assign_entry gk x)) (buckets (table1 ht))\<rparr>,
        table2 := (table2 ht)\<lparr>buckets := map (map_avl_node (assign_entry gk x)) (buckets (table2 ht))\<rparr>\<rparr>"

definition dict_Find :: "'c env \<Rightarrow> string \<Rightarrow> 'c kvdb \<Rightarrow> (entry option \<times> 'c kvdb) option" where
  "dict_Find E k db = do { (r, d) \<leftarrow> TreeTable_Find strcmp (hash_str E) ekey k (dict db); Some (r, db\<lparr>dict := d\<rparr>) }"

definition dict_Extract :: "'c env \<Rightarrow> string \<Rightarrow> 'c kvdb \<Rightarrow> ((entry \<times> int) option \<times> 'c kvdb) option" where
  "dict_Extract E k db = do { (r, d) \<leftarrow> TreeTable_Extract strcmp (hash_str E) ekey k (dict db); Some (r, db\<lparr>dict := d\<rparr>) }"

text \<open>\<^verbatim>\<open>InsertKvWithDuplicate(k, MmkvData(type), duplicate)\<close>: a new node has null data and a fresh address.\<close>

definition InsertKvWithDuplicate :: "'c env \<Rightarrow> string \<Rightarrow> data_type \<Rightarrow> 'c kvdb \<Rightarrow> (bool \<times> entry \<times> 'c kvdb) option" where
  "InsertKvWithDuplicate E k ty db =
     do { (ok, d, t) \<leftarrow> TreeTable_InsertWithDuplicate strcmp (hash_str E) ekey
            \<lparr>eaddr = next_addr db, ekey = k, edata = \<lparr>dtype = ty, any_data = None\<rparr>\<rparr> (dict db);
          Some (ok, d, db\<lparr>dict := t, next_addr := next_addr db + 1\<rparr>) }"

definition InsertKv :: "'c env \<Rightarrow> string \<Rightarrow> data_type \<Rightarrow> 'c kvdb \<Rightarrow> (entry option \<times> 'c kvdb) option" where
  "InsertKv E k ty db = do { (ok, d, db) \<leftarrow> InsertKvWithDuplicate E k ty db; Some (if ok then Some d else None, db) }"

definition set_data :: "entry \<Rightarrow> any_data \<Rightarrow> 'c kvdb \<Rightarrow> 'c kvdb" where
  "set_data e p db = db\<lparr>dict := TreeTable_assign ekey (e\<lparr>edata := (edata e)\<lparr>any_data := Some p\<rparr>\<rparr>) (dict db)\<rparr>"

text \<open>Reading \<^verbatim>\<open>*key\<close> for a stored key address.\<close>

definition key_at :: "addr \<Rightarrow> 'c kvdb \<Rightarrow> string option" where
  "key_at a db = map_option ekey (List.find (\<lambda>e. eaddr e = a) (tt_elems (dict db)))"

text \<open>The casts of \<^verbatim>\<open>any_data\<close>.\<close>

definition to_str :: "entry \<Rightarrow> string option" where
  "to_str e = (case any_data (edata e) of Some (PString s) \<Rightarrow> Some s | _ \<Rightarrow> None)"

definition to_list :: "entry \<Rightarrow> string list option" where
  "to_list e = (case any_data (edata e) of Some (PStrList l) \<Rightarrow> Some l | _ \<Rightarrow> None)"

definition TO_VSET :: "entry \<Rightarrow> vset option" where
  "TO_VSET e = (case any_data (edata e) of Some (PVset v) \<Rightarrow> Some v | _ \<Rightarrow> None)"

definition TO_MAP :: "entry \<Rightarrow> smap option" where
  "TO_MAP e = (case any_data (edata e) of Some (PMap m) \<Rightarrow> Some m | _ \<Rightarrow> None)"

definition TO_SET :: "entry \<Rightarrow> sset option" where
  "TO_SET e = (case any_data (edata e) of Some (PSet s) \<Rightarrow> Some s | _ \<Rightarrow> None)"

section \<open>Shard tables\<close>

definition MakeShardId :: "'c env \<Rightarrow> string \<Rightarrow> 64 word" where
  "MakeShardId E k = ucast (of_nat (XXH64 E k) :: 32 word)"

definition IsShardLocked :: "'c env \<Rightarrow> 64 word \<Rightarrow> 'c kvdb \<Rightarrow> (bool \<times> 'c kvdb) option" where
  "IsShardLocked E sid db =
     do { (r, s) \<leftarrow> HashTable_Find (hash_shard E) id sid (locked_shards db); Some (r \<noteq> None, db\<lparr>locked_shards := s\<rparr>) }"

definition HasShardLocked :: "'c kvdb \<Rightarrow> bool" where
  "HasShardLocked db = (used (table1 (locked_shards db)) \<noteq> 0)"

definition LockShard :: "'c env \<Rightarrow> 64 word \<Rightarrow> 'c kvdb \<Rightarrow> 'c kvdb option" where
  "LockShard E sid db =
     do { (l, db) \<leftarrow> IsShardLocked E sid db;
          assertion (\<not> l);
          (_, s) \<leftarrow> HashTable_Insert (hash_shard E) id sid (locked_shards db);
          Some (db\<lparr>locked_shards := s\<rparr>) }"

definition UnlockShard :: "'c env \<Rightarrow> 64 word \<Rightarrow> 'c kvdb \<Rightarrow> 'c kvdb option" where
  "UnlockShard E sid db =
     do { (l, db) \<leftarrow> IsShardLocked E sid db;
          assertion l;
          (_, s) \<leftarrow> HashTable_Erase (hash_shard E) id sid (locked_shards db);
          Some (db\<lparr>locked_shards := s\<rparr>) }"

definition UnlockAllShard :: "'c kvdb \<Rightarrow> 'c kvdb option" where
  "UnlockAllShard db = do { s \<leftarrow> HashTable_Clear (locked_shards db); Some (db\<lparr>locked_shards := s\<rparr>) }"

definition DeleteAllShard :: "'c kvdb \<Rightarrow> 'c kvdb option" where
  "DeleteAllShard db = do { s \<leftarrow> TreeTable_Clear (sdict db); Some (db\<lparr>sdict := s\<rparr>) }"

definition sdict_Find :: "'c env \<Rightarrow> 64 word \<Rightarrow> 'c kvdb \<Rightarrow> ((64 word \<times> addr hash_table) option \<times> 'c kvdb) option" where
  "sdict_Find E sid db =
     do { (r, s) \<leftarrow> TreeTable_Find Comparator_uint64 (hash_shard E) fst sid (sdict db); Some (r, db\<lparr>sdict := s\<rparr>) }"

definition HasShard :: "'c env \<Rightarrow> 64 word \<Rightarrow> 'c kvdb \<Rightarrow> (bool \<times> 'c kvdb) option" where
  "HasShard E sid db = do { (r, db) \<leftarrow> sdict_Find E sid db; Some (r \<noteq> None, db) }"

text \<open>\<^verbatim>\<open>sdict_[sid]\<close>: the key set of the shard, inserted empty when the shard is not there.\<close>

definition sdict_at :: "'c env \<Rightarrow> 64 word \<Rightarrow> 'c kvdb \<Rightarrow> (addr hash_table \<times> 'c kvdb) option" where
  "sdict_at E sid db =
     do { (r, db) \<leftarrow> sdict_Find E sid db;
          case r of
            Some kv \<Rightarrow> Some (snd kv, db)
          | None \<Rightarrow> do { (kv, s) \<leftarrow> TreeTable_Insert Comparator_uint64 (hash_shard E) fst (sid, HashTable_new) (sdict db);
                        p \<leftarrow> kv;
                        Some (snd p, db\<lparr>sdict := s\<rparr>) } }"

definition AddKeyToShard :: "'c env \<Rightarrow> entry \<Rightarrow> 'c kvdb \<Rightarrow> 'c kvdb option" where
  "AddKeyToShard E e db =
     (if IsSharder (config E)
      then do { let sid = MakeShardId E (ekey e);
                (ks, db) \<leftarrow> sdict_at E sid db;
                (_, ks) \<leftarrow> HashTable_Insert (hash_ptr E) id (eaddr e) ks;
                Some (db\<lparr>sdict := TreeTable_assign fst (sid, ks) (sdict db)\<rparr>) }
      else Some db)"

definition RemoveKeyFromShard :: "'c env \<Rightarrow> entry \<Rightarrow> 'c kvdb \<Rightarrow> 'c kvdb option" where
  "RemoveKeyFromShard E e db =
     (if IsSharder (config E)
      then do { let sid = MakeShardId E (ekey e);
                (ks, db) \<leftarrow> sdict_at E sid db;
                (_, ks) \<leftarrow> HashTable_Erase (hash_ptr E) id (eaddr e) ks;
                Some (db\<lparr>sdict := TreeTable_assign fst (sid, ks) (sdict db)\<rparr>) }
      else Some db)"

definition AddShard :: "'c env \<Rightarrow> 64 word \<Rightarrow> 'c kvdb \<Rightarrow> 'c kvdb option" where
  "AddShard E sid db =
     (if IsSharder (config E)
      then do { (_, s) \<leftarrow> TreeTable_Insert Comparator_uint64 (hash_shard E) fst (sid, HashTable_new) (sdict db);
                Some (db\<lparr>sdict := s\<rparr>) }
      else Some db)"

text \<open>
  \<^verbatim>\<open>CHECK_SHARD_IS_LOCKED_KEY\<close> and \<^verbatim>\<open>CHECK_HAS_SHARD_LOCKED_KEY\<close>: the status to return early with, if any. The
  shard checked is the identifier modulo \<^verbatim>\<open>shard_num\<close>; division by zero traps.
\<close>

definition CHECK_SHARD_IS_LOCKED_KEY :: "'c env \<Rightarrow> string \<Rightarrow> 'c kvdb \<Rightarrow> (status_code option \<times> 'c kvdb) option" where
  "CHECK_SHARD_IS_LOCKED_KEY E k db =
     (if IsSharder (config E)
      then do { assertion (shard_num (config E) \<noteq> 0);
                let sid = of_nat (unat (MakeShardId E k) mod shard_num (config E));
                (h, db) \<leftarrow> HasShard E sid db;
                if \<not> h then Some (Some S_SHARD_NONEXISTS, db)
                else do { (l, db) \<leftarrow> IsShardLocked E sid db;
                          Some (if l \<and> \<not> is_ignore_locked_shard db then Some S_SHARD_LOCKED else None, db) } }
      else Some (None, db))"

definition CHECK_HAS_SHARD_LOCKED_KEY :: "'c env \<Rightarrow> 'c kvdb \<Rightarrow> status_code option" where
  "CHECK_HAS_SHARD_LOCKED_KEY E db =
     (if IsSharder (config E) \<and> HasShardLocked db \<and> \<not> is_ignore_locked_shard db then Some S_SHARD_LOCKED else None)"

section \<open>Replacement\<close>

definition CacheUpdate :: "'c env \<Rightarrow> entry \<Rightarrow> 'c kvdb \<Rightarrow> 'c kvdb option" where
  "CacheUpdate E e db = (case cache db of
      None \<Rightarrow> Some db
    | Some c \<Rightarrow> do { (_, c) \<leftarrow> c_UpdateEntry (vtable E) (eaddr e) c; Some (db\<lparr>cache := Some c\<rparr>) })"

definition CacheAdd :: "'c env \<Rightarrow> entry \<Rightarrow> 'c kvdb \<Rightarrow> 'c kvdb option" where
  "CacheAdd E e db = (case cache db of
      None \<Rightarrow> Some db
    | Some c \<Rightarrow> do { (_, c) \<leftarrow> c_UpdateEntry (vtable E) (eaddr e) c; Some (db\<lparr>cache := Some c\<rparr>) })"

definition CacheRemove :: "'c env \<Rightarrow> entry \<Rightarrow> 'c kvdb \<Rightarrow> 'c kvdb option" where
  "CacheRemove E e db = (case cache db of
      None \<Rightarrow> Some db
    | Some c \<Rightarrow> do { (_, c) \<leftarrow> c_DelEntry (vtable E) (eaddr e) c; Some (db\<lparr>cache := Some c\<rparr>) })"

definition AppendDel :: "'c env \<Rightarrow> string \<Rightarrow> 'c kvdb \<Rightarrow> 'c kvdb" where
  "AppendDel E k db = (if log_method (config E) = LM_REQUEST then db\<lparr>rlog := rlog db @ [k]\<rparr> else db)"

text \<open>\<^verbatim>\<open>TryReplacekey(key)\<close>; a null \<open>key\<close> is dereferenced once memory has run out.\<close>

definition TryReplacekey :: "'c env \<Rightarrow> entry option \<Rightarrow> 'c kvdb \<Rightarrow> 'c kvdb option" where
  "TryReplacekey E key db = (case cache db of
      None \<Rightarrow> Some db
    | Some c \<Rightarrow>
        if memory_usage E < max_memory_usage (config E) then Some db
        else do { e \<leftarrow> key;
                  (l, db) \<leftarrow> IsShardLocked E (MakeShardId E (ekey e)) db;
                  if l then Some db
                  else do { v \<leftarrow> c_Victim (vtable E) c;
                            case v of
                              None \<Rightarrow> Some db
                            | Some a \<Rightarrow>
                                if a = eaddr e then Some db
                                else do { k \<leftarrow> key_at a db;
                                          (r, db) \<leftarrow> dict_Extract E k db;
                                          n \<leftarrow> r;
                                          c \<leftarrow> c_DelVictim (vtable E) c;
                                          Some (AppendDel E (ekey (fst n)) (db\<lparr>cache := Some c\<rparr>)) } } })"

section \<open>Expiration\<close>

definition exp_FindNode :: "'c env \<Rightarrow> string \<Rightarrow> 'c kvdb \<Rightarrow> (node_loc option \<times> 'c kvdb) option" where
  "exp_FindNode E k db =
     do { (r, t) \<leftarrow> TreeTable_FindNode strcmp (hash_str E) fst k (exp_dict db); Some (r, db\<lparr>exp_dict := t\<rparr>) }"

definition exp_Find :: "'c env \<Rightarrow> string \<Rightarrow> 'c kvdb \<Rightarrow> ((string \<times> nat) option \<times> 'c kvdb) option" where
  "exp_Find E k db =
     do { (r, t) \<leftarrow> TreeTable_Find strcmp (hash_str E) fst k (exp_dict db); Some (r, db\<lparr>exp_dict := t\<rparr>) }"

definition exp_Erase :: "'c env \<Rightarrow> string \<Rightarrow> 'c kvdb \<Rightarrow> 'c kvdb option" where
  "exp_Erase E k db =
     do { (_, t) \<leftarrow> TreeTable_Erase strcmp (hash_str E) fst k (exp_dict db); Some (db\<lparr>exp_dict := t\<rparr>) }"

text \<open>\<^verbatim>\<open>CheckExpire\<close>: an expired key is dropped from both dictionaries, and the caller's key is moved into the log.\<close>

definition CheckExpire :: "'c env \<Rightarrow> string \<Rightarrow> 'c kvdb \<Rightarrow> (bool \<times> 'c kvdb) option" where
  "CheckExpire E key db =
     (if \<not> lazy_expiration (config E) then Some (False, db)
      else do { (node, db) \<leftarrow> exp_FindNode E key db;
                case node of
                  None \<Rightarrow> Some (False, db)
                | Some loc \<Rightarrow>
                    do { kv \<leftarrow> deref_node loc (exp_dict db);
                         if snd kv \<le> cur_ms E
                         then do { (_, t) \<leftarrow> TreeTable_EraseNode loc (exp_dict db);
                                   (node2, db) \<leftarrow> dict_Extract E key (db\<lparr>exp_dict := t\<rparr>);
                                   assertion (node2 \<noteq> None);
                                   Some (True, AppendDel E key db) }
                         else Some (False, db) } })"

definition key_after_expire :: "'c env \<Rightarrow> bool \<Rightarrow> string \<Rightarrow> string" where
  "key_after_expire E expired k = (if expired \<and> log_method (config E) = LM_REQUEST then [] else k)"

text \<open>The loops of \<^verbatim>\<open>CheckExpireCycle\<close>; \<^verbatim>\<open>DropNode\<close> of a null node is a null dereference.\<close>

fun expire_loop :: "'c env \<Rightarrow> (string \<times> nat) list \<Rightarrow> 'c kvdb \<Rightarrow> (string list \<times> 'c kvdb) option" where
  "expire_loop E [] db = Some ([], db)"
| "expire_loop E (k_exp # kvs) db =
     (if snd k_exp \<le> cur_ms E
      then do { (node, db) \<leftarrow> dict_Extract E (fst k_exp) db;
                assertion (node \<noteq> None);
                (ks, db) \<leftarrow> expire_loop E kvs db;
                Some (fst k_exp # ks, db) }
      else expire_loop E kvs db)"

fun exp_erase_all :: "'c env \<Rightarrow> string list \<Rightarrow> 'c kvdb \<Rightarrow> 'c kvdb option" where
  "exp_erase_all E [] db = Some db"
| "exp_erase_all E (k # ks) db = do { db \<leftarrow> exp_Erase E k db; exp_erase_all E ks db }"

definition CheckExpireCycle :: "'c env \<Rightarrow> 'c kvdb \<Rightarrow> 'c kvdb option" where
  "CheckExpireCycle E db =
     do { kvs \<leftarrow> range_for_tree (exp_dict db);
          (expire_keys, db) \<leftarrow> expire_loop E kvs db;
          db \<leftarrow> exp_erase_all E expire_keys db;
          Some (fold (AppendDel E) expire_keys db) }"

end
