(* ===== verification/Messages.thy ===== *)
theory Messages
  imports KvdbBase
begin

text \<open>
  Commands (\<^verbatim>\<open>protocol/command.h\<close>), their classification for locking and logging (\<^verbatim>\<open>disk/log_command.cc\<close>), and the
  request and response messages (\<^verbatim>\<open>protocol/mmbp_request.h\<close>, \<^verbatim>\<open>mmbp_response.h\<close>) with their presence bits.
\<close>

unbundle bit_operations_syntax

section \<open>Commands\<close>

datatype (plugins only: code) command = STR_ADD | STR_DEL | STR_GET | STR_SET | STRLEN | STRAPPEND | STRPOPBACK
  | LADD | LAPPEND | LPREPEND | LGETSIZE | LGETALL | LGETRANGE | LPOPFRONT | LPOPBACK | LDEL
  | VADD | VDELM | VDELMRANGE | VDELMRANGEBYWEIGHT | VSIZE | VSIZEBYWEIGHT | VWEIGHT | VORDER | VRORDER | VRANGE | VALL
  | VRANGEBYWEIGHT | VRRANGE | VRRANGEBYWEIGHT
  | MADD | MSET | MGET | MGETS | MDEL | MALL | MFIELDS | MVALUES | MSIZE | MEXISTS
  | SADD | SDELM | SSIZE | SALL | SEXISTS | SAND | SANDTO | SSUB | SSUBTO | SOR | SORTO | SANDSIZE | SSUBSIZE | SORSIZE | SRANDDELM
  | MEM_STAT | EXPIRE_AT | EXPIRE_AFTER | EXPIREM_AT | EXPIREM_AFTER | PERSIST | EXPIRATION | TTL | DEL | RENAME | TYPE_CMD
  | KEYALL | DELS | DELALL | SHARD_JOIN | SHARD_LEAVE

text \<open>The enumerators in the order of their values; \<^verbatim>\<open>COMMAND_NUM\<close> is their number.\<close>

definition commands :: "command list" where
  "commands = [STR_ADD, STR_DEL, STR_GET, STR_SET, STRLEN, STRAPPEND, STRPOPBACK,
     LADD, LAPPEND, LPREPEND, LGETSIZE, LGETALL, LGETRANGE, LPOPFRONT, LPOPBACK, LDEL,
     VADD, VDELM, VDELMRANGE, VDELMRANGEBYWEIGHT, VSIZE, VSIZEBYWEIGHT, VWEIGHT, VORDER, VRORDER, VRANGE, VALL,
     VRANGEBYWEIGHT, VRRANGE, VRRANGEBYWEIGHT,
     MADD, MSET, MGET, MGETS, MDEL, MALL, MFIELDS, MVALUES, MSIZE, MEXISTS,
     SADD, SDELM, SSIZE, SALL, SEXISTS, SAND, SANDTO, SSUB, SSUBTO, SOR, SORTO, SANDSIZE, SSUBSIZE, SORSIZE, SRANDDELM,
     MEM_STAT, EXPIRE_AT, EXPIRE_AFTER, EXPIREM_AT, EXPIREM_AFTER, PERSIST, EXPIRATION, TTL, DEL, RENAME, TYPE_CMD,
     KEYALL, DELS, DELALL, SHARD_JOIN, SHARD_LEAVE]"

definition command_of :: "16 word \<Rightarrow> command option" where
  "command_of w = (if unat w < length commands then Some (commands ! unat w) else None)"

fun index_of :: "'a \<Rightarrow> 'a list \<Rightarrow> nat" where
  "index_of x [] = 0"
| "index_of x (y # ys) = (if x = y then 0 else Suc (index_of x ys))"

definition command_num :: "command \<Rightarrow> 16 word" where
  "command_num c = of_nat (index_of c commands)"

datatype command_type = CT_READ | CT_WRITE | CT_INVALID

definition write_commands :: "command list" where
  "write_commands = [STR_ADD, STR_DEL, STR_SET, STRAPPEND, STRPOPBACK, LADD, LAPPEND, LPREPEND, LPOPFRONT, LPOPBACK, LDEL,
     VADD, VDELM, VDELMRANGE, VDELMRANGEBYWEIGHT, MADD, MSET, MDEL, SADD, SDELM, SSUBTO, SORTO, SANDTO, DEL, RENAME, DELS,
     DELALL, EXPIRE_AT, EXPIREM_AT, EXPIRE_AFTER, EXPIREM_AFTER, SRANDDELM, PERSIST]"

definition GetCommandType :: "16 word \<Rightarrow> command_type" where
  "GetCommandType w = (case command_of w of
      None \<Rightarrow> CT_INVALID
    | Some c \<Rightarrow> if c \<in> set write_commands then CT_WRITE else CT_READ)"

section \<open>Messages\<close>

text \<open>The union of \<^verbatim>\<open>count\<close> and \<^verbatim>\<open>range\<close>: the count is the low half of the left bound.\<close>

record request =
  rq_has_bits :: "8 word"
  rq_command :: "16 word"
  rq_key :: string
  rq_kvs :: "(string \<times> string) list"
  rq_values :: "string list"
  rq_value :: string
  rq_vmembers :: "(real \<times> string) list"
  rq_expire_time :: "64 word"
  rq_range_left :: "64 word"
  rq_range_right :: "64 word"

definition rq_count :: "request \<Rightarrow> 32 word" where
  "rq_count rq = ucast (rq_range_left rq)"

definition set_rq_count :: "32 word \<Rightarrow> request \<Rightarrow> request" where
  "set_rq_count n rq = rq\<lparr>rq_range_left := (rq_range_left rq AND push_bit 32 (mask 32)) OR ucast n\<rparr>"

definition HasKey :: "request \<Rightarrow> bool" where "HasKey rq = bit (rq_has_bits rq) 0"
definition HasValue :: "request \<Rightarrow> bool" where "HasValue rq = bit (rq_has_bits rq) 1"
definition HasExpireTime :: "request \<Rightarrow> bool" where "HasExpireTime rq = bit (rq_has_bits rq) 2"
definition HasValues :: "request \<Rightarrow> bool" where "HasValues rq = bit (rq_has_bits rq) 3"
definition HasKvs :: "request \<Rightarrow> bool" where "HasKvs rq = bit (rq_has_bits rq) 4"
definition HasCount :: "request \<Rightarrow> bool" where "HasCount rq = bit (rq_has_bits rq) 5"
definition HasRange :: "request \<Rightarrow> bool" where "HasRange rq = bit (rq_has_bits rq) 6"
definition HasVmembers :: "request \<Rightarrow> bool" where "HasVmembers rq = bit (rq_has_bits rq) 7"
definition HasNone :: "request \<Rightarrow> bool" where "HasNone rq = (rq_has_bits rq = 0)"

text \<open>The bit patterns of doubles.\<close>

record conv =
  int2double :: "64 word \<Rightarrow> real"
  double2u64 :: "real \<Rightarrow> 64 word"

record response =
  rs_has_bits :: "8 word"
  rs_status_code :: "8 word"
  rs_count :: "64 word"
  rs_value :: string
  rs_values :: "string list"
  rs_kvs :: "(string \<times> string) list"
  rs_vmembers :: "(real \<times> string) list"

text \<open>The constructor leaves \<^verbatim>\<open>count\<close> unset; \<open>n\<close> is what the memory holds.\<close>

definition MmbpResponse_new :: "64 word \<Rightarrow> response" where
  "MmbpResponse_new n = \<lparr>rs_has_bits = 0, rs_status_code = 255, rs_count = n, rs_value = [], rs_values = [], rs_kvs = [], rs_vmembers = []\<rparr>"

definition rs_set_bit :: "nat \<Rightarrow> response \<Rightarrow> response" where
  "rs_set_bit i r = r\<lparr>rs_has_bits := set_bit i (rs_has_bits r)\<rparr>"

definition SetValue :: "response \<Rightarrow> response" where "SetValue = rs_set_bit 0"
definition SetValues :: "response \<Rightarrow> response" where "SetValues = rs_set_bit 1"
definition SetKvs :: "response \<Rightarrow> response" where "SetKvs = rs_set_bit 2"
definition SetCount :: "response \<Rightarrow> response" where "SetCount = rs_set_bit 3"
definition SetVmembers :: "response \<Rightarrow> response" where "SetVmembers = rs_set_bit 4"

text \<open>The values of the enumerators of \<^verbatim>\<open>StatusCode\<close>.\<close>

fun code_num :: "status_code \<Rightarrow> 8 word" where
  "code_num S_OK = 0"
| "code_num S_EXISTS = 1"
| "code_num S_NONEXISTS = 2"
| "code_num S_INVALID_MESSAGE = 3"
| "code_num S_INVALID_RANGE = 4"
| "code_num S_VMEMBER_NONEXISTS = 5"
| "code_num S_EXISTS_DIFF_TYPE = 6"
| "code_num S_FIELD_NONEXISTS = 7"
| "code_num S_SET_MEMBER_NONEXISTS = 8"
| "code_num S_INVALID_REQUEST = 9"
| "code_num S_SET_NO_MEMBER = 10"
| "code_num S_DEST_EXISTS = 11"
| "code_num S_EXPIRE_DISABLE = 12"
| "code_num S_SHARD_LOCKED = 13"
| "code_num S_SHARD_PROCESSING = 14"
| "code_num S_SHARD_NONEXISTS = 15"

definition SetCode :: "status_code \<Rightarrow> response \<Rightarrow> response" where
  "SetCode c r = r\<lparr>rs_status_code := code_num c\<rparr>"

fun GetDataTypeString :: "data_type \<Rightarrow> string" where
  "GetDataTypeString D_STRING = ''string''"
| "GetDataTypeString D_STRLIST = ''list''"
| "GetDataTypeString D_SORTED_SET = ''vset''"
| "GetDataTypeString D_MAP = ''map''"
| "GetDataTypeString D_SET = ''hash set''"

section \<open>Commands and their numbers\<close>

lemma index_of_less: "x \<in> set xs \<Longrightarrow> index_of x xs < length xs \<and> xs ! index_of x xs = x"
  by (induction xs) auto

lemma commands_all: "c \<in> set commands"
  by (cases c) (simp_all only: commands_def list.set insert_iff simp_thms)

lemma length_commands [simp]: "length commands = 71"
  by (simp add: commands_def)

lemma command_of_num [simp]: "command_of (command_num c) = Some c"
proof -
  note i = index_of_less [OF commands_all [of c]]
  then have "unat (of_nat (index_of c commands) :: 16 word) = index_of c commands" by (simp add: unat_of_nat)
  with i show ?thesis by (simp add: command_of_def command_num_def)
qed

end
