(* ===== verification/Wire.thy ===== *)
theory Wire
  imports Messages "HOL-Library.Sublist"
begin

text \<open>
  The components of MMBP messages (\<^verbatim>\<open>protocol/mmbp_util.h\<close>): integers, strings and sequences written to and read from
  a buffer or a raw region. A buffer is its readable bytes; the region is the memory from the pointer on and the size
  that is left by the caller's count. Reading past the bytes there are, and a failed assertion, give no result.
\<close>

section \<open>The integer encodings\<close>

text \<open>
  Variable-length integers (\<^verbatim>\<open>kvarint\<close>) and fixed-width ones in network byte order (\<^verbatim>\<open>kanon\<close>) are libraries and
  parameters here. Decoding returns the number of bytes it used.
\<close>

datatype 'a varint = KVARINT_OK nat 'a | KVARINT_DECODE_BUF_INVALID | KVARINT_DECODE_BUF_SHORT

record wire =
  encode8 :: "8 word \<Rightarrow> string"
  encode16 :: "16 word \<Rightarrow> string"
  encode32 :: "32 word \<Rightarrow> string"
  encode64 :: "64 word \<Rightarrow> string"
  decode8 :: "string \<Rightarrow> 8 word varint"
  decode16 :: "string \<Rightarrow> 16 word varint"
  decode32 :: "string \<Rightarrow> 32 word varint"
  decode64 :: "string \<Rightarrow> 64 word varint"
  decode64s :: "string \<Rightarrow> 64 word varint"
  append16 :: "16 word \<Rightarrow> string"
  append32 :: "32 word \<Rightarrow> string"
  append64 :: "64 word \<Rightarrow> string"
  host16 :: "string \<Rightarrow> 16 word"
  host32 :: "string \<Rightarrow> 32 word"
  host64 :: "string \<Rightarrow> 64 word"

section \<open>Reading from a buffer\<close>

definition ParseUnsigned :: "(string \<Rightarrow> 'a varint) \<Rightarrow> string \<Rightarrow> ('a \<times> string) option" where
  "ParseUnsigned dec b = (case dec b of
      KVARINT_OK len i \<Rightarrow> if len \<le> length b then Some (i, drop len b) else None
    | _ \<Rightarrow> None)"

definition read_bytes :: "nat \<Rightarrow> string \<Rightarrow> (string \<times> string) option" where
  "read_bytes n b = (if n \<le> length b then Some (take n b, drop n b) else None)"

definition ParseStr :: "wire \<Rightarrow> bool \<Rightarrow> string \<Rightarrow> (string \<times> string) option" where
  "ParseStr K is_16 b =
     do { (len, b) \<leftarrow> (if is_16 then map_option (map_prod unat id) (ParseUnsigned (decode16 K) b)
                       else map_option (map_prod unat id) (ParseUnsigned (decode32 K) b));
          read_bytes len b }"

text \<open>The bytes of one element: the size is read as a \<^verbatim>\<open>size_t\<close>, the bytes are appended to what the element holds.\<close>

definition parse_append :: "wire \<Rightarrow> string \<Rightarrow> string \<Rightarrow> (string \<times> string) option" where
  "parse_append K old b =
     do { (n, b) \<leftarrow> ParseUnsigned (decode64 K) b;
          (s, b) \<leftarrow> read_bytes (unat n) b;
          Some (old @ s, b) }"

definition resize :: "nat \<Rightarrow> 'a \<Rightarrow> 'a list \<Rightarrow> 'a list" where
  "resize n x xs = take n xs @ replicate (n - length xs) x"

fun values_loop :: "wire \<Rightarrow> string list \<Rightarrow> string \<Rightarrow> (string list \<times> string) option" where
  "values_loop K [] b = Some ([], b)"
| "values_loop K (v # vs) b =
     do { (v, b) \<leftarrow> parse_append K v b; (vs, b) \<leftarrow> values_loop K vs b; Some (v # vs, b) }"

definition ParseValues :: "wire \<Rightarrow> string list \<Rightarrow> string \<Rightarrow> (string list \<times> string) option" where
  "ParseValues K values b =
     do { (count, b) \<leftarrow> ParseUnsigned (decode32 K) b;
          values_loop K (resize (unat count) [] values) b }"

fun vmembers_loop :: "wire \<Rightarrow> conv \<Rightarrow> (real \<times> string) list \<Rightarrow> string \<Rightarrow> ((real \<times> string) list \<times> string) option" where
  "vmembers_loop K cv [] b = Some ([], b)"
| "vmembers_loop K cv ((_, v) # vs) b =
     do { (w, b) \<leftarrow> read_bytes 8 b;
          (v, b) \<leftarrow> parse_append K v b;
          (vs, b) \<leftarrow> vmembers_loop K cv vs b;
          Some ((int2double cv (host64 K w), v) # vs, b) }"

definition ParseVmembers :: "wire \<Rightarrow> conv \<Rightarrow> (real \<times> string) list \<Rightarrow> string \<Rightarrow> ((real \<times> string) list \<times> string) option" where
  "ParseVmembers K cv values b =
     do { (count, b) \<leftarrow> ParseUnsigned (decode32 K) b;
          vmembers_loop K cv (resize (unat count) (0, []) values) b }"

fun kvs_loop :: "wire \<Rightarrow> (string \<times> string) list \<Rightarrow> string \<Rightarrow> ((string \<times> string) list \<times> string) option" where
  "kvs_loop K [] b = Some ([], b)"
| "kvs_loop K ((k, v) # kvs) b =
     do { (k, b) \<leftarrow> parse_append K k b;
          (v, b) \<leftarrow> parse_append K v b;
          (kvs, b) \<leftarrow> kvs_loop K kvs b;
          Some ((k, v) # kvs, b) }"

definition ParseKvs :: "wire \<Rightarrow> (string \<times> string) list \<Rightarrow> string \<Rightarrow> ((string \<times> string) list \<times> string) option" where
  "ParseKvs K kvs b =
     do { (count, b) \<leftarrow> ParseUnsigned (decode32 K) b;
          kvs_loop K (resize (unat count) ([], []) kvs) b }"

text \<open>Reading only takes bytes off the front.\<close>

lemma ParseUnsigned_length: "ParseUnsigned dec b = Some (x, b') \<Longrightarrow> length b' \<le> length b"
  by (auto simp: ParseUnsigned_def split: varint.splits if_splits)

lemma read_bytes_length: "read_bytes n b = Some (s, b') \<Longrightarrow> length b' \<le> length b"
  by (auto simp: read_bytes_def split: if_splits)

lemma ParseStr_length: "ParseStr K f b = Some (s, b') \<Longrightarrow> length b' \<le> length b"
  by (auto simp: ParseStr_def split: if_splits dest!: ParseUnsigned_length read_bytes_length)

lemma parse_append_length: "parse_append K old b = Some (s, b') \<Longrightarrow> length b' \<le> length b"
  by (auto simp: parse_append_def dest!: ParseUnsigned_length read_bytes_length)

lemma values_loop_length: "values_loop K vs b = Some (ws, b') \<Longrightarrow> length b' \<le> length b"
  by (induction vs arbitrary: b ws) (fastforce dest: parse_append_length)+

lemma kvs_loop_length: "kvs_loop K kvs b = Some (ws, b') \<Longrightarrow> length b' \<le> length b"
  by (induction kvs arbitrary: b ws rule: list.induct) (fastforce dest: parse_append_length)+

lemma vmembers_loop_length: "vmembers_loop K cv wms b = Some (ws, b') \<Longrightarrow> length b' \<le> length b"
  by (induction wms arbitrary: b ws rule: list.induct) (fastforce dest: parse_append_length read_bytes_length)+

lemma Parse_sequences_length:
  "ParseValues K vs b = Some (ws, b') \<Longrightarrow> length b' \<le> length b" "ParseKvs K kvs b = Some (ks, b') \<Longrightarrow> length b' \<le> length b"
  "ParseVmembers K cv wms b = Some (ms, b') \<Longrightarrow> length b' \<le> length b"
  by (auto simp: ParseValues_def ParseKvs_def ParseVmembers_def dest!: ParseUnsigned_length values_loop_length kvs_loop_length vmembers_loop_length)

section \<open>Reading from a raw region\<close>

type_synonym raw = "string \<times> 64 word"

definition ParseUnsigned_raw :: "(string \<Rightarrow> 'a varint) \<Rightarrow> raw \<Rightarrow> ('a \<times> raw) option" where
  "ParseUnsigned_raw dec r = (case r of (p, n) \<Rightarrow> (case dec (take (unat n) p) of
      KVARINT_OK len i \<Rightarrow> if len \<le> length p then Some (i, drop len p, n - of_nat len) else None
    | _ \<Rightarrow> None))"

text \<open>The string version moves the pointer but leaves the size as it is.\<close>

definition ParseStr_raw :: "wire \<Rightarrow> bool \<Rightarrow> raw \<Rightarrow> (string \<times> raw) option" where
  "ParseStr_raw K is_16 r =
     do { (len, p, n) \<leftarrow> (if is_16 then map_option (map_prod unat id) (ParseUnsigned_raw (decode16 K) r)
                          else map_option (map_prod unat id) (ParseUnsigned_raw (decode32 K) r));
          (s, p) \<leftarrow> read_bytes len p;
          Some (s, p, n) }"

definition parse_append_raw :: "wire \<Rightarrow> string \<Rightarrow> raw \<Rightarrow> (string \<times> raw) option" where
  "parse_append_raw K old r =
     do { (m, p, n) \<leftarrow> ParseUnsigned_raw (decode64 K) r;
          (s, p) \<leftarrow> read_bytes (unat m) p;
          Some (old @ s, p, n - m) }"

fun values_loop_raw :: "wire \<Rightarrow> string list \<Rightarrow> raw \<Rightarrow> (string list \<times> raw) option" where
  "values_loop_raw K [] r = Some ([], r)"
| "values_loop_raw K (v # vs) r =
     do { (v, r) \<leftarrow> parse_append_raw K v r; (vs, r) \<leftarrow> values_loop_raw K vs r; Some (v # vs, r) }"

definition ParseValues_raw :: "wire \<Rightarrow> string list \<Rightarrow> raw \<Rightarrow> (string list \<times> raw) option" where
  "ParseValues_raw K values r =
     do { (count, r) \<leftarrow> ParseUnsigned_raw (decode32 K) r;
          values_loop_raw K (resize (unat count) [] values) r }"

text \<open>Here the weight is read as a variable-length integer.\<close>

fun vmembers_loop_raw :: "wire \<Rightarrow> conv \<Rightarrow> (real \<times> string) list \<Rightarrow> raw \<Rightarrow> ((real \<times> string) list \<times> raw) option" where
  "vmembers_loop_raw K cv [] r = Some ([], r)"
| "vmembers_loop_raw K cv ((_, v) # vs) r =
     do { (w, r) \<leftarrow> ParseUnsigned_raw (decode64 K) r;
          (v, r) \<leftarrow> parse_append_raw K v r;
          (vs, r) \<leftarrow> vmembers_loop_raw K cv vs r;
          Some ((int2double cv w, v) # vs, r) }"

definition ParseVmembers_raw :: "wire \<Rightarrow> conv \<Rightarrow> (real \<times> string) list \<Rightarrow> raw \<Rightarrow> ((real \<times> string) list \<times> raw) option" where
  "ParseVmembers_raw K cv values r =
     do { (count, r) \<leftarrow> ParseUnsigned_raw (decode32 K) r;
          vmembers_loop_raw K cv (resize (unat count) (0, []) values) r }"

fun kvs_loop_raw :: "wire \<Rightarrow> (string \<times> string) list \<Rightarrow> raw \<Rightarrow> ((string \<times> string) list \<times> raw) option" where
  "kvs_loop_raw K [] r = Some ([], r)"
| "kvs_loop_raw K ((k, v) # kvs) r =
     do { (k, r) \<leftarrow> parse_append_raw K k r;
          (v, r) \<leftarrow> parse_append_raw K v r;
          (kvs, r) \<leftarrow> kvs_loop_raw K kvs r;
          Some ((k, v) # kvs, r) }"

definition ParseKvs_raw :: "wire \<Rightarrow> (string \<times> string) list \<Rightarrow> raw \<Rightarrow> ((string \<times> string) list \<times> raw) option" where
  "ParseKvs_raw K kvs r =
     do { (count, r) \<leftarrow> ParseUnsigned_raw (decode32 K) r;
          kvs_loop_raw K (resize (unat count) ([], []) kvs) r }"

section \<open>Writing\<close>

definition SerializeStr :: "wire \<Rightarrow> bool \<Rightarrow> string \<Rightarrow> string" where
  "SerializeStr K is_16 s = (if is_16 then encode16 K (of_nat (length s)) else encode32 K (of_nat (length s))) @ s"

definition SerializeValues :: "wire \<Rightarrow> string list \<Rightarrow> string" where
  "SerializeValues K values =
     encode32 K (of_nat (length values)) @ concat (map (\<lambda>v. encode32 K (of_nat (length v)) @ v) values)"

definition SerializeKvs :: "wire \<Rightarrow> (string \<times> string) list \<Rightarrow> string" where
  "SerializeKvs K values =
     encode32 K (of_nat (length values)) @
     concat (map (\<lambda>(k, v). encode16 K (of_nat (length k)) @ k @ encode32 K (of_nat (length v)) @ v) values)"

definition SerializeVmembers :: "wire \<Rightarrow> conv \<Rightarrow> (real \<times> string) list \<Rightarrow> string" where
  "SerializeVmembers K cv values =
     encode32 K (of_nat (length values)) @
     concat (map (\<lambda>(w, v). append64 K (double2u64 cv w) @ encode32 K (of_nat (length v)) @ v) values)"

section \<open>The laws of the encodings\<close>

text \<open>
  What the code relies on: decoding reads back what the encoding of the same width wrote, a size written with 16 or 32
  bits is read with 64, a cut-off 32-bit integer is recognised as short, and the fixed-width integers have their width.
\<close>

definition reads :: "(string \<Rightarrow> 'b varint) \<Rightarrow> ('a \<Rightarrow> string) \<Rightarrow> ('a \<Rightarrow> 'b) \<Rightarrow> bool" where
  "reads dec enc f = (\<forall>w s. dec (enc w @ s) = KVARINT_OK (length (enc w)) (f w))"

definition wire_ok :: "wire \<Rightarrow> bool" where
  "wire_ok K \<longleftrightarrow> reads (decode8 K) (encode8 K) id \<and> reads (decode16 K) (encode16 K) id \<and> reads (decode32 K) (encode32 K) id
     \<and> reads (decode64 K) (encode64 K) id \<and> reads (decode64 K) (encode16 K) ucast \<and> reads (decode64 K) (encode32 K) ucast
     \<and> (\<forall>w. length (append32 K w) = 4 \<and> host32 K (append32 K w) = w) \<and> (\<forall>w. length (append64 K w) = 8 \<and> host64 K (append64 K w) = w)
     \<and> (\<forall>w p. strict_prefix p (encode32 K w) \<longrightarrow> decode32 K p = KVARINT_DECODE_BUF_SHORT)"

lemma wire_okD:
  assumes "wire_ok K"
  shows "reads (decode8 K) (encode8 K) id" "reads (decode16 K) (encode16 K) id" "reads (decode32 K) (encode32 K) id"
    "reads (decode64 K) (encode64 K) id" "reads (decode64 K) (encode16 K) ucast" "reads (decode64 K) (encode32 K) ucast"
    "length (append32 K u) = 4" "host32 K (append32 K u) = u" "length (append64 K v) = 8" "host64 K (append64 K v) = v"
    "strict_prefix p (encode32 K u) \<Longrightarrow> decode32 K p = KVARINT_DECODE_BUF_SHORT"
  using assms unfolding wire_ok_def by blast+

lemma readsD: "reads dec enc f \<Longrightarrow> dec (enc w @ s) = KVARINT_OK (length (enc w)) (f w)"
  by (simp add: reads_def)

lemma reads_nonempty:
  assumes "reads dec enc f" "f u \<noteq> f v"
  shows "enc w \<noteq> []"
proof
  assume "enc w = []"
  then have e: "dec s = KVARINT_OK 0 (f w)" for s using readsD [OF assms(1), of w s] by simp
  have "f x = f w" for x using readsD [OF assms(1), of x "[]"] e by simp
  from this [of u] this [of v] assms(2) show False by simp
qed

text \<open>The numbers that are doubles: their bit pattern stands for them.\<close>

definition is_double :: "conv \<Rightarrow> real \<Rightarrow> bool" where
  "is_double cv w = (int2double cv (double2u64 cv w) = w)"

section \<open>Reading what was written\<close>

lemma ParseUnsigned_reads: "reads dec enc f \<Longrightarrow> ParseUnsigned dec (enc w @ s) = Some (f w, s)"
  by (simp add: ParseUnsigned_def readsD)

lemma parse_ints:
  assumes "wire_ok K"
  shows "ParseUnsigned (decode8 K) (encode8 K a @ s) = Some (a, s)" "ParseUnsigned (decode16 K) (encode16 K b @ s) = Some (b, s)"
    "ParseUnsigned (decode32 K) (encode32 K c @ s) = Some (c, s)" "ParseUnsigned (decode64 K) (encode64 K d @ s) = Some (d, s)"
    "ParseUnsigned (decode64 K) (encode16 K b @ s) = Some (ucast b, s)" "ParseUnsigned (decode64 K) (encode32 K c @ s) = Some (ucast c, s)"
  using wire_okD(1-6) [OF assms] by (simp_all add: ParseUnsigned_reads)

lemma read_bytes_append [simp]: "read_bytes (length s) (s @ t) = Some (s, t)"
  by (simp add: read_bytes_def)

lemma unat_len:
  "length s < 2 ^ 16 \<Longrightarrow> unat (of_nat (length s) :: 16 word) = length s"
  "length s < 2 ^ 32 \<Longrightarrow> unat (of_nat (length s) :: 32 word) = length s"
  by (simp_all add: unat_of_nat)

lemma unat_ucast_64 [simp]:
  "unat (ucast (u :: 16 word) :: 64 word) = unat u" "unat (ucast (v :: 32 word) :: 64 word) = unat v"
  by (simp_all add: unsigned_ucast_eq take_bit_nat_eq_self unsigned_less [THEN less_le_trans])

lemma ParseStr_Serialize:
  assumes "wire_ok K" "length s < (if is_16 then 2 ^ 16 else 2 ^ 32)"
  shows "ParseStr K is_16 (SerializeStr K is_16 s @ t) = Some (s, t)"
  using assms by (cases is_16) (simp_all add: ParseStr_def SerializeStr_def parse_ints unat_len)

lemma parse_append_16: "wire_ok K \<Longrightarrow> length s < 2 ^ 16 \<Longrightarrow> parse_append K old (encode16 K (of_nat (length s)) @ s @ t) = Some (old @ s, t)"
  by (simp add: parse_append_def parse_ints unat_len)

lemma parse_append_32: "wire_ok K \<Longrightarrow> length s < 2 ^ 32 \<Longrightarrow> parse_append K old (encode32 K (of_nat (length s)) @ s @ t) = Some (old @ s, t)"
  by (simp add: parse_append_def parse_ints unat_len)

lemma resize_Nil [simp]: "resize n x [] = replicate n x"
  by (simp add: resize_def)

lemma values_loop_Serialize:
  assumes "wire_ok K" "\<forall>v \<in> set vs. length v < 2 ^ 32"
  shows "values_loop K (replicate (length vs) []) (concat (map (\<lambda>v. encode32 K (of_nat (length v)) @ v) vs) @ t) = Some (vs, t)"
  using assms(2) by (induction vs) (simp_all add: parse_append_32 [OF assms(1)])

lemma kvs_loop_Serialize:
  assumes "wire_ok K" "\<forall>(k, v) \<in> set kvs. length k < 2 ^ 16 \<and> length v < 2 ^ 32"
  shows "kvs_loop K (replicate (length kvs) ([], []))
      (concat (map (\<lambda>(k, v). encode16 K (of_nat (length k)) @ k @ encode32 K (of_nat (length v)) @ v) kvs) @ t) = Some (kvs, t)"
  using assms(2) by (induction kvs) (auto simp: parse_append_16 [OF assms(1)] parse_append_32 [OF assms(1)])

lemma vmembers_loop_Serialize:
  assumes "wire_ok K" "\<forall>(w, v) \<in> set wms. is_double cv w \<and> length v < 2 ^ 32"
  shows "vmembers_loop K cv (replicate (length wms) (0, []))
      (concat (map (\<lambda>(w, v). append64 K (double2u64 cv w) @ encode32 K (of_nat (length v)) @ v) wms) @ t) = Some (wms, t)"
proof -
  have "read_bytes 8 (append64 K u @ s) = Some (append64 K u, s)" for u s
    using read_bytes_append [of "append64 K u" s] wire_okD(9) [OF assms(1), of u] by simp
  then show ?thesis
    using assms(2) by (induction wms) (auto simp: parse_append_32 [OF assms(1)] wire_okD(10) [OF assms(1)] is_double_def)
qed

lemma ParseValues_Serialize:
  "wire_ok K \<Longrightarrow> length vs < 2 ^ 32 \<Longrightarrow> \<forall>v \<in> set vs. length v < 2 ^ 32 \<Longrightarrow> ParseValues K [] (SerializeValues K vs @ t) = Some (vs, t)"
  by (simp add: ParseValues_def SerializeValues_def parse_ints unat_len values_loop_Serialize)

lemma ParseKvs_Serialize:
  "wire_ok K \<Longrightarrow> length kvs < 2 ^ 32 \<Longrightarrow> \<forall>(k, v) \<in> set kvs. length k < 2 ^ 16 \<and> length v < 2 ^ 32
     \<Longrightarrow> ParseKvs K [] (SerializeKvs K kvs @ t) = Some (kvs, t)"
  by (simp add: ParseKvs_def SerializeKvs_def parse_ints unat_len kvs_loop_Serialize)

lemma ParseVmembers_Serialize:
  "wire_ok K \<Longrightarrow> length wms < 2 ^ 32 \<Longrightarrow> \<forall>(w, v) \<in> set wms. is_double cv w \<and> length v < 2 ^ 32
     \<Longrightarrow> ParseVmembers K cv [] (SerializeVmembers K cv wms @ t) = Some (wms, t)"
  by (simp add: ParseVmembers_def SerializeVmembers_def parse_ints unat_len vmembers_loop_Serialize)

section \<open>Reading it from a raw region\<close>

text \<open>The value is read, the pointer is behind it and the size has decreased by at most the bytes read.\<close>

definition raw_ok :: "('a \<times> raw) option \<Rightarrow> 'a \<Rightarrow> string \<Rightarrow> 64 word \<Rightarrow> nat \<Rightarrow> bool" where
  "raw_ok r x t n len \<longleftrightarrow> (\<exists>n'. r = Some (x, t, n') \<and> unat n \<le> unat n' + len)"

lemma raw_okE:
  assumes "raw_ok r x t n len" "len + len' \<le> unat n"
  obtains n' where "r = Some (x, t, n')" "unat n \<le> unat n' + len" "len' \<le> unat n'"
  using assms by (force simp: raw_ok_def)

lemma raw_okI: "r = Some (x, t, n') \<Longrightarrow> unat n \<le> unat n' + len \<Longrightarrow> raw_ok r x t n len"
  by (simp add: raw_ok_def)

lemma unat_sub_of_nat: "len \<le> unat n \<Longrightarrow> unat (n - of_nat len) = unat n - len" for n :: "64 word"
proof -
  assume a: "len \<le> unat n"
  have "len < 2 ^ 64" using a unsigned_less [of n, where 'a = nat] by simp
  then have "unat (of_nat len :: 64 word) = len" by (simp add: unat_of_nat)
  with a show ?thesis by (simp add: unat_sub word_le_nat_alt)
qed

lemma ParseUnsigned_raw_ok:
  assumes "reads dec enc f" "length (enc w) \<le> unat n"
  shows "raw_ok (ParseUnsigned_raw dec (enc w @ s, n)) (f w) s n (length (enc w))"
  using assms by (intro raw_okI [of _ _ _ "n - of_nat (length (enc w))"]) (simp_all add: ParseUnsigned_raw_def readsD unat_sub_of_nat)

lemma raw_ints:
  assumes "wire_ok K"
  shows "length (encode8 K a) \<le> unat n \<Longrightarrow> raw_ok (ParseUnsigned_raw (decode8 K) (encode8 K a @ s, n)) a s n (length (encode8 K a))"
    "length (encode16 K b) \<le> unat n \<Longrightarrow> raw_ok (ParseUnsigned_raw (decode16 K) (encode16 K b @ s, n)) b s n (length (encode16 K b))"
    "length (encode32 K c) \<le> unat n \<Longrightarrow> raw_ok (ParseUnsigned_raw (decode32 K) (encode32 K c @ s, n)) c s n (length (encode32 K c))"
    "length (encode64 K d) \<le> unat n \<Longrightarrow> raw_ok (ParseUnsigned_raw (decode64 K) (encode64 K d @ s, n)) d s n (length (encode64 K d))"
    "length (encode16 K b) \<le> unat n \<Longrightarrow> raw_ok (ParseUnsigned_raw (decode64 K) (encode16 K b @ s, n)) (ucast b) s n (length (encode16 K b))"
    "length (encode32 K c) \<le> unat n \<Longrightarrow> raw_ok (ParseUnsigned_raw (decode64 K) (encode32 K c @ s, n)) (ucast c) s n (length (encode32 K c))"
  using wire_okD(1-6) [OF assms, THEN ParseUnsigned_raw_ok] by simp_all

lemma ParseStr_raw_ok:
  assumes "wire_ok K" "length s < (if is_16 then 2 ^ 16 else 2 ^ 32)" "length (SerializeStr K is_16 s) \<le> unat n"
  shows "raw_ok (ParseStr_raw K is_16 (SerializeStr K is_16 s @ t, n)) s t n (length (SerializeStr K is_16 s))"
proof (cases is_16)
  case True
  have "length (encode16 K (of_nat (length s))) \<le> unat n" using assms(3) True by (simp add: SerializeStr_def)
  from raw_ints(2) [OF assms(1) this, of "s @ t"] show ?thesis
    using True assms(2) by (auto simp: raw_ok_def ParseStr_raw_def SerializeStr_def unat_len)
next
  case False
  have "length (encode32 K (of_nat (length s))) \<le> unat n" using assms(3) False by (simp add: SerializeStr_def)
  from raw_ints(3) [OF assms(1) this, of "s @ t"] show ?thesis
    using False assms(2) by (auto simp: raw_ok_def ParseStr_raw_def SerializeStr_def unat_len)
qed

lemma parse_append_raw_ok:
  assumes "raw_ok (ParseUnsigned_raw (decode64 K) (enc @ s @ t, n)) m (s @ t) n (length enc)" "unat m = length s" "length (enc @ s) \<le> unat n"
  shows "raw_ok (parse_append_raw K old (enc @ s @ t, n)) (old @ s) t n (length (enc @ s))"
proof -
  obtain n' where n': "ParseUnsigned_raw (decode64 K) (enc @ s @ t, n) = Some (m, s @ t, n')" "unat n \<le> unat n' + length enc" "length s \<le> unat n'"
    using raw_okE [OF assms(1), of "length s"] assms(3) by auto
  have "unat (n' - m) = unat n' - length s" using n'(3) assms(2) by (simp add: unat_sub word_le_nat_alt)
  with n' assms(2) show ?thesis by (intro raw_okI [of _ _ _ "n' - m"]) (simp_all add: parse_append_raw_def)
qed

lemma parse_append_raw_16:
  assumes "wire_ok K" "length s < 2 ^ 16" "length (encode16 K (of_nat (length s)) @ s) \<le> unat n"
  shows "raw_ok (parse_append_raw K old (encode16 K (of_nat (length s)) @ s @ t, n)) (old @ s) t n (length (encode16 K (of_nat (length s)) @ s))"
  using assms by (intro parse_append_raw_ok [OF raw_ints(5)]) (simp_all add: unat_len)

lemma parse_append_raw_32:
  assumes "wire_ok K" "length s < 2 ^ 32" "length (encode32 K (of_nat (length s)) @ s) \<le> unat n"
  shows "raw_ok (parse_append_raw K old (encode32 K (of_nat (length s)) @ s @ t, n)) (old @ s) t n (length (encode32 K (of_nat (length s)) @ s))"
  using assms by (intro parse_append_raw_ok [OF raw_ints(6)]) (simp_all add: unat_len)

lemma values_loop_raw_ok:
  assumes "wire_ok K"
  shows "\<forall>v \<in> set vs. length v < 2 ^ 32 \<Longrightarrow> length (concat (map (\<lambda>v. encode32 K (of_nat (length v)) @ v) vs)) \<le> unat n \<Longrightarrow>
    raw_ok (values_loop_raw K (replicate (length vs) []) (concat (map (\<lambda>v. encode32 K (of_nat (length v)) @ v) vs) @ t, n)) vs t n
      (length (concat (map (\<lambda>v. encode32 K (of_nat (length v)) @ v) vs)))"
proof (induction vs arbitrary: n)
  case Nil
  then show ?case by (simp add: raw_ok_def)
next
  case (Cons v vs)
  let ?e = "\<lambda>v. encode32 K (of_nat (length v)) @ v"
  let ?L = "length (concat (map ?e vs))"
  have v: "length v < 2 ^ 32" "length (?e v) \<le> unat n" "length (?e v) + ?L \<le> unat n" using Cons.prems by simp_all
  obtain n1 where n1: "parse_append_raw K [] (encode32 K (of_nat (length v)) @ v @ concat (map ?e vs) @ t, n) = Some (v, concat (map ?e vs) @ t, n1)"
      "unat n \<le> unat n1 + length (?e v)" "?L \<le> unat n1"
    using raw_okE [OF parse_append_raw_32 [OF assms v(1,2), of "[]"] v(3)] by auto
  have "raw_ok (values_loop_raw K (replicate (length vs) []) (concat (map ?e vs) @ t, n1)) vs t n1 ?L"
    using Cons.prems n1(3) by (intro Cons.IH) simp_all
  with n1 show ?case by (auto simp: raw_ok_def)
qed

lemma kvs_loop_raw_ok:
  assumes "wire_ok K"
  shows "\<forall>(k, v) \<in> set kvs. length k < 2 ^ 16 \<and> length v < 2 ^ 32 \<Longrightarrow>
    length (concat (map (\<lambda>(k, v). encode16 K (of_nat (length k)) @ k @ encode32 K (of_nat (length v)) @ v) kvs)) \<le> unat n \<Longrightarrow>
    raw_ok (kvs_loop_raw K (replicate (length kvs) ([], []))
        (concat (map (\<lambda>(k, v). encode16 K (of_nat (length k)) @ k @ encode32 K (of_nat (length v)) @ v) kvs) @ t, n)) kvs t n
      (length (concat (map (\<lambda>(k, v). encode16 K (of_nat (length k)) @ k @ encode32 K (of_nat (length v)) @ v) kvs)))"
proof (induction kvs arbitrary: n)
  case Nil
  then show ?case by (simp add: raw_ok_def)
next
  case (Cons kv kvs)
  obtain k v where kv: "kv = (k, v)" by (cases kv)
  let ?k = "encode16 K (of_nat (length k)) @ k" and ?v = "encode32 K (of_nat (length v)) @ v"
  let ?r = "concat (map (\<lambda>(k, v). encode16 K (of_nat (length k)) @ k @ encode32 K (of_nat (length v)) @ v) kvs)"
  have l: "length k < 2 ^ 16" "length v < 2 ^ 32" "length ?k \<le> unat n" "length ?k + (length ?v + length ?r) \<le> unat n"
    using Cons.prems by (simp_all add: kv)
  obtain n1 where n1: "parse_append_raw K [] (?k @ ?v @ ?r @ t, n) = Some (k, ?v @ ?r @ t, n1)"
      "unat n \<le> unat n1 + length ?k" "length ?v + length ?r \<le> unat n1"
    using raw_okE [OF parse_append_raw_16 [OF assms l(1,3), of "[]"] l(4)] by auto
  have l': "length ?v \<le> unat n1" using n1(3) by simp
  obtain n2 where n2: "parse_append_raw K [] (?v @ ?r @ t, n1) = Some (v, ?r @ t, n2)" "unat n1 \<le> unat n2 + length ?v" "length ?r \<le> unat n2"
    using raw_okE [OF parse_append_raw_32 [OF assms l(2) l', of "[]"] n1(3)] by auto
  have "raw_ok (kvs_loop_raw K (replicate (length kvs) ([], [])) (?r @ t, n2)) kvs t n2 (length ?r)"
    using Cons.prems n2(3) by (intro Cons.IH) simp_all
  with n1 n2 show ?case by (auto simp: raw_ok_def kv)
qed

lemma ParseValues_raw_ok:
  assumes "wire_ok K" "length vs < 2 ^ 32" "\<forall>v \<in> set vs. length v < 2 ^ 32" "length (SerializeValues K vs) \<le> unat n"
  shows "raw_ok (ParseValues_raw K [] (SerializeValues K vs @ t, n)) vs t n (length (SerializeValues K vs))"
proof -
  let ?h = "encode32 K (of_nat (length vs))" and ?r = "concat (map (\<lambda>v. encode32 K (of_nat (length v)) @ v) vs)"
  have l: "length ?h \<le> unat n" "length ?h + length ?r \<le> unat n" using assms(4) by (simp_all add: SerializeValues_def)
  obtain n1 where n1: "ParseUnsigned_raw (decode32 K) (?h @ ?r @ t, n) = Some (of_nat (length vs), ?r @ t, n1)"
      "unat n \<le> unat n1 + length ?h" "length ?r \<le> unat n1"
    using raw_okE [OF raw_ints(3) [OF assms(1) l(1)] l(2)] by blast
  from values_loop_raw_ok [OF assms(1,3) n1(3), of t] n1 assms(2) show ?thesis
    by (auto simp: raw_ok_def ParseValues_raw_def SerializeValues_def unat_len)
qed

lemma ParseKvs_raw_ok:
  assumes "wire_ok K" "length kvs < 2 ^ 32" "\<forall>(k, v) \<in> set kvs. length k < 2 ^ 16 \<and> length v < 2 ^ 32" "length (SerializeKvs K kvs) \<le> unat n"
  shows "raw_ok (ParseKvs_raw K [] (SerializeKvs K kvs @ t, n)) kvs t n (length (SerializeKvs K kvs))"
proof -
  let ?h = "encode32 K (of_nat (length kvs))"
    and ?r = "concat (map (\<lambda>(k, v). encode16 K (of_nat (length k)) @ k @ encode32 K (of_nat (length v)) @ v) kvs)"
  have l: "length ?h \<le> unat n" "length ?h + length ?r \<le> unat n" using assms(4) by (simp_all add: SerializeKvs_def)
  obtain n1 where n1: "ParseUnsigned_raw (decode32 K) (?h @ ?r @ t, n) = Some (of_nat (length kvs), ?r @ t, n1)"
      "unat n \<le> unat n1 + length ?h" "length ?r \<le> unat n1"
    using raw_okE [OF raw_ints(3) [OF assms(1) l(1)] l(2)] by blast
  from kvs_loop_raw_ok [OF assms(1,3) n1(3), of t] n1 assms(2) show ?thesis
    by (auto simp: raw_ok_def ParseKvs_raw_def SerializeKvs_def unat_len)
qed

end
