(* ===== verification/Protocol.thy ===== *)
theory Protocol
  imports Wire
begin

text \<open>
  Serialisation of requests and responses (\<^verbatim>\<open>protocol/mmbp_request.cc\<close>, \<^verbatim>\<open>mmbp_response.cc\<close>) and the framing of messages
  on a connection (\<^verbatim>\<open>protocol/mmbp_codec.cc\<close>). The overloads of \<^verbatim>\<open>SerializeTo\<close> for a buffer and a chunk list write the same
  bytes.
\<close>

section \<open>Requests\<close>

text \<open>The constructor leaves \<^verbatim>\<open>expire_time\<close> and the union unset; \<open>e\<close>, \<open>l\<close> and \<open>r\<close> are what the memory holds.\<close>

definition MmbpRequest_new :: "64 word \<Rightarrow> 64 word \<Rightarrow> 64 word \<Rightarrow> request" where
  "MmbpRequest_new e l r = \<lparr>rq_has_bits = 0, rq_command = of_nat (length commands), rq_key = [], rq_kvs = [], rq_values = [], rq_value = [],
     rq_vmembers = [], rq_expire_time = e, rq_range_left = l, rq_range_right = r\<rparr>"

definition Request_Reset :: "request \<Rightarrow> request" where
  "Request_Reset rq = rq\<lparr>rq_has_bits := 0, rq_key := [], rq_kvs := [], rq_values := [], rq_value := [], rq_vmembers := []\<rparr>"

definition Request_SerializeTo :: "wire \<Rightarrow> conv \<Rightarrow> request \<Rightarrow> string" where
  "Request_SerializeTo K cv rq =
     encode16 K (rq_command rq) @ encode8 K (rq_has_bits rq) @
     (if HasKey rq then SerializeStr K True (rq_key rq) else []) @
     (if HasValue rq then SerializeStr K False (rq_value rq)
      else if HasValues rq then SerializeValues K (rq_values rq)
      else if HasKvs rq then SerializeKvs K (rq_kvs rq)
      else if HasCount rq then encode32 K (rq_count rq)
      else if HasRange rq then encode64 K (rq_range_left rq) @ encode64 K (rq_range_right rq)
      else if HasVmembers rq then SerializeVmembers K cv (rq_vmembers rq)
      else []) @
     (if HasExpireTime rq then encode64 K (rq_expire_time rq) else [])"

text \<open>The bounds of a range are of type \<^verbatim>\<open>int64_t\<close> and read as signed integers.\<close>

definition request_payload :: "wire \<Rightarrow> conv \<Rightarrow> request \<Rightarrow> string \<Rightarrow> (request \<times> string) option" where
  "request_payload K cv rq b =
     (if HasValue rq then do { (v, b) \<leftarrow> ParseStr K False b; Some (rq\<lparr>rq_value := v\<rparr>, b) }
      else if HasValues rq then do { (vs, b) \<leftarrow> ParseValues K (rq_values rq) b; Some (rq\<lparr>rq_values := vs\<rparr>, b) }
      else if HasKvs rq then do { (kvs, b) \<leftarrow> ParseKvs K (rq_kvs rq) b; Some (rq\<lparr>rq_kvs := kvs\<rparr>, b) }
      else if HasCount rq then do { (n, b) \<leftarrow> ParseUnsigned (decode32 K) b; Some (set_rq_count n rq, b) }
      else if HasRange rq then
        do { (l, b) \<leftarrow> ParseUnsigned (decode64s K) b;
             (r, b) \<leftarrow> ParseUnsigned (decode64s K) b;
             Some (rq\<lparr>rq_range_left := l, rq_range_right := r\<rparr>, b) }
      else if HasVmembers rq then do { (vs, b) \<leftarrow> ParseVmembers K cv (rq_vmembers rq) b; Some (rq\<lparr>rq_vmembers := vs\<rparr>, b) }
      else Some (rq, b))"

definition request_key :: "wire \<Rightarrow> request \<Rightarrow> string \<Rightarrow> (request \<times> string) option" where
  "request_key K rq b = (if HasKey rq then do { (k, b) \<leftarrow> ParseStr K True b; Some (rq\<lparr>rq_key := k\<rparr>, b) } else Some (rq, b))"

definition request_time :: "wire \<Rightarrow> request \<Rightarrow> string \<Rightarrow> (request \<times> string) option" where
  "request_time K rq b =
     (if HasExpireTime rq then do { (t, b) \<leftarrow> ParseUnsigned (decode64 K) b; Some (rq\<lparr>rq_expire_time := t\<rparr>, b) } else Some (rq, b))"

definition Request_ParseFrom :: "wire \<Rightarrow> conv \<Rightarrow> request \<Rightarrow> string \<Rightarrow> (request \<times> string) option" where
  "Request_ParseFrom K cv rq b =
     do { (cmd, b) \<leftarrow> ParseUnsigned (decode16 K) b;
          (has, b) \<leftarrow> ParseUnsigned (decode8 K) b;
          (rq, b) \<leftarrow> request_key K (rq\<lparr>rq_command := cmd, rq_has_bits := has\<rparr>) b;
          (rq, b) \<leftarrow> request_payload K cv rq b;
          request_time K rq b }"

lemma request_payload_length: "request_payload K cv rq b = Some (rq', b') \<Longrightarrow> length b' \<le> length b"
  by (auto simp: request_payload_def split: if_splits dest!: ParseStr_length Parse_sequences_length ParseUnsigned_length)

lemma request_field_lengths:
  "request_key K rq b = Some (rq', b') \<Longrightarrow> length b' \<le> length b" "request_time K rq b = Some (rq', b') \<Longrightarrow> length b' \<le> length b"
  by (auto simp: request_key_def request_time_def split: if_splits dest!: ParseStr_length ParseUnsigned_length)

lemma Request_ParseFrom_length: "Request_ParseFrom K cv rq b = Some (rq', b') \<Longrightarrow> length b' \<le> length b"
  by (auto simp: Request_ParseFrom_def dest!: request_field_lengths request_payload_length ParseUnsigned_length)

definition request_payload_raw :: "wire \<Rightarrow> conv \<Rightarrow> request \<Rightarrow> raw \<Rightarrow> (request \<times> raw) option" where
  "request_payload_raw K cv rq p =
     (if HasValue rq then do { (v, p) \<leftarrow> ParseStr_raw K False p; Some (rq\<lparr>rq_value := v\<rparr>, p) }
      else if HasValues rq then do { (vs, p) \<leftarrow> ParseValues_raw K (rq_values rq) p; Some (rq\<lparr>rq_values := vs\<rparr>, p) }
      else if HasKvs rq then do { (kvs, p) \<leftarrow> ParseKvs_raw K (rq_kvs rq) p; Some (rq\<lparr>rq_kvs := kvs\<rparr>, p) }
      else if HasCount rq then do { (n, p) \<leftarrow> ParseUnsigned_raw (decode32 K) p; Some (set_rq_count n rq, p) }
      else if HasRange rq then
        do { (l, p) \<leftarrow> ParseUnsigned_raw (decode64s K) p;
             (r, p) \<leftarrow> ParseUnsigned_raw (decode64s K) p;
             Some (rq\<lparr>rq_range_left := l, rq_range_right := r\<rparr>, p) }
      else if HasVmembers rq then do { (vs, p) \<leftarrow> ParseVmembers_raw K cv (rq_vmembers rq) p; Some (rq\<lparr>rq_vmembers := vs\<rparr>, p) }
      else Some (rq, p))"

text \<open>The size is passed by value, so the caller keeps its own.\<close>

definition Request_ParseFrom_raw :: "wire \<Rightarrow> conv \<Rightarrow> request \<Rightarrow> raw \<Rightarrow> (request \<times> string) option" where
  "Request_ParseFrom_raw K cv rq p =
     (if snd p < 2 then Some (rq, fst p)
      else do { (cmd, p) \<leftarrow> ParseUnsigned_raw (decode16 K) p;
        let rq = rq\<lparr>rq_command := cmd\<rparr>;
        if snd p < 1 then Some (rq, fst p)
        else do { (has, p) \<leftarrow> ParseUnsigned_raw (decode8 K) p;
          let rq = rq\<lparr>rq_has_bits := has\<rparr>;
          (rq, p) \<leftarrow> (if HasKey rq then do { (k, p) \<leftarrow> ParseStr_raw K True p; Some (rq\<lparr>rq_key := k\<rparr>, p) } else Some (rq, p));
          (rq, p) \<leftarrow> request_payload_raw K cv rq p;
          if HasExpireTime rq then do { (t, p) \<leftarrow> ParseUnsigned_raw (decode64 K) p; Some (rq\<lparr>rq_expire_time := t\<rparr>, fst p) }
          else Some (rq, fst p) } })"

text \<open>
  \<^verbatim>\<open>ParseFrom2\<close> subtracts from the size how far the pointer to the pointer has moved, which is not at all.
\<close>

definition ParseFrom2 :: "wire \<Rightarrow> conv \<Rightarrow> request \<Rightarrow> raw \<Rightarrow> (request \<times> raw) option" where
  "ParseFrom2 K cv rq p = do { (rq, q) \<leftarrow> Request_ParseFrom_raw K cv rq p; Some (rq, q, snd p - 0) }"

section \<open>Responses\<close>

definition rs_HasValue :: "response \<Rightarrow> bool" where "rs_HasValue r = bit (rs_has_bits r) 0"
definition rs_HasValues :: "response \<Rightarrow> bool" where "rs_HasValues r = bit (rs_has_bits r) 1"
definition rs_HasKvs :: "response \<Rightarrow> bool" where "rs_HasKvs r = bit (rs_has_bits r) 2"
definition rs_HasCount :: "response \<Rightarrow> bool" where "rs_HasCount r = bit (rs_has_bits r) 3"
definition rs_HasVmembers :: "response \<Rightarrow> bool" where "rs_HasVmembers r = bit (rs_has_bits r) 4"

definition Response_SerializeTo :: "wire \<Rightarrow> conv \<Rightarrow> response \<Rightarrow> string" where
  "Response_SerializeTo K cv r =
     encode8 K (rs_status_code r) @ encode8 K (rs_has_bits r) @
     (if rs_HasValue r then SerializeStr K False (rs_value r)
      else if rs_HasValues r then SerializeValues K (rs_values r)
      else if rs_HasKvs r then SerializeKvs K (rs_kvs r)
      else if rs_HasCount r then encode64 K (rs_count r)
      else if rs_HasVmembers r then SerializeVmembers K cv (rs_vmembers r)
      else [])"

definition Response_ParseFrom :: "wire \<Rightarrow> conv \<Rightarrow> response \<Rightarrow> string \<Rightarrow> (response \<times> string) option" where
  "Response_ParseFrom K cv r b =
     do { (code, b) \<leftarrow> ParseUnsigned (decode8 K) b;
          (has, b) \<leftarrow> ParseUnsigned (decode8 K) b;
          let r = r\<lparr>rs_status_code := code, rs_has_bits := has\<rparr>;
          if rs_HasValue r then do { (v, b) \<leftarrow> ParseStr K False b; Some (r\<lparr>rs_value := v\<rparr>, b) }
          else if rs_HasValues r then do { (vs, b) \<leftarrow> ParseValues K (rs_values r) b; Some (r\<lparr>rs_values := vs\<rparr>, b) }
          else if rs_HasKvs r then do { (kvs, b) \<leftarrow> ParseKvs K (rs_kvs r) b; Some (r\<lparr>rs_kvs := kvs\<rparr>, b) }
          else if rs_HasCount r then do { (n, b) \<leftarrow> ParseUnsigned (decode64 K) b; Some (r\<lparr>rs_count := n\<rparr>, b) }
          else if rs_HasVmembers r then do { (vs, b) \<leftarrow> ParseVmembers K cv (rs_vmembers r) b; Some (r\<lparr>rs_vmembers := vs\<rparr>, b) }
          else Some (r, b) }"

section \<open>Frames\<close>

datatype codec_error = E_NOERROR | E_INVALID_SIZE_HEADER | E_INVALID_CHECKSUM | E_INVALID_MESSAGE | E_NO_COMPLETE_MESSAGE

definition MAX_SIZE :: nat where "MAX_SIZE = 2 ^ 26"
definition MMBP_TAG :: string where "MMBP_TAG = ''MMBP''"
definition MIN_SIZE :: nat where "MIN_SIZE = length MMBP_TAG + 4"

text \<open>\<open>XXH32\<close> is the hash of the library with seed 0; feeding it the chunks one by one hashes their concatenation.\<close>

definition Codec_SerializeTo :: "wire \<Rightarrow> (string \<Rightarrow> 32 word) \<Rightarrow> string \<Rightarrow> string" where
  "Codec_SerializeTo K XXH32 msg =
     (let buffer = MMBP_TAG @ msg;
          buffer = buffer @ append32 K (XXH32 buffer) in
      encode32 K (of_nat (length buffer)) @ buffer)"

definition VerifyCheckSum :: "wire \<Rightarrow> (string \<Rightarrow> 32 word) \<Rightarrow> string \<Rightarrow> nat \<Rightarrow> bool" where
  "VerifyCheckSum K XXH32 b size_header =
     (XXH32 (take (size_header - 4) b) = host32 K (take 4 (drop (size_header - 4) b)))"

text \<open>
  The loop of the message callback of a connection, for the callback \<open>cb\<close> that is handed the buffer and the length of the
  message and moves the buffer behind what it parsed. The result is the state of the callback, the buffer, and the error
  reported, if any.
\<close>

partial_function (option) codec_loop :: "wire \<Rightarrow> (string \<Rightarrow> 32 word) \<Rightarrow> (string \<Rightarrow> nat \<Rightarrow> 's \<Rightarrow> ('s \<times> string) option) \<Rightarrow> 's \<Rightarrow> string
    \<Rightarrow> ('s \<times> string \<times> codec_error) option" where
  "codec_loop K XXH32 cb st b = (case decode32 K b of
      KVARINT_DECODE_BUF_INVALID \<Rightarrow> Some (st, b, E_INVALID_MESSAGE)
    | KVARINT_DECODE_BUF_SHORT \<Rightarrow> Some (st, b, E_NOERROR)
    | KVARINT_OK len sz \<Rightarrow>
        if unat sz < MIN_SIZE \<or> MAX_SIZE - len \<le> unat sz then Some (st, b, E_INVALID_SIZE_HEADER)
        else if length b - len < unat sz then Some (st, b, E_NOERROR)
        else let b = drop len b in
          if \<not> VerifyCheckSum K XXH32 b (unat sz) then Some (st, b, E_INVALID_CHECKSUM)
          else if take 4 b \<noteq> MMBP_TAG then Some (st, b, E_INVALID_MESSAGE)
          else do { (st, b) \<leftarrow> cb (drop 4 b) (unat sz - 4 - 4) st;
                    (_, b) \<leftarrow> read_bytes 4 b;
                    codec_loop K XXH32 cb st b })"

definition on_message :: "wire \<Rightarrow> (string \<Rightarrow> 32 word) \<Rightarrow> (string \<Rightarrow> nat \<Rightarrow> 's \<Rightarrow> ('s \<times> string) option) \<Rightarrow> 's \<Rightarrow> string
    \<Rightarrow> ('s \<times> string \<times> codec_error) option" where
  "on_message K XXH32 cb st b =
     (if MAX_SIZE \<le> length b then Some (st, [], E_INVALID_SIZE_HEADER) else codec_loop K XXH32 cb st b)"

end
