(* ===== verification/Kvdb.thy ===== *)
theory Kvdb
  imports KvdbBase
begin

text \<open>
  The commands of a database instance, one definition per member function of \<^verbatim>\<open>MmkvDb\<close> in \<^verbatim>\<open>db/kvdb.cc\<close>, in
  the order of the source. A command returns its status, its out parameter and the new state. An out parameter
  of scalar type is \<open>None\<close> when it has not been written; one of container type starts empty.
\<close>

section \<open>Early returns\<close>

type_synonym ('r, 'c) result = "(status_code \<times> 'r \<times> 'c kvdb) option"

definition early :: "(status_code option \<times> 'c kvdb) option \<Rightarrow> 'r \<Rightarrow> ('c kvdb \<Rightarrow> ('r, 'c) result) \<Rightarrow> ('r, 'c) result" where
  "early m r f = do { (e, db) \<leftarrow> m; case e of Some code \<Rightarrow> Some (code, r, db) | None \<Rightarrow> f db }"

definition CHECK_EXPIRE_ROUTINE :: "'c env \<Rightarrow> string \<Rightarrow> 'c kvdb \<Rightarrow> (status_code option \<times> 'c kvdb) option" where
  "CHECK_EXPIRE_ROUTINE E k db = do { (x, db) \<leftarrow> CheckExpire E k db; Some (if x then Some S_NONEXISTS else None, db) }"

definition ERROR_ROUTINE_KV :: "'c env \<Rightarrow> data_type \<Rightarrow> string \<Rightarrow> 'r \<Rightarrow> (entry \<Rightarrow> 'c kvdb \<Rightarrow> ('r, 'c) result) \<Rightarrow> 'c kvdb \<Rightarrow> ('r, 'c) result" where
  "ERROR_ROUTINE_KV E ty k r f db =
     do { (kv, db) \<leftarrow> dict_Find E k db;
          case kv of
            None \<Rightarrow> Some (S_NONEXISTS, r, db)
          | Some e \<Rightarrow> if dtype (edata e) \<noteq> ty then Some (S_EXISTS_DIFF_TYPE, r, db) else f e db }"

text \<open>The prefixes most commands share: the expiration check and the lookup, and before them the shard check.\<close>

definition read_cmd :: "'c env \<Rightarrow> data_type \<Rightarrow> string \<Rightarrow> 'r \<Rightarrow> (entry \<Rightarrow> 'c kvdb \<Rightarrow> ('r, 'c) result) \<Rightarrow> 'c kvdb \<Rightarrow> ('r, 'c) result" where
  "read_cmd E ty k r f db = early (CHECK_EXPIRE_ROUTINE E k db) r (ERROR_ROUTINE_KV E ty k r f)"

definition write_cmd :: "'c env \<Rightarrow> data_type \<Rightarrow> string \<Rightarrow> 'r \<Rightarrow> (entry \<Rightarrow> 'c kvdb \<Rightarrow> ('r, 'c) result) \<Rightarrow> 'c kvdb \<Rightarrow> ('r, 'c) result" where
  "write_cmd E ty k r f db = early (CHECK_SHARD_IS_LOCKED_KEY E k db) r (read_cmd E ty k r f)"

section \<open>Commands on keys\<close>

definition GetAllKeys :: "'c kvdb \<Rightarrow> string list option" where
  "GetAllKeys db = map_option (map ekey) (range_for_tree (dict db))"

definition Type :: "'c env \<Rightarrow> string \<Rightarrow> 'c kvdb \<Rightarrow> (data_type option \<times> 'c kvdb) option" where
  "Type E key db =
     do { (x, db) \<leftarrow> CheckExpire E key db;
          if x then Some (None, db)
          else do { (kv, db) \<leftarrow> dict_Find E key db;
                    case kv of
                      None \<Rightarrow> Some (None, db)
                    | Some e \<Rightarrow> do { db \<leftarrow> CacheUpdate E e db; Some (Some (dtype (edata e)), db) } } }"

definition Delete :: "'c env \<Rightarrow> string \<Rightarrow> 'c kvdb \<Rightarrow> (unit, 'c) result" where
  "Delete E k db = early (CHECK_SHARD_IS_LOCKED_KEY E k db) () (\<lambda>db.
     do { (node, db) \<leftarrow> dict_Extract E k db;
          case node of
            None \<Rightarrow> Some (S_NONEXISTS, (), db)
          | Some n \<Rightarrow> do { db \<leftarrow> RemoveKeyFromShard E (fst n) db;
                          db \<leftarrow> CacheRemove E (fst n) db;
                          db \<leftarrow> exp_Erase E k db;
                          Some (S_OK, (), db) } })"

definition DeleteAll :: "'c env \<Rightarrow> 'c kvdb \<Rightarrow> (nat, 'c) result" where
  "DeleteAll E db = (case CHECK_HAS_SHARD_LOCKED_KEY E db of
      Some code \<Rightarrow> Some (code, 0, db)
    | None \<Rightarrow>
        do { let ret = used (table1 (dict db));
             d \<leftarrow> TreeTable_Clear (dict db);
             x \<leftarrow> TreeTable_Clear (exp_dict db);
             c \<leftarrow> (case cache db of None \<Rightarrow> Some None | Some c \<Rightarrow> map_option Some (c_Clear (vtable E) c));
             db \<leftarrow> DeleteAllShard (db\<lparr>dict := d, exp_dict := x, cache := c\<rparr>);
             Some (S_OK, ret, db) })"

definition Rename :: "'c env \<Rightarrow> string \<Rightarrow> string \<Rightarrow> 'c kvdb \<Rightarrow> (unit, 'c) result" where
  "Rename E old_name new_name db =
     early (CHECK_SHARD_IS_LOCKED_KEY E old_name db) () (\<lambda>db.
     early (CHECK_EXPIRE_ROUTINE E old_name db) () (\<lambda>db.
     do { (exists, db) \<leftarrow> dict_Find E new_name db;
          if exists \<noteq> None then Some (S_EXISTS, (), db)
          else do { (node, db) \<leftarrow> dict_Extract E old_name db;
                    case node of
                      None \<Rightarrow> Some (S_NONEXISTS, (), db)
                    | Some (e, h) \<Rightarrow>
                        do { db \<leftarrow> TryReplacekey E (Some e) db;
                             let e' = e\<lparr>ekey := new_name\<rparr>;
                             (success, t) \<leftarrow> TreeTable_Push strcmp (hash_str E) ekey h e' (dict db);
                             db \<leftarrow> CacheUpdate E e' (db\<lparr>dict := t\<rparr>);
                             assertion success;
                             Some (S_OK, (), db) } } }))"

section \<open>String commands\<close>

definition InsertStr :: "'c env \<Rightarrow> string \<Rightarrow> string \<Rightarrow> 'c kvdb \<Rightarrow> (unit, 'c) result" where
  "InsertStr E k v db = early (CHECK_SHARD_IS_LOCKED_KEY E k db) () (\<lambda>db.
     do { db \<leftarrow> TryReplacekey E None db;
          (kv, db) \<leftarrow> InsertKv E k D_STRING db;
          case kv of
            None \<Rightarrow> Some (S_EXISTS, (), db)
          | Some e \<Rightarrow> do { db \<leftarrow> CacheAdd E e (set_data e (PString v) db);
                          db \<leftarrow> AddKeyToShard E e db;
                          Some (S_OK, (), db) } })"

text \<open>The reference to a null node's value in \<^verbatim>\<open>EraseStr\<close> and \<^verbatim>\<open>ListDel\<close> is formed but not read.\<close>

definition EraseStr :: "'c env \<Rightarrow> string \<Rightarrow> 'c kvdb \<Rightarrow> (unit, 'c) result" where
  "EraseStr E k db = early (CHECK_SHARD_IS_LOCKED_KEY E k db) () (\<lambda>db.
     do { (slot, t) \<leftarrow> TreeTable_FindNode strcmp (hash_str E) ekey k (dict db);
          let db = db\<lparr>dict := t\<rparr>;
          case slot of
            None \<Rightarrow> do { db \<leftarrow> exp_Erase E k db; Some (S_NONEXISTS, (), db) }
          | Some loc \<Rightarrow>
              do { e \<leftarrow> deref_node loc (dict db);
                   if dtype (edata e) = D_STRING
                   then do { db \<leftarrow> CacheRemove E e db;
                             db \<leftarrow> RemoveKeyFromShard E e db;
                             (_, t) \<leftarrow> TreeTable_EraseNode loc (dict db);
                             Some (S_OK, (), db\<lparr>dict := t\<rparr>) }
                   else Some (S_EXISTS_DIFF_TYPE, (), db) } })"

text \<open>\<^verbatim>\<open>GetStr\<close> hands out a pointer to the string, here the node that holds it.\<close>

definition GetStr :: "'c env \<Rightarrow> string \<Rightarrow> 'c kvdb \<Rightarrow> (entry option, 'c) result" where
  "GetStr E k db = early (CHECK_EXPIRE_ROUTINE E k db) None (\<lambda>db.
     do { (data, db) \<leftarrow> dict_Find E k db;
          case data of
            None \<Rightarrow> Some (S_NONEXISTS, None, db)
          | Some e \<Rightarrow> if dtype (edata e) = D_STRING
                      then do { db \<leftarrow> CacheUpdate E e db; Some (S_OK, Some e, db) }
                      else Some (S_EXISTS_DIFF_TYPE, None, db) })"

definition StrAppend :: "'c env \<Rightarrow> string \<Rightarrow> string \<Rightarrow> 'c kvdb \<Rightarrow> (unit, 'c) result" where
  "StrAppend E key str db = early (CHECK_SHARD_IS_LOCKED_KEY E key db) () (\<lambda>db.
     do { (code, p, db) \<leftarrow> GetStr E key db;
          if code = S_OK
          then do { e \<leftarrow> p; s \<leftarrow> to_str e;
                    db \<leftarrow> TryReplacekey E None (set_data e (PString (s @ str)) db);
                    Some (code, (), db) }
          else Some (code, (), db) })"

text \<open>\<^verbatim>\<open>erase(size - cnt, cnt)\<close>; a position past the size throws \<^verbatim>\<open>out_of_range\<close>, which nothing catches.\<close>

definition StrPopBack :: "'c env \<Rightarrow> string \<Rightarrow> nat \<Rightarrow> 'c kvdb \<Rightarrow> (unit, 'c) result" where
  "StrPopBack E key cnt db = early (CHECK_SHARD_IS_LOCKED_KEY E key db) () (\<lambda>db.
     do { (code, p, db) \<leftarrow> GetStr E key db;
          if code = S_OK
          then do { e \<leftarrow> p; s \<leftarrow> to_str e;
                    let pos = nat (size_t (int (length s) - int cnt));
                    assertion (pos \<le> length s);
                    Some (code, (), set_data e (PString (take pos s @ drop (pos + cnt) s)) db) }
          else Some (code, (), db) })"

definition SetStr :: "'c env \<Rightarrow> string \<Rightarrow> string \<Rightarrow> 'c kvdb \<Rightarrow> (unit, 'c) result" where
  "SetStr E k v db =
     early (CHECK_SHARD_IS_LOCKED_KEY E k db) () (\<lambda>db.
     early (CHECK_EXPIRE_ROUTINE E k db) () (\<lambda>db.
     do { (success, d, db) \<leftarrow> InsertKvWithDuplicate E k D_STRING db;
          if success
          then do { db \<leftarrow> CacheAdd E d (set_data d (PString v) db);
                    db \<leftarrow> AddKeyToShard E d db;
                    db \<leftarrow> TryReplacekey E None db;
                    Some (S_OK, (), db) }
          else if dtype (edata d) = D_STRING
          then do { _ \<leftarrow> to_str d;
                    db \<leftarrow> CacheUpdate E d (set_data d (PString v) db);
                    db \<leftarrow> TryReplacekey E None db;
                    Some (S_OK, (), db) }
          else Some (S_EXISTS_DIFF_TYPE, (), db) }))"

section \<open>List commands\<close>

definition ListAdd :: "'c env \<Rightarrow> string \<Rightarrow> string list \<Rightarrow> 'c kvdb \<Rightarrow> (unit, 'c) result" where
  "ListAdd E k els db = early (CHECK_SHARD_IS_LOCKED_KEY E k db) () (\<lambda>db.
     do { (kv, db) \<leftarrow> InsertKv E k D_STRLIST db;
          case kv of
            None \<Rightarrow> Some (S_EXISTS, (), db)
          | Some e \<Rightarrow> do { db \<leftarrow> CacheAdd E e db;
                          db \<leftarrow> AddKeyToShard E e db;
                          Some (S_OK, (), set_data e (PStrList els) db) } })"

text \<open>\<^verbatim>\<open>ListAppend\<close> ignores the answer of \<^verbatim>\<open>CheckExpire\<close>, which may have moved the key away.\<close>

definition ListAppend :: "'c env \<Rightarrow> string \<Rightarrow> string list \<Rightarrow> 'c kvdb \<Rightarrow> (unit, 'c) result" where
  "ListAppend E k els db = early (CHECK_SHARD_IS_LOCKED_KEY E k db) () (\<lambda>db.
     do { (x, db) \<leftarrow> CheckExpire E k db;
          let k = key_after_expire E x k;
          (success, d, db) \<leftarrow> InsertKvWithDuplicate E k D_STRLIST db;
          if success
          then do { db \<leftarrow> CacheAdd E d db;
                    db \<leftarrow> AddKeyToShard E d db;
                    Some (S_OK, (), set_data d (PStrList els) db) }
          else if dtype (edata d) = D_STRLIST
          then do { lst \<leftarrow> to_list d; Some (S_OK, (), set_data d (PStrList (lst @ els)) db) }
          else Some (S_EXISTS_DIFF_TYPE, (), db) })"

definition ListPrepend :: "'c env \<Rightarrow> string \<Rightarrow> string list \<Rightarrow> 'c kvdb \<Rightarrow> (unit, 'c) result" where
  "ListPrepend E k els db = write_cmd E D_STRLIST k () (\<lambda>e db.
     do { lst \<leftarrow> to_list e; Some (S_OK, (), set_data e (PStrList (rev els @ lst)) db) }) db"

definition ListGetSize :: "'c env \<Rightarrow> string \<Rightarrow> 'c kvdb \<Rightarrow> (nat option, 'c) result" where
  "ListGetSize E k db = read_cmd E D_STRLIST k None (\<lambda>e db.
     do { lst \<leftarrow> to_list e; Some (S_OK, Some (length lst), db) }) db"

definition ListGetAll :: "'c env \<Rightarrow> string \<Rightarrow> 'c kvdb \<Rightarrow> (string list, 'c) result" where
  "ListGetAll E k db = read_cmd E D_STRLIST k [] (\<lambda>e db. do { lst \<leftarrow> to_list e; Some (S_OK, lst, db) }) db"

text \<open>
  The two ways \<^verbatim>\<open>ListGetRange\<close> copies: forwards from position \<open>l\<close>, and backwards from the last node, first moved
  \<^verbatim>\<open>--right_diff\<close> times. The \<^verbatim>\<open>prev\<close> pointer of the first node is the last node, so moving backwards goes round.
\<close>

definition prev_pos :: "nat \<Rightarrow> nat \<Rightarrow> nat" where
  "prev_pos n i = (if i = 0 then n - 1 else i - 1)"

fun copy_back :: "string list \<Rightarrow> nat \<Rightarrow> nat \<Rightarrow> string list" where
  "copy_back lst i 0 = []"
| "copy_back lst i (Suc m) = lst ! i # copy_back lst (prev_pos (length lst) i) m"

definition range_values :: "int \<Rightarrow> int \<Rightarrow> string list \<Rightarrow> status_code \<times> string list" where
  "range_values l r lst =
     (let n = int (length lst);
          l = (if l < 0 then int64 (n + l) else l);
          r = (if r < 0 then int64 (n + r + 1) else r) in
      if n \<le> size_t l \<or> r < l then (S_INVALID_RANGE, [])
      else let m = nat (size_t (VSET_MIN (size_t r) n - l));
               right_diff = size_t (n - r) in
           (S_OK, if size_t l \<le> right_diff then take m (drop (nat l) lst)
                  else copy_back lst ((prev_pos (length lst) ^^ rounds (right_diff - 1)) (length lst - 1)) m))"

definition ListGetRange :: "'c env \<Rightarrow> string \<Rightarrow> int \<Rightarrow> int \<Rightarrow> 'c kvdb \<Rightarrow> (string list, 'c) result" where
  "ListGetRange E k l r db = read_cmd E D_STRLIST k [] (\<lambda>e db.
     do { lst \<leftarrow> to_list e; Some (fst (range_values l r lst), snd (range_values l r lst), db) }) db"

definition ListPopFront :: "'c env \<Rightarrow> string \<Rightarrow> nat \<Rightarrow> 'c kvdb \<Rightarrow> (unit, 'c) result" where
  "ListPopFront E k cnt db = write_cmd E D_STRLIST k () (\<lambda>e db.
     do { lst \<leftarrow> to_list e; Some (S_OK, (), set_data e (PStrList (drop (min cnt (length lst)) lst)) db) }) db"

definition ListPopBack :: "'c env \<Rightarrow> string \<Rightarrow> nat \<Rightarrow> 'c kvdb \<Rightarrow> (unit, 'c) result" where
  "ListPopBack E k cnt db = write_cmd E D_STRLIST k () (\<lambda>e db.
     do { lst \<leftarrow> to_list e; Some (S_OK, (), set_data e (PStrList (take (length lst - min cnt (length lst)) lst)) db) }) db"

definition ListDel :: "'c env \<Rightarrow> string \<Rightarrow> 'c kvdb \<Rightarrow> (unit, 'c) result" where
  "ListDel E k db = early (CHECK_SHARD_IS_LOCKED_KEY E k db) () (\<lambda>db.
     do { (slot, t) \<leftarrow> TreeTable_FindNode strcmp (hash_str E) ekey k (dict db);
          let db = db\<lparr>dict := t\<rparr>;
          case slot of
            None \<Rightarrow> Some (S_NONEXISTS, (), db)
          | Some loc \<Rightarrow>
              do { e \<leftarrow> deref_node loc (dict db);
                   if dtype (edata e) = D_STRLIST
                   then do { db \<leftarrow> CacheRemove E e db;
                             db \<leftarrow> RemoveKeyFromShard E e db;
                             (_, t) \<leftarrow> TreeTable_EraseNode loc (dict db);
                             db \<leftarrow> exp_Erase E k (db\<lparr>dict := t\<rparr>);
                             Some (S_OK, (), db) }
                   else Some (S_EXISTS_DIFF_TYPE, (), db) } })"

section \<open>Sorted set commands\<close>

text \<open>
  The head of the commands that add to a container, creating it when the key is new: the node, the container
  \<open>fresh\<close> or the one the node has.
\<close>

definition container_of :: "'c env \<Rightarrow> string \<Rightarrow> data_type \<Rightarrow> any_data \<Rightarrow> 'c kvdb \<Rightarrow> (bool \<times> entry \<times> 'c kvdb) option" where
  "container_of E key ty fresh db =
     do { (success, d, db) \<leftarrow> InsertKvWithDuplicate E key ty db;
          if success
          then do { let d' = d\<lparr>edata := (edata d)\<lparr>any_data := Some fresh\<rparr>\<rparr>;
                    db \<leftarrow> CacheAdd E d (set_data d fresh db);
                    db \<leftarrow> AddKeyToShard E d db;
                    Some (True, d', db) }
          else Some (dtype (edata d) = ty, d, db) }"

fun vset_add_loop :: "(string \<Rightarrow> nat) \<Rightarrow> weight_value list \<Rightarrow> nat \<Rightarrow> vset \<Rightarrow> (nat \<times> vset) option" where
  "vset_add_loop hf [] n v = Some (n, v)"
| "vset_add_loop hf ((w, m) # wms) n v =
     do { (ok, v) \<leftarrow> Vset_Insert hf w m v; vset_add_loop hf wms (if ok then n + 1 else n) v }"

definition VsetAdd :: "'c env \<Rightarrow> string \<Rightarrow> weight_value list \<Rightarrow> 'c kvdb \<Rightarrow> (nat option, 'c) result" where
  "VsetAdd E key wms db = early (CHECK_SHARD_IS_LOCKED_KEY E key db) None (\<lambda>db.
     do { (ok, d, db) \<leftarrow> container_of E key D_SORTED_SET (PVset Vset_new) db;
          if ok
          then do { v \<leftarrow> TO_VSET d;
                    (n, v) \<leftarrow> vset_add_loop (hash_str E) wms 0 v;
                    Some (S_OK, Some n, set_data d (PVset v) db) }
          else Some (S_EXISTS_DIFF_TYPE, None, db) })"

definition VsetDel :: "'c env \<Rightarrow> string \<Rightarrow> string \<Rightarrow> 'c kvdb \<Rightarrow> (unit, 'c) result" where
  "VsetDel E key member db = write_cmd E D_SORTED_SET key () (\<lambda>e db.
     do { v \<leftarrow> TO_VSET e;
          (ok, v) \<leftarrow> Vset_Erase (hash_str E) member v;
          Some (if ok then S_OK else S_VMEMBER_NONEXISTS, (), set_data e (PVset v) db) }) db"

definition VsetDelRange :: "'c env \<Rightarrow> string \<Rightarrow> int \<Rightarrow> int \<Rightarrow> 'c kvdb \<Rightarrow> (nat option, 'c) result" where
  "VsetDelRange E key left right db = write_cmd E D_SORTED_SET key None (\<lambda>e db.
     do { v \<leftarrow> TO_VSET e;
          (n, v) \<leftarrow> Vset_EraseRange left right v;
          Some (S_OK, Some n, set_data e (PVset v) db) }) db"

definition VsetDelRangeByWeight :: "'c env \<Rightarrow> string \<Rightarrow> real \<Rightarrow> real \<Rightarrow> 'c kvdb \<Rightarrow> (nat option, 'c) result" where
  "VsetDelRangeByWeight E key left right db = write_cmd E D_SORTED_SET key None (\<lambda>e db.
     do { v \<leftarrow> TO_VSET e;
          (n, v) \<leftarrow> Vset_EraseRangeByWeight left right v;
          Some (S_OK, Some n, set_data e (PVset v) db) }) db"

definition VsetSize :: "'c env \<Rightarrow> string \<Rightarrow> 'c kvdb \<Rightarrow> (nat option, 'c) result" where
  "VsetSize E key db = read_cmd E D_SORTED_SET key None (\<lambda>e db.
     do { v \<leftarrow> TO_VSET e; n \<leftarrow> Vset_GetSize v; Some (S_OK, Some (nat n), db) }) db"

definition VsetSizeByWeight :: "'c env \<Rightarrow> string \<Rightarrow> real \<Rightarrow> real \<Rightarrow> 'c kvdb \<Rightarrow> (nat option, 'c) result" where
  "VsetSizeByWeight E key left right db = read_cmd E D_SORTED_SET key None (\<lambda>e db.
     do { v \<leftarrow> TO_VSET e; n \<leftarrow> Vset_GetSizeByWeight left right v; Some (S_OK, Some n, db) }) db"

definition VsetWeight :: "'c env \<Rightarrow> string \<Rightarrow> string \<Rightarrow> 'c kvdb \<Rightarrow> (real option, 'c) result" where
  "VsetWeight E key member db = read_cmd E D_SORTED_SET key None (\<lambda>e db.
     do { v \<leftarrow> TO_VSET e;
          (r, v) \<leftarrow> Vset_GetWeight (hash_str E) member v;
          Some (if r \<noteq> None then S_OK else S_VMEMBER_NONEXISTS, r, set_data e (PVset v) db) }) db"

definition VsetOrder :: "'c env \<Rightarrow> string \<Rightarrow> string \<Rightarrow> 'c kvdb \<Rightarrow> (nat option, 'c) result" where
  "VsetOrder E key member db = read_cmd E D_SORTED_SET key None (\<lambda>e db.
     do { v \<leftarrow> TO_VSET e;
          (r, v) \<leftarrow> Vset_GetOrder (hash_str E) member v;
          Some (if r \<noteq> None then S_OK else S_VMEMBER_NONEXISTS, r, set_data e (PVset v) db) }) db"

definition VsetROrder :: "'c env \<Rightarrow> string \<Rightarrow> string \<Rightarrow> 'c kvdb \<Rightarrow> (nat option, 'c) result" where
  "VsetROrder E key member db = read_cmd E D_SORTED_SET key None (\<lambda>e db.
     do { v \<leftarrow> TO_VSET e;
          (r, v) \<leftarrow> Vset_GetROrder (hash_str E) member v;
          Some (if r \<noteq> None then S_OK else S_VMEMBER_NONEXISTS, r, set_data e (PVset v) db) }) db"

definition VsetAll :: "'c env \<Rightarrow> string \<Rightarrow> 'c kvdb \<Rightarrow> (weight_value list, 'c) result" where
  "VsetAll E key db = read_cmd E D_SORTED_SET key [] (\<lambda>e db.
     do { v \<leftarrow> TO_VSET e; Some (S_OK, Vset_GetAll v, db) }) db"

definition VsetRange :: "'c env \<Rightarrow> string \<Rightarrow> int \<Rightarrow> int \<Rightarrow> 'c kvdb \<Rightarrow> (weight_value list, 'c) result" where
  "VsetRange E key left right db = read_cmd E D_SORTED_SET key [] (\<lambda>e db.
     do { v \<leftarrow> TO_VSET e; wms \<leftarrow> Vset_GetRange left right v; Some (S_OK, wms, db) }) db"

definition VsetRangeByWeight :: "'c env \<Rightarrow> string \<Rightarrow> real \<Rightarrow> real \<Rightarrow> 'c kvdb \<Rightarrow> (weight_value list, 'c) result" where
  "VsetRangeByWeight E key left right db = read_cmd E D_SORTED_SET key [] (\<lambda>e db.
     do { v \<leftarrow> TO_VSET e; wms \<leftarrow> Vset_GetRangeByWeight left right v; Some (S_OK, wms, db) }) db"

definition VsetRRange :: "'c env \<Rightarrow> string \<Rightarrow> int \<Rightarrow> int \<Rightarrow> 'c kvdb \<Rightarrow> (weight_value list, 'c) result" where
  "VsetRRange E key left right db = read_cmd E D_SORTED_SET key [] (\<lambda>e db.
     do { v \<leftarrow> TO_VSET e; wms \<leftarrow> Vset_GetRRange left right v; Some (S_OK, wms, db) }) db"

definition VsetRRangeByWeight :: "'c env \<Rightarrow> string \<Rightarrow> real \<Rightarrow> real \<Rightarrow> 'c kvdb \<Rightarrow> (weight_value list, 'c) result" where
  "VsetRRangeByWeight E key left right db = read_cmd E D_SORTED_SET key [] (\<lambda>e db.
     do { v \<leftarrow> TO_VSET e; wms \<leftarrow> Vset_GetRRangeByWeight left right v; Some (S_OK, wms, db) }) db"

section \<open>Map commands\<close>

fun map_add_loop :: "(string \<Rightarrow> nat) \<Rightarrow> (string \<times> string) list \<Rightarrow> nat \<Rightarrow> smap \<Rightarrow> (nat \<times> smap) option" where
  "map_add_loop hf [] n m = Some (n, m)"
| "map_add_loop hf (kv # kvs) n m =
     do { (r, m) \<leftarrow> HashTable_Insert hf fst kv m; map_add_loop hf kvs (if r \<noteq> None then n + 1 else n) m }"

definition MapAdd :: "'c env \<Rightarrow> string \<Rightarrow> (string \<times> string) list \<Rightarrow> 'c kvdb \<Rightarrow> (nat option, 'c) result" where
  "MapAdd E key kvs db = early (CHECK_SHARD_IS_LOCKED_KEY E key db) None (\<lambda>db.
     do { (ok, d, db) \<leftarrow> container_of E key D_MAP (PMap HashTable_new) db;
          if ok
          then do { m \<leftarrow> TO_MAP d;
                    (n, m) \<leftarrow> map_add_loop (hash_str E) kvs 0 m;
                    Some (S_OK, Some n, set_data d (PMap m) db) }
          else Some (S_EXISTS_DIFF_TYPE, None, db) })"

definition MapGet :: "'c env \<Rightarrow> string \<Rightarrow> string \<Rightarrow> 'c kvdb \<Rightarrow> (string option, 'c) result" where
  "MapGet E key field db = read_cmd E D_MAP key None (\<lambda>e db.
     do { m \<leftarrow> TO_MAP e;
          (fv, m) \<leftarrow> HashTable_Find (hash_str E) fst field m;
          Some (if fv \<noteq> None then S_OK else S_FIELD_NONEXISTS, map_option snd fv, set_data e (PMap m) db) }) db"

fun map_gets_loop :: "(string \<Rightarrow> nat) \<Rightarrow> string list \<Rightarrow> string list \<Rightarrow> smap \<Rightarrow> (status_code \<times> string list \<times> smap) option" where
  "map_gets_loop hf [] values m = Some (S_OK, values, m)"
| "map_gets_loop hf (field # fs) values m =
     do { (fv, m) \<leftarrow> HashTable_Find hf fst field m;
          case fv of
            Some x \<Rightarrow> map_gets_loop hf fs (values @ [snd x]) m
          | None \<Rightarrow> Some (S_FIELD_NONEXISTS, values, m) }"

definition MapGets :: "'c env \<Rightarrow> string \<Rightarrow> string list \<Rightarrow> 'c kvdb \<Rightarrow> (string list, 'c) result" where
  "MapGets E key fs db = read_cmd E D_MAP key [] (\<lambda>e db.
     do { m \<leftarrow> TO_MAP e;
          (code, vs, m) \<leftarrow> map_gets_loop (hash_str E) fs [] m;
          Some (code, vs, set_data e (PMap m) db) }) db"

definition MapSet :: "'c env \<Rightarrow> string \<Rightarrow> string \<Rightarrow> string \<Rightarrow> 'c kvdb \<Rightarrow> (unit, 'c) result" where
  "MapSet E key field value db = write_cmd E D_MAP key () (\<lambda>e db.
     do { m \<leftarrow> TO_MAP e;
          (success, d, m) \<leftarrow> InsertWithDuplicate (hash_str E) fst (field, value) m;
          let m = (if success then m else HashTable_assign fst (fst d, value) m);
          Some (S_OK, (), set_data e (PMap m) db) }) db"

definition MapDel :: "'c env \<Rightarrow> string \<Rightarrow> string \<Rightarrow> 'c kvdb \<Rightarrow> (unit, 'c) result" where
  "MapDel E key field db = write_cmd E D_MAP key () (\<lambda>e db.
     do { m \<leftarrow> TO_MAP e;
          (n, m) \<leftarrow> HashTable_Erase (hash_str E) fst field m;
          Some (if n \<noteq> 0 then S_OK else S_FIELD_NONEXISTS, (), set_data e (PMap m) db) }) db"

definition MapSize :: "'c env \<Rightarrow> string \<Rightarrow> 'c kvdb \<Rightarrow> (nat option, 'c) result" where
  "MapSize E key db = read_cmd E D_MAP key None (\<lambda>e db.
     do { m \<leftarrow> TO_MAP e; Some (S_OK, Some (used (table1 m)), db) }) db"

definition MapExists :: "'c env \<Rightarrow> string \<Rightarrow> string \<Rightarrow> 'c kvdb \<Rightarrow> (unit, 'c) result" where
  "MapExists E key field db = read_cmd E D_MAP key () (\<lambda>e db.
     do { m \<leftarrow> TO_MAP e;
          (fv, m) \<leftarrow> HashTable_Find (hash_str E) fst field m;
          Some (if fv \<noteq> None then S_OK else S_FIELD_NONEXISTS, (), set_data e (PMap m) db) }) db"

definition MapFields :: "'c env \<Rightarrow> string \<Rightarrow> 'c kvdb \<Rightarrow> (string list, 'c) result" where
  "MapFields E key db = read_cmd E D_MAP key [] (\<lambda>e db.
     do { m \<leftarrow> TO_MAP e; kvs \<leftarrow> range_for_list m; Some (S_OK, map fst kvs, db) }) db"

definition MapValues :: "'c env \<Rightarrow> string \<Rightarrow> 'c kvdb \<Rightarrow> (string list, 'c) result" where
  "MapValues E key db = read_cmd E D_MAP key [] (\<lambda>e db.
     do { m \<leftarrow> TO_MAP e; kvs \<leftarrow> range_for_list m; Some (S_OK, map snd kvs, db) }) db"

definition MapAll :: "'c env \<Rightarrow> string \<Rightarrow> 'c kvdb \<Rightarrow> ((string \<times> string) list, 'c) result" where
  "MapAll E key db = read_cmd E D_MAP key [] (\<lambda>e db.
     do { m \<leftarrow> TO_MAP e; kvs \<leftarrow> range_for_list m; Some (S_OK, kvs, db) }) db"

section \<open>Set commands\<close>

fun set_add_loop :: "(string \<Rightarrow> nat) \<Rightarrow> string list \<Rightarrow> nat \<Rightarrow> sset \<Rightarrow> (nat \<times> sset) option" where
  "set_add_loop hf [] n s = Some (n, s)"
| "set_add_loop hf (m # ms) n s =
     do { (r, s) \<leftarrow> HashTable_Insert hf id m s; set_add_loop hf ms (if r \<noteq> None then n + 1 else n) s }"

definition SetAdd :: "'c env \<Rightarrow> string \<Rightarrow> string list \<Rightarrow> 'c kvdb \<Rightarrow> (nat option, 'c) result" where
  "SetAdd E key ms db = early (CHECK_SHARD_IS_LOCKED_KEY E key db) None (\<lambda>db.
     do { (ok, d, db) \<leftarrow> container_of E key D_SET (PSet HashTable_new) db;
          if ok
          then do { s \<leftarrow> TO_SET d;
                    (n, s) \<leftarrow> set_add_loop (hash_str E) ms 0 s;
                    Some (S_OK, Some n, set_data d (PSet s) db) }
          else Some (S_EXISTS_DIFF_TYPE, None, db) })"

definition SetDelm :: "'c env \<Rightarrow> string \<Rightarrow> string \<Rightarrow> 'c kvdb \<Rightarrow> (unit, 'c) result" where
  "SetDelm E key member db = write_cmd E D_SET key () (\<lambda>e db.
     do { s \<leftarrow> TO_SET e;
          (n, s) \<leftarrow> HashTable_Erase (hash_str E) id member s;
          Some (if n \<noteq> 0 then S_OK else S_SET_MEMBER_NONEXISTS, (), set_data e (PSet s) db) }) db"

definition SetRandDelm :: "'c env \<Rightarrow> string \<Rightarrow> 'c kvdb \<Rightarrow> (unit, 'c) result" where
  "SetRandDelm E key db = write_cmd E D_SET key () (\<lambda>e db.
     do { s \<leftarrow> TO_SET e;
          (n, s) \<leftarrow> HashSet_EraseRandom (hash_str E) s;
          Some (if n \<noteq> 0 then S_OK else S_SET_NO_MEMBER, (), set_data e (PSet s) db) }) db"

definition SetSize :: "'c env \<Rightarrow> string \<Rightarrow> 'c kvdb \<Rightarrow> (nat option, 'c) result" where
  "SetSize E key db = read_cmd E D_SET key None (\<lambda>e db.
     do { s \<leftarrow> TO_SET e; Some (S_OK, Some (used (table1 s)), db) }) db"

definition SetExists :: "'c env \<Rightarrow> string \<Rightarrow> string \<Rightarrow> 'c kvdb \<Rightarrow> (unit, 'c) result" where
  "SetExists E key member db = read_cmd E D_SET key () (\<lambda>e db.
     do { s \<leftarrow> TO_SET e;
          (r, s) \<leftarrow> HashTable_Find (hash_str E) id member s;
          Some (if r \<noteq> None then S_OK else S_SET_MEMBER_NONEXISTS, (), set_data e (PSet s) db) }) db"

definition SetAll :: "'c env \<Rightarrow> string \<Rightarrow> 'c kvdb \<Rightarrow> (string list, 'c) result" where
  "SetAll E key db = read_cmd E D_SET key [] (\<lambda>e db.
     do { s \<leftarrow> TO_SET e; ms \<leftarrow> range_for_list s; Some (S_OK, ms, db) }) db"

text \<open>
  \<^verbatim>\<open>SET_OP_ROUTINE\<close> after the two expiration checks. The operands are the same set exactly when their nodes are the
  same; \<open>two\<close> is the operation on two sets and \<open>one\<close> that on a set and itself.
\<close>

definition SET_OP_ROUTINE :: "'c env \<Rightarrow> string \<Rightarrow> string \<Rightarrow> 'r \<Rightarrow> (entry \<Rightarrow> entry \<Rightarrow> 'c kvdb \<Rightarrow> ('r, 'c) result) \<Rightarrow> 'c kvdb \<Rightarrow> ('r, 'c) result" where
  "SET_OP_ROUTINE E key1 key2 r f db =
     early (CHECK_EXPIRE_ROUTINE E key1 db) r (\<lambda>db.
     early (CHECK_EXPIRE_ROUTINE E key2 db) r
       (ERROR_ROUTINE_KV E D_SET key1 r (\<lambda>kv1. ERROR_ROUTINE_KV E D_SET key2 r (\<lambda>kv2. f kv1 kv2))))"

datatype set_op = And | Or | Sub

definition two_sets :: "set_op \<Rightarrow> (string \<Rightarrow> nat) \<Rightarrow> sset \<Rightarrow> sset \<Rightarrow> (string list \<times> sset \<times> sset) option" where
  "two_sets x hf = (case x of And \<Rightarrow> HashSet_Intersection hf | Or \<Rightarrow> HashSet_Union hf | Sub \<Rightarrow> HashSet_Difference hf)"

definition one_set :: "set_op \<Rightarrow> (string \<Rightarrow> nat) \<Rightarrow> sset \<Rightarrow> (string list \<times> sset) option" where
  "one_set x hf = (case x of And \<Rightarrow> HashSet_Intersection_self hf | Or \<Rightarrow> HashSet_Union_self hf | Sub \<Rightarrow> HashSet_Difference_self hf)"

definition set_members :: "'c env \<Rightarrow> set_op \<Rightarrow> entry \<Rightarrow> entry \<Rightarrow> 'c kvdb \<Rightarrow> (string list \<times> 'c kvdb) option" where
  "set_members E x kv1 kv2 db =
     do { s1 \<leftarrow> TO_SET kv1;
          s2 \<leftarrow> TO_SET kv2;
          if ekey kv1 = ekey kv2
          then do { (ms, s) \<leftarrow> one_set x (hash_str E) s1; Some (ms, set_data kv1 (PSet s) db) }
          else do { (ms, s1, s2) \<leftarrow> two_sets x (hash_str E) s1 s2;
                    Some (ms, set_data kv2 (PSet s2) (set_data kv1 (PSet s1) db)) } }"

definition SetAnd :: "'c env \<Rightarrow> string \<Rightarrow> string \<Rightarrow> 'c kvdb \<Rightarrow> (string list, 'c) result" where
  "SetAnd E key1 key2 db = SET_OP_ROUTINE E key1 key2 [] (\<lambda>kv1 kv2 db.
     do { (ms, db) \<leftarrow> set_members E And kv1 kv2 db; Some (S_OK, ms, db) }) db"

definition SetSub :: "'c env \<Rightarrow> string \<Rightarrow> string \<Rightarrow> 'c kvdb \<Rightarrow> (string list, 'c) result" where
  "SetSub E key1 key2 db = SET_OP_ROUTINE E key1 key2 [] (\<lambda>kv1 kv2 db.
     do { (ms, db) \<leftarrow> set_members E Sub kv1 kv2 db; Some (S_OK, ms, db) }) db"

definition SetOr :: "'c env \<Rightarrow> string \<Rightarrow> string \<Rightarrow> 'c kvdb \<Rightarrow> (string list, 'c) result" where
  "SetOr E key1 key2 db = SET_OP_ROUTINE E key1 key2 [] (\<lambda>kv1 kv2 db.
     do { (ms, db) \<leftarrow> set_members E Or kv1 kv2 db; Some (S_OK, ms, db) }) db"

definition SetAndSize :: "'c env \<Rightarrow> string \<Rightarrow> string \<Rightarrow> 'c kvdb \<Rightarrow> (nat option, 'c) result" where
  "SetAndSize E key1 key2 db = SET_OP_ROUTINE E key1 key2 None (\<lambda>kv1 kv2 db.
     do { (ms, db) \<leftarrow> set_members E And kv1 kv2 db; Some (S_OK, Some (length ms), db) }) db"

definition SetOrSize :: "'c env \<Rightarrow> string \<Rightarrow> string \<Rightarrow> 'c kvdb \<Rightarrow> (nat option, 'c) result" where
  "SetOrSize E key1 key2 db = SET_OP_ROUTINE E key1 key2 None (\<lambda>kv1 kv2 db.
     do { (ms, db) \<leftarrow> set_members E Or kv1 kv2 db; Some (S_OK, Some (length ms), db) }) db"

definition SetSubSize :: "'c env \<Rightarrow> string \<Rightarrow> string \<Rightarrow> 'c kvdb \<Rightarrow> (nat option, 'c) result" where
  "SetSubSize E key1 key2 db = SET_OP_ROUTINE E key1 key2 None (\<lambda>kv1 kv2 db.
     do { (ms, db) \<leftarrow> set_members E Sub kv1 kv2 db; Some (S_OK, Some (length ms), db) }) db"

subsection \<open>Operations with a destination\<close>

text \<open>
  The callback inserts into the destination while the operands are walked and searched, and the destination may
  be one of them. The sets live in a store indexed by the key of their node; the loop walks set \<open>i\<close>, searches
  set \<open>j\<close> and inserts the members with the wanted answer into set \<open>d\<close>. As in \<^verbatim>\<open>self_loop\<close> the iterator's node is named
  by its member.
\<close>

partial_function (option) set_to_loop :: "(string \<Rightarrow> nat) \<Rightarrow> string \<Rightarrow> (string \<times> bool) option \<Rightarrow> string \<Rightarrow> string ht_iter \<Rightarrow> (string \<Rightarrow> sset)
    \<Rightarrow> (string \<Rightarrow> sset) option" where
  "set_to_loop hf i search d it st = (case slot it of
      None \<Rightarrow> Some st
    | Some m \<Rightarrow>
        do { (hit, st) \<leftarrow> (case search of
               None \<Rightarrow> Some (True, st)
             | Some (j, want) \<Rightarrow> do { (r, s) \<leftarrow> HashTable_Find hf id m (st j); Some ((r \<noteq> None) = want, st(j := s)) });
             st \<leftarrow> (if hit then do { (_, s) \<leftarrow> HashTable_Insert hf id m (st d); Some (st(d := s)) } else Some st);
             set_to_loop hf i search d (case slot_next m (st i) of
                Some m' \<Rightarrow> it\<lparr>slot := Some m'\<rparr>
              | None \<Rightarrow> Increment_loop list_head (st i) [table_index it ..< 2] it) st })"

definition set_to_walk :: "(string \<Rightarrow> nat) \<Rightarrow> string \<Rightarrow> (string \<times> bool) option \<Rightarrow> string \<Rightarrow> (string \<Rightarrow> sset) \<Rightarrow> (string \<Rightarrow> sset) option" where
  "set_to_walk hf i search d st = set_to_loop hf i search d (Iter_begin list_head (st i)) st"

definition set_to_op :: "set_op \<Rightarrow> (string \<Rightarrow> nat) \<Rightarrow> string \<Rightarrow> string \<Rightarrow> string \<Rightarrow> (string \<Rightarrow> sset) \<Rightarrow> (string \<Rightarrow> sset) option" where
  "set_to_op x hf a b d st =
     (let (less, greater) = (if used (table1 (st a)) < used (table1 (st b)) then (a, b) else (b, a)) in
      case x of
        And \<Rightarrow> set_to_walk hf less (Some (greater, True)) d st
      | Sub \<Rightarrow> set_to_walk hf a (Some (b, False)) d st
      | Or \<Rightarrow> do { st \<leftarrow> set_to_walk hf greater None d st; set_to_walk hf less (Some (greater, False)) d st })"

text \<open>\<^verbatim>\<open>SET_OP_TO_ROUTINE\<close> and the operation.\<close>

definition set_op_to :: "'c env \<Rightarrow> set_op \<Rightarrow> string \<Rightarrow> string \<Rightarrow> string \<Rightarrow> 'c kvdb \<Rightarrow> (unit, 'c) result" where
  "set_op_to E x key1 key2 dest db = early (CHECK_SHARD_IS_LOCKED_KEY E dest db) () (SET_OP_ROUTINE E key1 key2 () (\<lambda>kv1 kv2 db.
     do { s1 \<leftarrow> TO_SET kv1;
          s2 \<leftarrow> TO_SET kv2;
          (ok, d, db) \<leftarrow> container_of E dest D_SET (PSet HashTable_new) db;
          if \<not> ok then Some (S_DEST_EXISTS, (), db)
          else do { s \<leftarrow> TO_SET d;
                    st \<leftarrow> set_to_op x (hash_str E) (ekey kv1) (ekey kv2) (ekey d)
                           ((\<lambda>_. s)(ekey kv1 := s1, ekey kv2 := s2));
                    Some (S_OK, (), set_data d (PSet (st (ekey d))) (set_data kv2 (PSet (st (ekey kv2)))
                      (set_data kv1 (PSet (st (ekey kv1))) db))) } }))"

definition SetAndTo :: "'c env \<Rightarrow> string \<Rightarrow> string \<Rightarrow> string \<Rightarrow> 'c kvdb \<Rightarrow> (unit, 'c) result" where
  "SetAndTo E = set_op_to E And"

definition SetSubTo :: "'c env \<Rightarrow> string \<Rightarrow> string \<Rightarrow> string \<Rightarrow> 'c kvdb \<Rightarrow> (unit, 'c) result" where
  "SetSubTo E = set_op_to E Sub"

definition SetOrTo :: "'c env \<Rightarrow> string \<Rightarrow> string \<Rightarrow> string \<Rightarrow> 'c kvdb \<Rightarrow> (unit, 'c) result" where
  "SetOrTo E = set_op_to E Or"

section \<open>Expiration commands\<close>

definition ExpireAtMs :: "'c env \<Rightarrow> string \<Rightarrow> nat \<Rightarrow> 'c kvdb \<Rightarrow> (unit, 'c) result" where
  "ExpireAtMs E key expire db = early (CHECK_SHARD_IS_LOCKED_KEY E key db) () (\<lambda>db.
     if IsExpirationDisable (config E) then Some (S_EXPIRE_DISABLE, (), db)
     else do { (kv, db) \<leftarrow> dict_Find E key db;
               if kv = None then Some (S_NONEXISTS, (), db)
               else if cur_ms E < expire
               then do { (success, d, t) \<leftarrow> TreeTable_InsertWithDuplicate strcmp (hash_str E) fst (key, expire) (exp_dict db);
                         Some (S_OK, (), db\<lparr>exp_dict := (if success then t else TreeTable_assign fst (fst d, expire) t)\<rparr>) }
               else Some (S_OK, (), db) })"

definition ExpireAt :: "'c env \<Rightarrow> string \<Rightarrow> nat \<Rightarrow> 'c kvdb \<Rightarrow> (unit, 'c) result" where
  "ExpireAt E key expire = ExpireAtMs E key (expire * 1000 mod 2 ^ 64)"

definition ExpireAfterMs :: "'c env \<Rightarrow> string \<Rightarrow> nat \<Rightarrow> nat \<Rightarrow> 'c kvdb \<Rightarrow> (unit, 'c) result" where
  "ExpireAfterMs E key ms interval = ExpireAtMs E key ((ms + interval) mod 2 ^ 64)"

definition ExpireAfter :: "'c env \<Rightarrow> string \<Rightarrow> nat \<Rightarrow> nat \<Rightarrow> 'c kvdb \<Rightarrow> (unit, 'c) result" where
  "ExpireAfter E key ms interval = ExpireAtMs E key ((ms + interval * 1000) mod 2 ^ 64)"

definition Persist :: "'c env \<Rightarrow> string \<Rightarrow> 'c kvdb \<Rightarrow> (unit, 'c) result" where
  "Persist E key db = early (CHECK_SHARD_IS_LOCKED_KEY E key db) () (\<lambda>db.
     do { (kv, db) \<leftarrow> dict_Find E key db;
          if kv = None then Some (S_NONEXISTS, (), db)
          else do { db \<leftarrow> exp_Erase E key db; Some (S_OK, (), db) } })"

definition GetExpiration :: "'c env \<Rightarrow> string \<Rightarrow> 'c kvdb \<Rightarrow> (nat option, 'c) result" where
  "GetExpiration E key db =
     do { (r, db) \<leftarrow> exp_Find E key db;
          Some (case r of None \<Rightarrow> (S_NONEXISTS, None, db) | Some kv \<Rightarrow> (S_OK, Some (snd kv), db)) }"

definition GetTimeToLive :: "'c env \<Rightarrow> string \<Rightarrow> 'c kvdb \<Rightarrow> (nat option, 'c) result" where
  "GetTimeToLive E key db =
     do { (r, db) \<leftarrow> exp_Find E key db;
          Some (case r of
              None \<Rightarrow> (S_NONEXISTS, None, db)
            | Some kv \<Rightarrow> (S_OK, Some (if snd kv \<le> cur_ms E then 0 else snd kv - cur_ms E), db)) }"

section \<open>Shard commands\<close>

text \<open>
  \<^verbatim>\<open>RemoveShard\<close> walks the key set of the shard and deletes every key, which takes it out of the set \<^verbatim>\<open>Delete\<close>
  computes for it. When that is the set walked, the node under the iterator is freed and the walk goes on from
  freed memory.
\<close>

fun remove_keys :: "'c env \<Rightarrow> 64 word \<Rightarrow> addr list \<Rightarrow> 'c kvdb \<Rightarrow> 'c kvdb option" where
  "remove_keys E sid [] db = Some db"
| "remove_keys E sid (a # as) db =
     do { k \<leftarrow> key_at a db;
          (code, _, db) \<leftarrow> Delete E k db;
          assertion (code = S_OK \<longrightarrow> MakeShardId E k \<noteq> sid);
          remove_keys E sid as db }"

definition RemoveShard :: "'c env \<Rightarrow> 64 word \<Rightarrow> 'c kvdb \<Rightarrow> 'c kvdb option" where
  "RemoveShard E sid db =
     (if IsSharder (config E)
      then do { (r, db) \<leftarrow> sdict_Find E sid db;
                kv \<leftarrow> r;
                ks \<leftarrow> range_for_list (snd kv);
                db \<leftarrow> remove_keys E sid ks db;
                (_, s) \<leftarrow> TreeTable_Erase Comparator_uint64 (hash_shard E) fst sid (sdict db);
                Some (db\<lparr>sdict := s\<rparr>) }
      else Some db)"

datatype shard_code = SC_OK | SC_NO_SHARD | SC_NOT_SHARD_SERVER | SC_PUT_SHARD_OK

definition GetShardKeys :: "'c env \<Rightarrow> 64 word \<Rightarrow> 'c kvdb \<Rightarrow> (shard_code \<times> addr list \<times> 'c kvdb) option" where
  "GetShardKeys E sid db =
     (if \<not> IsSharder (config E) then Some (SC_NOT_SHARD_SERVER, [], db)
      else do { (r, db) \<leftarrow> sdict_Find E sid db;
                case r of
                  None \<Rightarrow> Some (SC_NO_SHARD, [], db)
                | Some kv \<Rightarrow> do { ks \<leftarrow> range_for_list (snd kv); Some (SC_OK, ks, db) } })"

fun distribute_loop :: "'c env \<Rightarrow> entry list \<Rightarrow> 'c kvdb \<Rightarrow> 'c kvdb option" where
  "distribute_loop E [] db = Some db"
| "distribute_loop E (e # es) db =
     do { let sid = MakeShardId E (ekey e);
          (ks, db) \<leftarrow> sdict_at E sid db;
          (_, ks) \<leftarrow> HashTable_Insert (hash_ptr E) id (eaddr e) ks;
          distribute_loop E es (db\<lparr>sdict := TreeTable_assign fst (sid, ks) (sdict db)\<rparr>) }"

definition DistributeKeysToShard :: "'c env \<Rightarrow> 'c kvdb \<Rightarrow> 'c kvdb option" where
  "DistributeKeysToShard E db =
     do { assertion (SupportDistribution (config E)); es \<leftarrow> range_for_tree (dict db); distribute_loop E es db }"

end
