(* ===== verification/Storage.thy ===== *)
theory Storage
  imports Messages Kvdb
begin

text \<open>
  The execution of requests (\<^verbatim>\<open>storage/db.cc\<close>): \<^verbatim>\<open>DatabaseInstance::Execute\<close>, cut at the groups of its \<^verbatim>\<open>switch\<close>, and
  the \<^verbatim>\<open>DatabaseManager\<close> that selects the instance of a key. A null response is \<open>None\<close>; dereferencing it, indexing
  past the values of a request and calling \<^verbatim>\<open>Execute\<close> on no instance give no result. The response is taken fresh, so
  its containers start empty.
\<close>

type_synonym 'c reply = "(response option \<times> 'c kvdb) option"

section \<open>Writing the response\<close>

definition SET_OK_VALUE :: "string \<Rightarrow> response \<Rightarrow> response" where
  "SET_OK_VALUE v r = (SetValue (SetCode S_OK r))\<lparr>rs_value := v\<rparr>"

definition SET_OK_COUNT :: "64 word \<Rightarrow> response \<Rightarrow> response" where
  "SET_OK_COUNT n r = (SetCount (SetCode S_OK r))\<lparr>rs_count := n\<rparr>"

definition SET_OK_COUNT' :: "response \<Rightarrow> response" where
  "SET_OK_COUNT' r = SetCount (SetCode S_OK r)"

definition SET_XX_ELSE_CODE :: "(response \<Rightarrow> response) \<Rightarrow> status_code \<Rightarrow> response \<Rightarrow> response" where
  "SET_XX_ELSE_CODE xx code r = (if code = S_OK then xx r else SetCode code r)"

definition CHECK_INVALID_REQUEST :: "bool \<Rightarrow> string \<Rightarrow> response option \<Rightarrow> 'c kvdb \<Rightarrow> 'c reply \<Rightarrow> 'c reply" where
  "CHECK_INVALID_REQUEST cond msg resp db rest = (case resp of
      Some r \<Rightarrow> if \<not> cond then Some (Some (SetValue (SetCode S_INVALID_REQUEST r\<lparr>rs_value := msg\<rparr>)), db) else rest
    | None \<Rightarrow> rest)"

text \<open>
  What is done with the result of a command: its status goes into the response if there is one, or the response is
  written with the status and the out parameter, if there is one or unconditionally.
\<close>

definition code_if :: "response option \<Rightarrow> ('r, 'c) result \<Rightarrow> 'c reply" where
  "code_if resp res = do { (code, _, db) \<leftarrow> res; Some (map_option (SetCode code) resp, db) }"

definition reply_if :: "response option \<Rightarrow> (status_code \<Rightarrow> 'r \<Rightarrow> response \<Rightarrow> response) \<Rightarrow> ('r, 'c) result \<Rightarrow> 'c reply" where
  "reply_if resp f res = do { (code, x, db) \<leftarrow> res; Some (map_option (f code x) resp, db) }"

definition reply_to :: "response option \<Rightarrow> (status_code \<Rightarrow> 'r \<Rightarrow> response \<Rightarrow> response) \<Rightarrow> ('r, 'c) result \<Rightarrow> 'c reply" where
  "reply_to resp f res = do { (code, x, db) \<leftarrow> res; r \<leftarrow> resp; Some (Some (f code x r), db) }"

definition count_reply :: "status_code \<Rightarrow> nat option \<Rightarrow> response \<Rightarrow> response" where
  "count_reply code n r = SET_XX_ELSE_CODE (SET_OK_COUNT (of_nat (the n))) code r"

definition values_reply :: "status_code \<Rightarrow> string list \<Rightarrow> response \<Rightarrow> response" where
  "values_reply code xs r = SET_XX_ELSE_CODE (\<lambda>r. SetValues (SetCode S_OK r)) code (r\<lparr>rs_values := xs\<rparr>)"

definition vmembers_reply :: "status_code \<Rightarrow> (real \<times> string) list \<Rightarrow> response \<Rightarrow> response" where
  "vmembers_reply code xs r = SET_XX_ELSE_CODE (\<lambda>r. SetVmembers (SetCode S_OK r)) code (r\<lparr>rs_vmembers := xs\<rparr>)"

definition kvs_reply :: "status_code \<Rightarrow> (string \<times> string) list \<Rightarrow> response \<Rightarrow> response" where
  "kvs_reply code xs r = SET_XX_ELSE_CODE (\<lambda>r. SetKvs (SetCode S_OK r)) code (r\<lparr>rs_kvs := xs\<rparr>)"

text \<open>The string behind the pointer of \<^verbatim>\<open>GetStr\<close>.\<close>

definition deref_str :: "(entry option, 'c) result \<Rightarrow> (string option, 'c) result" where
  "deref_str res = do { (code, p, db) \<leftarrow> res;
     if code = S_OK then do { e \<leftarrow> p; s \<leftarrow> to_str e; Some (code, Some s, db) } else Some (code, None, db) }"

section \<open>Execution\<close>

definition Execute_common :: "'c env \<Rightarrow> nat \<Rightarrow> command \<Rightarrow> request \<Rightarrow> response option \<Rightarrow> 'c kvdb \<Rightarrow> 'c reply" where
  "Execute_common E recv_time c rq resp db = (case c of
      EXPIRE_AT \<Rightarrow> CHECK_INVALID_REQUEST (HasKey rq \<and> HasExpireTime rq) ''expireat'' resp db
        (code_if resp (ExpireAt E (rq_key rq) (unat (rq_expire_time rq)) db))
    | EXPIRE_AFTER \<Rightarrow> CHECK_INVALID_REQUEST (HasKey rq \<and> HasExpireTime rq) ''expireafter'' resp db
        (code_if resp (ExpireAfter E (rq_key rq) recv_time (unat (rq_expire_time rq)) db))
    | EXPIREM_AT \<Rightarrow> CHECK_INVALID_REQUEST (HasKey rq \<and> HasExpireTime rq) ''expiremat'' resp db
        (code_if resp (ExpireAtMs E (rq_key rq) (unat (rq_expire_time rq)) db))
    | EXPIREM_AFTER \<Rightarrow> CHECK_INVALID_REQUEST (HasKey rq \<and> HasExpireTime rq) ''expiremafter'' resp db
        (code_if resp (ExpireAfterMs E (rq_key rq) recv_time (unat (rq_expire_time rq)) db))
    | PERSIST \<Rightarrow> CHECK_INVALID_REQUEST (HasKey rq) ''persist'' resp db (code_if resp (Persist E (rq_key rq) db))
    | EXPIRATION \<Rightarrow> CHECK_INVALID_REQUEST (HasKey rq) ''expiration'' resp db
        (reply_to resp (\<lambda>code n r. SetCode code (SetCount (case n of None \<Rightarrow> r | Some n \<Rightarrow> r\<lparr>rs_count := of_nat n\<rparr>)))
           (GetExpiration E (rq_key rq) db))
    | TTL \<Rightarrow> CHECK_INVALID_REQUEST (HasKey rq) ''TTL'' resp db
        (reply_to resp (\<lambda>code n r. SetCode code (SetCount (case n of None \<Rightarrow> r | Some n \<Rightarrow> r\<lparr>rs_count := of_nat n\<rparr>)))
           (GetTimeToLive E (rq_key rq) db))
    | TYPE_CMD \<Rightarrow> CHECK_INVALID_REQUEST (HasKey rq) ''type'' resp db
        (do { (ty, db) \<leftarrow> Type E (rq_key rq) db;
              r \<leftarrow> resp;
              Some (Some (case ty of Some t \<Rightarrow> SET_OK_VALUE (GetDataTypeString t) r | None \<Rightarrow> SetCode S_NONEXISTS r), db) })
    | DEL \<Rightarrow> CHECK_INVALID_REQUEST (HasKey rq) ''del'' resp db
        (do { (success, _, db) \<leftarrow> Delete E (rq_key rq) db;
              Some (map_option (SetCode (if code_num success \<noteq> 0 then S_OK else S_NONEXISTS)) resp, db) })
    | RENAME \<Rightarrow> CHECK_INVALID_REQUEST (HasKey rq \<and> HasValue rq) ''rename'' resp db
        (code_if resp (Rename E (rq_key rq) (rq_value rq) db))
    | _ \<Rightarrow> Some (resp, db))"

definition set_values :: "request \<Rightarrow> (string \<Rightarrow> string \<Rightarrow> string \<Rightarrow> ('r, 'c) result) \<Rightarrow> ('r, 'c) result" where
  "set_values rq f = do { assertion (3 \<le> length (rq_values rq)); f (rq_values rq ! 1) (rq_values rq ! 2) (rq_values rq ! 0) }"

definition Execute_set :: "'c env \<Rightarrow> nat \<Rightarrow> command \<Rightarrow> request \<Rightarrow> response option \<Rightarrow> 'c kvdb \<Rightarrow> 'c reply" where
  "Execute_set E recv_time c rq resp db = (case c of
      SADD \<Rightarrow> CHECK_INVALID_REQUEST (HasKey rq \<and> HasValues rq) ''sadd'' resp db
        (reply_if resp count_reply (SetAdd E (rq_key rq) (rq_values rq) db))
    | SDELM \<Rightarrow> CHECK_INVALID_REQUEST (HasKey rq \<and> HasValue rq) ''sdelm'' resp db
        (code_if resp (SetDelm E (rq_key rq) (rq_value rq) db))
    | SEXISTS \<Rightarrow> CHECK_INVALID_REQUEST (HasKey rq \<and> HasValue rq) ''sexists'' resp db
        (reply_to resp (\<lambda>code _. SetCode code) (SetExists E (rq_key rq) (rq_value rq) db))
    | SSIZE \<Rightarrow> CHECK_INVALID_REQUEST (HasKey rq) ''ssize'' resp db (reply_to resp count_reply (SetSize E (rq_key rq) db))
    | SALL \<Rightarrow> CHECK_INVALID_REQUEST (HasKey rq) ''sall'' resp db (reply_to resp values_reply (SetAll E (rq_key rq) db))
    | SAND \<Rightarrow> CHECK_INVALID_REQUEST (HasKey rq \<and> HasValue rq) ''sand'' resp db
        (reply_to resp values_reply (SetAnd E (rq_key rq) (rq_value rq) db))
    | SOR \<Rightarrow> CHECK_INVALID_REQUEST (HasKey rq \<and> HasValue rq) ''sor'' resp db
        (reply_to resp values_reply (SetOr E (rq_key rq) (rq_value rq) db))
    | SSUB \<Rightarrow> CHECK_INVALID_REQUEST (HasKey rq \<and> HasValue rq) ''ssub'' resp db
        (reply_to resp values_reply (SetSub E (rq_key rq) (rq_value rq) db))
    | SANDTO \<Rightarrow> CHECK_INVALID_REQUEST (HasValues rq) ''sandto'' resp db
        (code_if resp (set_values rq (\<lambda>k1 k2 dest. SetAndTo E k1 k2 dest db)))
    | SORTO \<Rightarrow> CHECK_INVALID_REQUEST (HasValues rq) ''sorto'' resp db
        (code_if resp (set_values rq (\<lambda>k1 k2 dest. SetOrTo E k1 k2 dest db)))
    | SSUBTO \<Rightarrow> CHECK_INVALID_REQUEST (HasValues rq) ''ssubto'' resp db
        (code_if resp (set_values rq (\<lambda>k1 k2 dest. SetSubTo E k1 k2 dest db)))
    | SANDSIZE \<Rightarrow> CHECK_INVALID_REQUEST (HasKey rq \<and> HasValue rq) ''sandsize'' resp db
        (reply_to resp count_reply (SetAndSize E (rq_key rq) (rq_value rq) db))
    | SORSIZE \<Rightarrow> CHECK_INVALID_REQUEST (HasKey rq \<and> HasValue rq) ''sorsize'' resp db
        (reply_to resp count_reply (SetOrSize E (rq_key rq) (rq_value rq) db))
    | SSUBSIZE \<Rightarrow> CHECK_INVALID_REQUEST (HasKey rq \<and> HasValue rq) ''ssubsize'' resp db
        (reply_to resp count_reply (SetSubSize E (rq_key rq) (rq_value rq) db))
    | SRANDDELM \<Rightarrow> CHECK_INVALID_REQUEST (HasKey rq) ''sranddelm'' resp db (code_if resp (SetRandDelm E (rq_key rq) db))
    | _ \<Rightarrow> Execute_common E recv_time c rq resp db)"

text \<open>
  \<^verbatim>\<open>case MGETS\<close> has no \<^verbatim>\<open>break\<close> and goes on with \<^verbatim>\<open>MSET\<close>. When \<^verbatim>\<open>MapGets\<close> found the key expired, the key of the request may
  have been moved away by then.
\<close>

definition map_set_case :: "'c env \<Rightarrow> string \<Rightarrow> request \<Rightarrow> response option \<Rightarrow> 'c kvdb \<Rightarrow> 'c reply" where
  "map_set_case E key rq resp db = CHECK_INVALID_REQUEST (HasKey rq \<and> HasValues rq) ''mset'' resp db
     (code_if resp (do { assertion (2 \<le> length (rq_values rq)); MapSet E key (rq_values rq ! 0) (rq_values rq ! 1) db }))"

definition Execute_map :: "'c env \<Rightarrow> nat \<Rightarrow> command \<Rightarrow> request \<Rightarrow> response option \<Rightarrow> 'c kvdb \<Rightarrow> 'c reply" where
  "Execute_map E recv_time c rq resp db = (case c of
      MADD \<Rightarrow> CHECK_INVALID_REQUEST (HasKey rq \<and> HasKvs rq) ''madd'' resp db
        (reply_if resp count_reply (MapAdd E (rq_key rq) (rq_kvs rq) db))
    | MGET \<Rightarrow> CHECK_INVALID_REQUEST (HasKey rq \<and> HasValue rq) ''mget'' resp db
        (reply_to resp (\<lambda>code v r. SET_XX_ELSE_CODE (\<lambda>r. SetValue (SetCode S_OK r)) code (case v of None \<Rightarrow> r | Some s \<Rightarrow> r\<lparr>rs_value := s\<rparr>))
           (MapGet E (rq_key rq) (rq_value rq) db))
    | MGETS \<Rightarrow> CHECK_INVALID_REQUEST (HasKey rq \<and> HasValues rq) ''mgets'' resp db
        (do { (x, _) \<leftarrow> CheckExpire E (rq_key rq) db;
              (resp, db) \<leftarrow> reply_to resp values_reply (MapGets E (rq_key rq) (rq_values rq) db);
              map_set_case E (key_after_expire E x (rq_key rq)) rq resp db })
    | MSET \<Rightarrow> map_set_case E (rq_key rq) rq resp db
    | MDEL \<Rightarrow> CHECK_INVALID_REQUEST (HasKey rq \<and> HasValue rq) ''mdel'' resp db
        (code_if resp (MapDel E (rq_key rq) (rq_value rq) db))
    | MALL \<Rightarrow> CHECK_INVALID_REQUEST (HasKey rq) ''mall'' resp db (reply_to resp kvs_reply (MapAll E (rq_key rq) db))
    | MFIELDS \<Rightarrow> CHECK_INVALID_REQUEST (HasKey rq) ''mfields'' resp db (reply_to resp values_reply (MapFields E (rq_key rq) db))
    | MVALUES \<Rightarrow> CHECK_INVALID_REQUEST (HasKey rq) ''mvalues'' resp db (reply_to resp values_reply (MapValues E (rq_key rq) db))
    | MSIZE \<Rightarrow> CHECK_INVALID_REQUEST (HasKey rq) ''msize'' resp db (reply_to resp count_reply (MapSize E (rq_key rq) db))
    | MEXISTS \<Rightarrow> CHECK_INVALID_REQUEST (HasKey rq \<and> HasValue rq) ''mexists'' resp db
        (reply_to resp (\<lambda>code _. SetCode code) (MapExists E (rq_key rq) (rq_value rq) db))
    | _ \<Rightarrow> Execute_set E recv_time c rq resp db)"

definition Execute_vset :: "conv \<Rightarrow> 'c env \<Rightarrow> nat \<Rightarrow> command \<Rightarrow> request \<Rightarrow> response option \<Rightarrow> 'c kvdb \<Rightarrow> 'c reply" where
  "Execute_vset cv E recv_time c rq resp db =
     (let left = sint (rq_range_left rq); right = sint (rq_range_right rq);
          wleft = int2double cv (rq_range_left rq); wright = int2double cv (rq_range_right rq) in
      case c of
      VADD \<Rightarrow> CHECK_INVALID_REQUEST (HasKey rq \<and> HasVmembers rq) ''vadd'' resp db
        (reply_if resp count_reply (VsetAdd E (rq_key rq) (rq_vmembers rq) db))
    | VALL \<Rightarrow> CHECK_INVALID_REQUEST (HasKey rq) ''vall'' resp db (reply_to resp vmembers_reply (VsetAll E (rq_key rq) db))
    | VDELM \<Rightarrow> CHECK_INVALID_REQUEST (HasKey rq) ''vdelm'' resp db (code_if resp (VsetDel E (rq_key rq) (rq_value rq) db))
    | VDELMRANGE \<Rightarrow> CHECK_INVALID_REQUEST (HasKey rq \<and> HasRange rq) ''vdelmrange'' resp db
        (reply_if resp count_reply (VsetDelRange E (rq_key rq) left right db))
    | VDELMRANGEBYWEIGHT \<Rightarrow> CHECK_INVALID_REQUEST (HasKey rq \<and> HasRange rq) ''vdelmrangebyweight'' resp db
        (reply_if resp count_reply (VsetDelRangeByWeight E (rq_key rq) wleft wright db))
    | VSIZE \<Rightarrow> CHECK_INVALID_REQUEST (HasKey rq) ''vsize'' resp db (reply_to resp count_reply (VsetSize E (rq_key rq) db))
    | VSIZEBYWEIGHT \<Rightarrow> CHECK_INVALID_REQUEST (HasKey rq \<and> HasRange rq) ''vsizebyweight'' resp db
        (reply_to resp count_reply (VsetSizeByWeight E (rq_key rq) wleft wright db))
    | VWEIGHT \<Rightarrow> CHECK_INVALID_REQUEST (HasKey rq \<and> HasValue rq) ''vweight'' resp db
        (reply_to resp (\<lambda>code w. SET_XX_ELSE_CODE (SET_OK_COUNT (double2u64 cv (the w))) code) (VsetWeight E (rq_key rq) (rq_value rq) db))
    | VORDER \<Rightarrow> CHECK_INVALID_REQUEST (HasKey rq \<and> HasValue rq) ''vorder'' resp db
        (reply_to resp count_reply (VsetOrder E (rq_key rq) (rq_value rq) db))
    | VRORDER \<Rightarrow> CHECK_INVALID_REQUEST (HasKey rq \<and> HasValue rq) ''vrorder'' resp db
        (reply_to resp count_reply (VsetROrder E (rq_key rq) (rq_value rq) db))
    | VRANGE \<Rightarrow> CHECK_INVALID_REQUEST (HasKey rq \<and> HasRange rq) ''vrange'' resp db
        (reply_to resp vmembers_reply (VsetRange E (rq_key rq) left right db))
    | VRRANGE \<Rightarrow> CHECK_INVALID_REQUEST (HasKey rq \<and> HasRange rq) ''vrrange'' resp db
        (reply_to resp vmembers_reply (VsetRRange E (rq_key rq) left right db))
    | VRANGEBYWEIGHT \<Rightarrow> CHECK_INVALID_REQUEST (HasKey rq \<and> HasRange rq) ''vrangebyweight'' resp db
        (reply_to resp vmembers_reply (VsetRangeByWeight E (rq_key rq) wleft wright db))
    | VRRANGEBYWEIGHT \<Rightarrow> CHECK_INVALID_REQUEST (HasKey rq \<and> HasRange rq) ''vrrangebyweight'' resp db
        (reply_to resp vmembers_reply (VsetRRangeByWeight E (rq_key rq) wleft wright db))
    | _ \<Rightarrow> Execute_map E recv_time c rq resp db)"

definition Execute_list :: "conv \<Rightarrow> 'c env \<Rightarrow> nat \<Rightarrow> command \<Rightarrow> request \<Rightarrow> response option \<Rightarrow> 'c kvdb \<Rightarrow> 'c reply" where
  "Execute_list cv E recv_time c rq resp db = (case c of
      LADD \<Rightarrow> CHECK_INVALID_REQUEST (HasKey rq \<and> HasValues rq) ''ladd'' resp db
        (code_if resp (ListAdd E (rq_key rq) (rq_values rq) db))
    | LAPPEND \<Rightarrow> CHECK_INVALID_REQUEST (HasKey rq \<and> HasValues rq) ''lappend/lprepend'' resp db
        (code_if resp (ListAppend E (rq_key rq) (rq_values rq) db))
    | LPREPEND \<Rightarrow> CHECK_INVALID_REQUEST (HasKey rq \<and> HasValues rq) ''lappend/lprepend'' resp db
        (code_if resp (ListPrepend E (rq_key rq) (rq_values rq) db))
    | LPOPFRONT \<Rightarrow> CHECK_INVALID_REQUEST (HasKey rq \<and> HasCount rq) ''lpopback/popfront'' resp db
        (reply_if resp (\<lambda>code _. SET_XX_ELSE_CODE SET_OK_COUNT' code) (ListPopFront E (rq_key rq) (unat (rq_count rq)) db))
    | LPOPBACK \<Rightarrow> CHECK_INVALID_REQUEST (HasKey rq \<and> HasCount rq) ''lpopback/popfront'' resp db
        (reply_if resp (\<lambda>code _. SET_XX_ELSE_CODE SET_OK_COUNT' code) (ListPopBack E (rq_key rq) (unat (rq_count rq)) db))
    | LGETSIZE \<Rightarrow> CHECK_INVALID_REQUEST (HasKey rq) ''lgetsize'' resp db (reply_to resp count_reply (ListGetSize E (rq_key rq) db))
    | LGETRANGE \<Rightarrow> CHECK_INVALID_REQUEST (HasRange rq) ''lgetrange'' resp db
        (reply_to resp values_reply (ListGetRange E (rq_key rq) (sint (rq_range_left rq)) (sint (rq_range_right rq)) db))
    | LGETALL \<Rightarrow> CHECK_INVALID_REQUEST (HasKey rq) ''lgetrange/getall'' resp db
        (reply_to resp values_reply (ListGetAll E (rq_key rq) db))
    | LDEL \<Rightarrow> CHECK_INVALID_REQUEST (HasKey rq) ''ldel'' resp db (code_if resp (ListDel E (rq_key rq) db))
    | _ \<Rightarrow> Execute_vset cv E recv_time c rq resp db)"

definition Execute_cmd :: "conv \<Rightarrow> 'c env \<Rightarrow> nat \<Rightarrow> command \<Rightarrow> request \<Rightarrow> response option \<Rightarrow> 'c kvdb \<Rightarrow> 'c reply" where
  "Execute_cmd cv E recv_time c rq resp db = (case c of
      STR_ADD \<Rightarrow> CHECK_INVALID_REQUEST (HasKey rq \<and> HasValue rq) ''stradd'' resp db
        (code_if resp (InsertStr E (rq_key rq) (rq_value rq) db))
    | STR_GET \<Rightarrow> CHECK_INVALID_REQUEST (HasKey rq) ''strget'' resp db
        (reply_to resp (\<lambda>code s. SET_XX_ELSE_CODE (SET_OK_VALUE (the s)) code) (deref_str (GetStr E (rq_key rq) db)))
    | STR_DEL \<Rightarrow> CHECK_INVALID_REQUEST (HasKey rq) ''strdel'' resp db (code_if resp (EraseStr E (rq_key rq) db))
    | STR_SET \<Rightarrow> CHECK_INVALID_REQUEST (HasKey rq \<and> HasValue rq) ''strset'' resp db
        (code_if resp (SetStr E (rq_key rq) (rq_value rq) db))
    | STRLEN \<Rightarrow> CHECK_INVALID_REQUEST (HasKey rq) ''strlen'' resp db
        (reply_to resp (\<lambda>code s. SET_XX_ELSE_CODE (SET_OK_COUNT (of_nat (length (the s)))) code) (deref_str (GetStr E (rq_key rq) db)))
    | STRAPPEND \<Rightarrow> CHECK_INVALID_REQUEST (HasKey rq \<and> HasValue rq) ''strappend'' resp db
        (code_if resp (StrAppend E (rq_key rq) (rq_value rq) db))
    | STRPOPBACK \<Rightarrow> CHECK_INVALID_REQUEST (HasKey rq \<and> HasCount rq) ''strpopback'' resp db
        (code_if resp (StrPopBack E (rq_key rq) (unat (rq_count rq)) db))
    | _ \<Rightarrow> Execute_list cv E recv_time c rq resp db)"

text \<open>\<^verbatim>\<open>DatabaseInstance::Execute\<close>: other commands, and numbers that are none, do nothing.\<close>

definition Execute :: "conv \<Rightarrow> 'c env \<Rightarrow> nat \<Rightarrow> request \<Rightarrow> response option \<Rightarrow> 'c kvdb \<Rightarrow> 'c reply" where
  "Execute cv E recv_time rq resp db = (case command_of (rq_command rq) of
      None \<Rightarrow> Some (resp, db)
    | Some c \<Rightarrow> Execute_cmd cv E recv_time c rq resp db)"

section \<open>The manager\<close>

fun round_loop :: "nat \<Rightarrow> 64 word \<Rightarrow> 64 word \<Rightarrow> 64 word" where
  "round_loop 0 src ret = ret"
| "round_loop (Suc i) src ret = (if ret < src then round_loop i src (push_bit 1 ret) else ret)"

definition RoundUpTo2Power :: "64 word \<Rightarrow> 64 word" where
  "RoundUpTo2Power src = round_loop 31 src 1"

fun is2_loop :: "nat \<Rightarrow> 64 word \<Rightarrow> 64 word \<Rightarrow> bool" where
  "is2_loop 0 src single_one = False"
| "is2_loop (Suc i) src single_one = (if src XOR single_one = 0 then True else is2_loop i src (push_bit 1 single_one))"

definition Is2Power :: "64 word \<Rightarrow> bool" where
  "Is2Power src = is2_loop 31 src 1"

datatype manager_type = LOCAL | LOCAL_MULTI_THREAD | DISTRIBUTED

record 'c manager =
  type_of :: manager_type
  instances :: "'c kvdb list"
  recv_time :: nat
  current_index :: nat

text \<open>The constructor leaves \<^verbatim>\<open>recv_time_\<close> unset; \<open>t\<close> is what the memory holds.\<close>

definition DatabaseManager_new :: "(replace_policy \<Rightarrow> 'c) \<Rightarrow> nat \<Rightarrow> mmkv_config \<Rightarrow> 'c manager option" where
  "DatabaseManager_new new_cache t cf =
     do { let ty = (if SupportDistribution cf then DISTRIBUTED else if thread_num cf = 1 then LOCAL else LOCAL_MULTI_THREAD);
          let db_num = (case ty of LOCAL_MULTI_THREAD \<Rightarrow> RoundUpTo2Power (word_of_int (thread_num cf)) | _ \<Rightarrow> 1);
          assertion (Is2Power db_num);
          Some \<lparr>type_of = ty, instances = replicate (unat db_num) (MmkvDb_new new_cache cf), recv_time = t, current_index = 0\<rparr> }"

definition SetRecvTime :: "nat \<Rightarrow> 'c manager \<Rightarrow> 'c manager" where
  "SetRecvTime tm m = m\<lparr>recv_time := tm\<rparr>"

text \<open>
  The instance of a key; \<open>XXH32\<close> is the hash of the library, with seed 0. The number of instances is below \<open>2 ^ 64\<close>.
\<close>

definition GetDatabaseInstanceIndex :: "(string \<Rightarrow> 32 word) \<Rightarrow> string \<Rightarrow> 'c manager \<Rightarrow> nat" where
  "GetDatabaseInstanceIndex XXH32 key m =
     (if length (instances m) = 1 then 0
      else unat ((ucast (XXH32 key) :: 64 word) AND (of_nat (length (instances m)) - 1)))"

definition GetDatabaseInstanceIndex2 :: "64 word \<Rightarrow> 'c manager \<Rightarrow> nat" where
  "GetDatabaseInstanceIndex2 shard_id m =
     (if length (instances m) = 1 then 0 else unat (shard_id AND (of_nat (length (instances m)) - 1)))"

text \<open>An operation on one instance; an index past the array has no result.\<close>

definition on_instance :: "nat \<Rightarrow> ('c kvdb \<Rightarrow> ('r \<times> 'c kvdb) option) \<Rightarrow> 'c manager \<Rightarrow> ('r \<times> 'c manager) option" where
  "on_instance i f m =
     do { assertion (i < length (instances m));
          (r, db) \<leftarrow> f (instances m ! i);
          Some (r, m\<lparr>instances := (instances m)[i := db]\<rparr>) }"

definition CheckExpirationCycle :: "'c env \<Rightarrow> 'c manager \<Rightarrow> 'c manager option" where
  "CheckExpirationCycle E m =
     do { (_, m) \<leftarrow> on_instance (current_index m)
            (\<lambda>db. if used (table1 (dict db)) \<noteq> 0 then map_option (Pair ()) (CheckExpireCycle E db) else Some ((), db)) m;
          let i = current_index m + 1;
          Some (m\<lparr>current_index := (if i = length (instances m) then 0 else i)\<rparr>) }"

fun key_loop :: "'c kvdb list \<Rightarrow> string list \<Rightarrow> string list option" where
  "key_loop [] keys = Some keys"
| "key_loop (db # dbs) keys = do { ks \<leftarrow> GetAllKeys db; key_loop dbs (keys @ ks) }"

fun dels_loop :: "'c env \<Rightarrow> (string \<Rightarrow> 32 word) \<Rightarrow> string list \<Rightarrow> nat \<Rightarrow> 'c manager \<Rightarrow> (nat \<times> 'c manager) option" where
  "dels_loop E XXH32 [] n m = Some (n, m)"
| "dels_loop E XXH32 (key # keys) n m =
     do { (code, m) \<leftarrow> on_instance (GetDatabaseInstanceIndex XXH32 key m)
            (\<lambda>db. do { (code, _, db) \<leftarrow> Delete E key db; Some (code, db) }) m;
          dels_loop E XXH32 keys (n + (if code_num code \<noteq> 0 then 1 else 0)) m }"

fun delall_loop :: "'c env \<Rightarrow> 'c kvdb list \<Rightarrow> nat \<Rightarrow> (nat \<times> 'c kvdb list) option" where
  "delall_loop E [] n = Some (n, [])"
| "delall_loop E (db # dbs) n =
     do { (code, cnt, db) \<leftarrow> DeleteAll E db;
          if code = S_SHARD_LOCKED then Some (n, db # dbs)
          else do { (n, dbs) \<leftarrow> delall_loop E dbs (n + cnt); Some (n, db # dbs) } }"

text \<open>
  \<^verbatim>\<open>DatabaseManager::Execute\<close>; the locks order concurrent requests and are left out. \<open>memory_stat\<close> is the text of
  \<^verbatim>\<open>GetMemoryStat()\<close>.
\<close>

definition Manager_Execute :: "conv \<Rightarrow> 'c env \<Rightarrow> (string \<Rightarrow> 32 word) \<Rightarrow> string \<Rightarrow> request \<Rightarrow> response option \<Rightarrow> 'c manager
    \<Rightarrow> (response option \<times> 'c manager) option" where
  "Manager_Execute cv E XXH32 memory_stat rq resp m =
     do { assertion (HasKey rq \<longrightarrow> GetCommandType (rq_command rq) \<noteq> CT_INVALID);
          let instance_idx = (if \<not> HasKey rq then None
             else Some (if type_of m = DISTRIBUTED then GetDatabaseInstanceIndex2 (MakeShardId E (rq_key rq)) m
                        else GetDatabaseInstanceIndex XXH32 (rq_key rq) m));
          let dispatch = do { i \<leftarrow> instance_idx; on_instance i (Execute cv E (recv_time m) rq resp) m };
          case command_of (rq_command rq) of
            None \<Rightarrow> dispatch
          | Some c \<Rightarrow>
             if c = MEM_STAT then
               (case resp of
                  None \<Rightarrow> None
                | Some r \<Rightarrow> Some (Some (if HasNone rq then SET_OK_VALUE memory_stat r
                                       else SetValue (SetCode S_INVALID_REQUEST r\<lparr>rs_value := ''memorystat''\<rparr>)), m))
             else if c = KEYALL then
               do { r \<leftarrow> resp; ks \<leftarrow> key_loop (instances m) (rs_values r); Some (Some (SetCode S_OK (SetValues (r\<lparr>rs_values := ks\<rparr>))), m) }
             else if c = DELS then
               do { (n, m) \<leftarrow> dels_loop E XXH32 (rq_values rq) 0 m; Some (map_option (SET_OK_COUNT (of_nat n)) resp, m) }
             else if c = DELALL then
               do { (n, dbs) \<leftarrow> delall_loop E (instances m) 0; Some (map_option (SET_OK_COUNT (of_nat n)) resp, m\<lparr>instances := dbs\<rparr>) }
             else dispatch }"

end
