(* ===== verification/Server.thy ===== *)
theory Server
  imports Protocol Storage
begin

text \<open>
  The server around the database: the request log (\<^verbatim>\<open>disk/request_log.h\<close>), recovery from it (\<^verbatim>\<open>disk/recover.cc\<close>), and the
  handling of a received message (\<^verbatim>\<open>server/mmkv_server.cc\<close>).
\<close>

section \<open>The request log\<close>

definition BUFFER_SIZE :: nat where "BUFFER_SIZE = 2 ^ 16"

text \<open>The blocks not yet written, and what the background thread has written to the file.\<close>

record request_log =
  cur_blk :: string
  blks :: "string list"
  log_file :: string

definition RequestLog_new :: request_log where
  "RequestLog_new = \<lparr>cur_blk = [], blks = [], log_file = []\<rparr>"

text \<open>A fixed buffer holds \<open>BUFFER_SIZE\<close> bytes; appending more than fits has no result.\<close>

definition RequestLog_Append :: "string \<Rightarrow> request_log \<Rightarrow> request_log option" where
  "RequestLog_Append data lg =
     (let avali = BUFFER_SIZE - length (cur_blk lg) in
      if length data \<le> avali then Some (lg\<lparr>cur_blk := cur_blk lg @ data\<rparr>)
      else do { assertion (length data - avali \<le> BUFFER_SIZE);
                Some (lg\<lparr>blks := blks lg @ [cur_blk lg @ take avali data], cur_blk := drop avali data\<rparr>) })"

text \<open>One round of the background thread.\<close>

definition RequestLog_round :: "request_log \<Rightarrow> request_log" where
  "RequestLog_round lg = \<lparr>cur_blk = [], blks = [], log_file = log_file lg @ concat (blks lg @ [cur_blk lg])\<rparr>"

definition RequestLog_AppendDel :: "wire \<Rightarrow> conv \<Rightarrow> string \<Rightarrow> request_log \<Rightarrow> request_log option" where
  "RequestLog_AppendDel K cv key lg =
     (let rq = (MmbpRequest_new 0 0 0)\<lparr>rq_has_bits := 1, rq_key := key, rq_command := command_num DEL\<rparr>;
          buffer = Request_SerializeTo K cv rq in
      RequestLog_Append (append32 K (of_nat (length buffer)) @ buffer) lg)"

section \<open>Logging a request\<close>

text \<open>
  \<^verbatim>\<open>LogRequestToFile\<close>: the command is taken from the first two bytes, the expiration time from the last eight. Requests with
  a relative or coarse expiration time are rewritten in the buffer.
\<close>

definition overwrite :: "nat \<Rightarrow> string \<Rightarrow> string \<Rightarrow> string" where
  "overwrite i new b = take i b @ new @ drop (i + length new) b"

definition LogRequestToFile :: "wire \<Rightarrow> mmkv_config \<Rightarrow> nat \<Rightarrow> string \<Rightarrow> nat \<Rightarrow> request_log \<Rightarrow> (string \<times> request_log) option" where
  "LogRequestToFile K cf rt b request_len lg =
     (if IsExpirationDisable cf then Some (b, lg)
      else do { assertion (2 \<le> length b);
        let cmd = host16 K (take 2 b);
        if GetCommandType cmd \<noteq> CT_WRITE then Some (b, lg)
        else do {
          lg \<leftarrow> RequestLog_Append (append32 K (of_nat request_len)) lg;
          assertion (8 \<le> length b);
          let expire_log = (\<lambda>f. do { assertion (8 \<le> request_len);
                let exp = f (host64 K (take 8 (drop (request_len - 8) b)));
                Some (overwrite (request_len - 8) (append64 K exp) (overwrite 0 (append16 K (command_num EXPIREM_AT)) b)) });
          b \<leftarrow> (case command_of cmd of
                 Some EXPIRE_AT \<Rightarrow> expire_log (\<lambda>exp. 1000 * exp)
               | Some EXPIRE_AFTER \<Rightarrow> expire_log (\<lambda>exp. 1000 * exp + of_nat rt)
               | Some EXPIREM_AFTER \<Rightarrow> expire_log (\<lambda>exp. exp + of_nat rt)
               | _ \<Rightarrow> Some b);
          lg \<leftarrow> RequestLog_Append (take request_len b) lg;
          Some (b, lg) } })"

section \<open>Messages\<close>

text \<open>
  The client of the shard controller: its state, and whether it is connected. \<open>sv_endpoint\<close> is the address of the controller
  in the configuration, the one setting that a message changes.
\<close>

datatype ctler_state = IDLE | JOINING | LEAVING | JOIN_PUSHING

record 'c server =
  sv_manager :: "'c manager"
  sv_log :: request_log
  sv_sent :: "string list"
  sv_ctler :: "(ctler_state \<times> bool) option"
  sv_endpoint :: string

definition sv_env :: "'c env \<Rightarrow> 'c server \<Rightarrow> 'c env" where
  "sv_env E sv = E\<lparr>config := (config E)\<lparr>shard_controller_endpoint := sv_endpoint sv\<rparr>\<rparr>"

definition c_str :: "string \<Rightarrow> string" where
  "c_str s = takeWhile (\<lambda>c. c \<noteq> CHR 0x00) s"

text \<open>\<open>to_ip_port\<close> is what \<^verbatim>\<open>InetAddr\<close> makes of a host and a port.\<close>

definition shard_join :: "(string \<Rightarrow> 16 word \<Rightarrow> string) \<Rightarrow> request \<Rightarrow> response \<Rightarrow> 'c server \<Rightarrow> response \<times> 'c server" where
  "shard_join to_ip_port rq r sv =
     (if \<not> HasKey rq \<or> \<not> HasCount rq then (SetCode S_INVALID_REQUEST r, sv)
      else case sv_ctler sv of
        Some (st, _) \<Rightarrow> if st \<noteq> IDLE then (SetCode S_SHARD_PROCESSING r, sv)
          else (r, sv\<lparr>sv_endpoint := to_ip_port (c_str (rq_key rq)) (ucast (rq_count rq)), sv_ctler := Some (IDLE, False)\<rparr>)
      | None \<Rightarrow> (r, sv\<lparr>sv_endpoint := to_ip_port (c_str (rq_key rq)) (ucast (rq_count rq)), sv_ctler := Some (IDLE, False)\<rparr>))"

text \<open>\<^verbatim>\<open>Leave\<close> first waits for a connection; without one it does not return.\<close>

definition shard_leave :: "response \<Rightarrow> 'c server \<Rightarrow> (response \<times> 'c server) option" where
  "shard_leave r sv = (case sv_ctler sv of
      None \<Rightarrow> Some (r, sv)
    | Some (_, conn) \<Rightarrow> do { assertion conn; Some (r, sv\<lparr>sv_ctler := Some (LEAVING, conn)\<rparr>) })"

text \<open>The message callback. \<open>mem\<close> is what the uninitialised fields of the messages hold.\<close>

definition message_callback :: "wire \<Rightarrow> conv \<Rightarrow> 'c env \<Rightarrow> (string \<Rightarrow> 32 word) \<Rightarrow> string \<Rightarrow> (string \<Rightarrow> 16 word \<Rightarrow> string) \<Rightarrow> 64 word \<Rightarrow> nat \<Rightarrow> string \<Rightarrow> nat
    \<Rightarrow> 'c server \<Rightarrow> ('c server \<times> string) option" where
  "message_callback K cv E XXH32 memory_stat to_ip_port mem rt b request_len sv =
     do { let E = sv_env E sv;
          let m = SetRecvTime rt (sv_manager sv);
          (b, lg) \<leftarrow> (if log_method (config E) = LM_REQUEST then LogRequestToFile K (config E) rt b request_len (sv_log sv)
                      else Some (b, sv_log sv));
          (rq, b) \<leftarrow> Request_ParseFrom K cv (MmbpRequest_new mem mem mem) b;
          let sv = sv\<lparr>sv_manager := m, sv_log := lg\<rparr>;
          let response = MmbpResponse_new mem;
          (response, sv) \<leftarrow>
            (if command_of (rq_command rq) = Some SHARD_JOIN then Some (shard_join to_ip_port rq response sv)
             else if command_of (rq_command rq) = Some SHARD_LEAVE then shard_leave response sv
             else do { (resp, m) \<leftarrow> Manager_Execute cv E XXH32 memory_stat rq (Some response) m;
                       r \<leftarrow> resp;
                       Some (r, sv\<lparr>sv_manager := m\<rparr>) });
          Some (sv\<lparr>sv_sent := sv_sent sv @ [Codec_SerializeTo K XXH32 (Response_SerializeTo K cv response)]\<rparr>, b) }"

section \<open>Recovery\<close>

text \<open>
  The inner loop of \<^verbatim>\<open>Recover::ParseFromRequest\<close>, on the bytes in the buffer. One request object is used for all entries;
  \<open>left rq\<close> is what the execution of \<open>rq\<close> leaves of it, its arguments being moved from. When an entry is not complete, its
  size has already been taken off the buffer.
\<close>

function replay :: "wire \<Rightarrow> conv \<Rightarrow> 'c env \<Rightarrow> (string \<Rightarrow> 32 word) \<Rightarrow> string \<Rightarrow> (request \<Rightarrow> request) \<Rightarrow> request \<Rightarrow> string \<Rightarrow> 'c manager
    \<Rightarrow> (request \<times> string \<times> 'c manager) option" where
  "replay K cv E XXH32 memory_stat left rq b m =
     (if length b < 4 then Some (rq, b, m)
      else let size = unat (host32 K (take 4 b)); b' = drop 4 b in
        if size < 4 \<or> length b' < size - 4 then Some (rq, b', m)
        else case Request_ParseFrom K cv rq b' of
            None \<Rightarrow> None
          | Some (rq', b'') \<Rightarrow>
              do { (_, m) \<leftarrow> Manager_Execute cv E XXH32 memory_stat rq' None m;
                   assertion (GetCommandType (rq_command rq') = CT_WRITE);
                   replay K cv E XXH32 memory_stat left (left rq') b'' m })"
  by pat_completeness auto
termination
  by (relation "measure (\<lambda>(K, cv, E, XXH32, memory_stat, left, rq, b, m). length b)") (auto dest!: Request_ParseFrom_length)

declare replay.simps [simp del]

text \<open>The outer loop, on what the reads of the file return; a read that fails ends the list.\<close>

fun ParseFromRequest :: "wire \<Rightarrow> conv \<Rightarrow> 'c env \<Rightarrow> (string \<Rightarrow> 32 word) \<Rightarrow> string \<Rightarrow> (request \<Rightarrow> request) \<Rightarrow> request \<Rightarrow> string \<Rightarrow> string list
    \<Rightarrow> 'c manager \<Rightarrow> 'c manager option" where
  "ParseFromRequest K cv E XXH32 memory_stat left rq b [] m = Some m"
| "ParseFromRequest K cv E XXH32 memory_stat left rq b (piece # pieces) m =
     do { (rq, b, m) \<leftarrow> replay K cv E XXH32 memory_stat left rq (b @ piece) m;
          if length piece < BUFFER_SIZE then Some m
          else ParseFromRequest K cv E XXH32 memory_stat left rq b pieces m }"

end
