(* ===== verification/ProtocolProps.thy ===== *)
theory ProtocolProps
  imports Protocol
begin

text \<open>
  Messages arrive as they were sent: round trips of requests and responses, the raw parser of requests, and the delivery
  of frames however the stream is cut into pieces.
\<close>

section \<open>Requests\<close>

lemmas has_defs = HasKey_def HasValue_def HasExpireTime_def HasValues_def HasKvs_def HasCount_def HasRange_def HasVmembers_def

definition sends_range :: "request \<Rightarrow> bool" where
  "sends_range rq \<longleftrightarrow> \<not> HasValue rq \<and> \<not> HasValues rq \<and> \<not> HasKvs rq \<and> \<not> HasCount rq \<and> HasRange rq"

text \<open>The sizes of what a request sends fit the widths they are written with.\<close>

definition fits :: "conv \<Rightarrow> request \<Rightarrow> bool" where
  "fits cv rq \<longleftrightarrow> (HasKey rq \<longrightarrow> length (rq_key rq) < 2 ^ 16)
     \<and> (if HasValue rq then length (rq_value rq) < 2 ^ 32
        else if HasValues rq then length (rq_values rq) < 2 ^ 32 \<and> (\<forall>v \<in> set (rq_values rq). length v < 2 ^ 32)
        else if HasKvs rq then length (rq_kvs rq) < 2 ^ 32 \<and> (\<forall>(k, v) \<in> set (rq_kvs rq). length k < 2 ^ 16 \<and> length v < 2 ^ 32)
        else HasCount rq \<or> HasRange rq \<or> (HasVmembers rq \<longrightarrow> length (rq_vmembers rq) < 2 ^ 32 \<and> (\<forall>(w, v) \<in> set (rq_vmembers rq). is_double cv w \<and> length v < 2 ^ 32)))"

text \<open>
  The request \<open>m\<close> after it received what \<open>rq\<close> sends: the first of the fields that are present, with \<open>l\<close> and \<open>r\<close> for the
  bounds of a range.
\<close>

definition received_payload :: "64 word \<Rightarrow> 64 word \<Rightarrow> request \<Rightarrow> request \<Rightarrow> request" where
  "received_payload l r rq m =
     (if HasValue rq then m\<lparr>rq_value := rq_value rq\<rparr>
      else if HasValues rq then m\<lparr>rq_values := rq_values rq\<rparr>
      else if HasKvs rq then m\<lparr>rq_kvs := rq_kvs rq\<rparr>
      else if HasCount rq then set_rq_count (rq_count rq) m
      else if HasRange rq then m\<lparr>rq_range_left := l, rq_range_right := r\<rparr>
      else if HasVmembers rq then m\<lparr>rq_vmembers := rq_vmembers rq\<rparr>
      else m)"

definition received :: "64 word \<Rightarrow> 64 word \<Rightarrow> request \<Rightarrow> request \<Rightarrow> request" where
  "received l r rq m =
     (let m = m\<lparr>rq_command := rq_command rq, rq_has_bits := rq_has_bits rq\<rparr>;
          m = (if HasKey rq then m\<lparr>rq_key := rq_key rq\<rparr> else m);
          m = received_payload l r rq m in
      if HasExpireTime rq then m\<lparr>rq_expire_time := rq_expire_time rq\<rparr> else m)"

text \<open>An unsigned integer \<open>w\<close> is read as the signed one \<open>v\<close>.\<close>

definition reads_as :: "wire \<Rightarrow> 64 word \<Rightarrow> 64 word \<Rightarrow> bool" where
  "reads_as K w v = (\<forall>s. decode64s K (encode64 K w @ s) = KVARINT_OK (length (encode64 K w)) v)"

definition empty_containers :: "request \<Rightarrow> bool" where
  "empty_containers m \<longleftrightarrow> rq_values m = [] \<and> rq_kvs m = [] \<and> rq_vmembers m = []"

lemma has_bits_cong:
  assumes "rq_has_bits a = rq_has_bits b"
  shows "HasKey a = HasKey b" "HasValue a = HasValue b" "HasExpireTime a = HasExpireTime b" "HasValues a = HasValues b" "HasKvs a = HasKvs b"
    "HasCount a = HasCount b" "HasRange a = HasRange b" "HasVmembers a = HasVmembers b"
  using assms by (simp_all add: has_defs)

lemma set_rq_count_simps [simp]:
  "rq_has_bits (set_rq_count n rq) = rq_has_bits rq" "rq_command (set_rq_count n rq) = rq_command rq"
  by (simp_all add: set_rq_count_def)

text \<open>The bytes of the payload, and reading them.\<close>

definition payload_bytes :: "wire \<Rightarrow> conv \<Rightarrow> request \<Rightarrow> string" where
  "payload_bytes K cv rq =
     (if HasValue rq then SerializeStr K False (rq_value rq)
      else if HasValues rq then SerializeValues K (rq_values rq)
      else if HasKvs rq then SerializeKvs K (rq_kvs rq)
      else if HasCount rq then encode32 K (rq_count rq)
      else if HasRange rq then encode64 K (rq_range_left rq) @ encode64 K (rq_range_right rq)
      else if HasVmembers rq then SerializeVmembers K cv (rq_vmembers rq)
      else [])"

lemma ParseUnsigned_reads_as: "reads_as K w v \<Longrightarrow> ParseUnsigned (decode64s K) (encode64 K w @ s) = Some (v, s)"
  by (simp add: ParseUnsigned_def reads_as_def)

lemma request_payload_ok:
  assumes "wire_ok K" "fits cv rq" "empty_containers m" "rq_has_bits m = rq_has_bits rq"
    "sends_range rq \<Longrightarrow> reads_as K (rq_range_left rq) l \<and> reads_as K (rq_range_right rq) r"
  shows "request_payload K cv m (payload_bytes K cv rq @ s) = Some (received_payload l r rq m, s)"
proof -
  note h = has_bits_cong [OF assms(4)]
  consider "HasValue rq" | "\<not> HasValue rq" "HasValues rq" | "\<not> HasValue rq" "\<not> HasValues rq" "HasKvs rq"
    | "\<not> HasValue rq" "\<not> HasValues rq" "\<not> HasKvs rq" "HasCount rq" | "sends_range rq"
    | "\<not> HasValue rq" "\<not> HasValues rq" "\<not> HasKvs rq" "\<not> HasCount rq" "\<not> HasRange rq" "HasVmembers rq"
    | "\<not> HasValue rq" "\<not> HasValues rq" "\<not> HasKvs rq" "\<not> HasCount rq" "\<not> HasRange rq" "\<not> HasVmembers rq"
    by (auto simp: sends_range_def)
  then show ?thesis
  proof cases
    case 5
    then have "ParseUnsigned (decode64s K) (encode64 K (rq_range_left rq) @ t) = Some (l, t)"
        "ParseUnsigned (decode64s K) (encode64 K (rq_range_right rq) @ t) = Some (r, t)" for t
      using assms(5) by (simp_all add: ParseUnsigned_reads_as)
    with 5 show ?thesis by (simp add: sends_range_def request_payload_def payload_bytes_def received_payload_def h)
  qed (use assms(1-3) in \<open>simp_all add: h request_payload_def payload_bytes_def received_payload_def fits_def empty_containers_def
      ParseStr_Serialize ParseValues_Serialize ParseKvs_Serialize ParseVmembers_Serialize parse_ints\<close>)
qed

lemma received_payload_has_bits: "rq_has_bits (received_payload l r rq m) = rq_has_bits m"
  by (simp add: received_payload_def)

lemma Request_ParseFrom_ok:
  assumes "wire_ok K" "fits cv rq" "empty_containers m"
    "sends_range rq \<Longrightarrow> reads_as K (rq_range_left rq) l \<and> reads_as K (rq_range_right rq) r"
  shows "Request_ParseFrom K cv m (Request_SerializeTo K cv rq @ s) = Some (received l r rq m, s)"
proof -
  let ?m = "m\<lparr>rq_command := rq_command rq, rq_has_bits := rq_has_bits rq\<rparr>"
  let ?m' = "if HasKey rq then ?m\<lparr>rq_key := rq_key rq\<rparr> else ?m"
  let ?t = "if HasExpireTime rq then encode64 K (rq_expire_time rq) else []"
  have "rq_has_bits ?m = rq_has_bits rq" by simp
  note h = has_bits_cong [OF this]
  have m': "rq_has_bits ?m' = rq_has_bits rq" "empty_containers ?m'" using assms(3) by (simp_all add: empty_containers_def)
  have "request_payload K cv ?m' (payload_bytes K cv rq @ ?t @ s) = Some (received_payload l r rq ?m', ?t @ s)"
    by (rule request_payload_ok [OF assms(1,2) m'(2,1) assms(4)])
  moreover have "HasExpireTime (received_payload l r rq ?m') = HasExpireTime rq"
    by (rule has_bits_cong(3)) (simp add: received_payload_has_bits)
  moreover have "ParseStr K True (SerializeStr K True (rq_key rq) @ b) = Some (rq_key rq, b)" if "HasKey rq" for b
    using that assms(1,2) by (simp add: fits_def ParseStr_Serialize)
  moreover have "Request_SerializeTo K cv rq @ s = encode16 K (rq_command rq) @ encode8 K (rq_has_bits rq) @
      (if HasKey rq then SerializeStr K True (rq_key rq) else []) @ payload_bytes K cv rq @ ?t @ s"
    by (simp add: Request_SerializeTo_def payload_bytes_def)
  ultimately show ?thesis
    using assms(1) by (cases "HasKey rq"; cases "HasExpireTime rq") (simp_all add: Request_ParseFrom_def request_key_def request_time_def received_def parse_ints h Let_def del: bind_Some_iff)
qed

section \<open>The raw parser\<close>

definition sends_vmembers :: "request \<Rightarrow> bool" where
  "sends_vmembers rq \<longleftrightarrow> \<not> HasValue rq \<and> \<not> HasValues rq \<and> \<not> HasKvs rq \<and> \<not> HasCount rq \<and> \<not> HasRange rq \<and> HasVmembers rq"

lemma raw_reads_as:
  assumes "reads_as K w v" "length (encode64 K w) \<le> unat n"
  shows "raw_ok (ParseUnsigned_raw (decode64s K) (encode64 K w @ s, n)) v s n (length (encode64 K w))"
  using assms by (intro raw_okI [of _ _ _ "n - of_nat (length (encode64 K w))"])
    (simp_all add: ParseUnsigned_raw_def reads_as_def unat_sub_of_nat)

lemma raw_map:
  assumes "raw_ok p x t n len"
  shows "raw_ok (do { (v, q) \<leftarrow> p; Some (g v, q) }) (g x) t n len"
  using assms by (auto simp: raw_ok_def)

lemma request_payload_raw_ok:
  assumes "wire_ok K" "fits cv rq" "empty_containers m" "rq_has_bits m = rq_has_bits rq" "\<not> sends_vmembers rq"
    "sends_range rq \<Longrightarrow> reads_as K (rq_range_left rq) l \<and> reads_as K (rq_range_right rq) r"
    "length (payload_bytes K cv rq) \<le> unat n"
  shows "raw_ok (request_payload_raw K cv m (payload_bytes K cv rq @ s, n)) (received_payload l r rq m) s n (length (payload_bytes K cv rq))"
proof -
  note h = has_bits_cong [OF assms(4)]
  consider "HasValue rq" | "\<not> HasValue rq" "HasValues rq" | "\<not> HasValue rq" "\<not> HasValues rq" "HasKvs rq"
    | "\<not> HasValue rq" "\<not> HasValues rq" "\<not> HasKvs rq" "HasCount rq" | "sends_range rq"
    | "\<not> HasValue rq" "\<not> HasValues rq" "\<not> HasKvs rq" "\<not> HasCount rq" "\<not> HasRange rq" "\<not> HasVmembers rq"
    using assms(5) by (auto simp: sends_range_def sends_vmembers_def)
  then show ?thesis
  proof cases
    case 5
    let ?l = "encode64 K (rq_range_left rq)" and ?r = "encode64 K (rq_range_right rq)"
    have p: "payload_bytes K cv rq = ?l @ ?r" using 5 by (simp add: sends_range_def payload_bytes_def)
    have ln: "length ?l \<le> unat n" "length ?l + length ?r \<le> unat n" using assms(7) by (simp_all add: p)
    obtain n1 where n1: "ParseUnsigned_raw (decode64s K) (?l @ ?r @ s, n) = Some (l, ?r @ s, n1)" "unat n \<le> unat n1 + length ?l" "length ?r \<le> unat n1"
      using raw_okE [OF raw_reads_as [OF _ ln(1)] ln(2)] assms(6) 5 by blast
    have "raw_ok (ParseUnsigned_raw (decode64s K) (?r @ s, n1)) r s n1 (length ?r)" using assms(6) 5 n1(3) by (intro raw_reads_as) auto
    with n1 5 show ?thesis by (auto simp: raw_ok_def sends_range_def request_payload_raw_def p received_payload_def h)
  qed (use assms(1-3,7) in \<open>auto simp: h request_payload_raw_def payload_bytes_def received_payload_def fits_def empty_containers_def
      intro!: raw_map ParseStr_raw_ok ParseValues_raw_ok ParseKvs_raw_ok raw_ints raw_okI [OF refl]\<close>)
qed

lemma unat_numeral_2: "unat (2 :: 64 word) = 2"
  by simp

lemma encode_nonempty:
  assumes "wire_ok K"
  shows "0 < length (encode16 K a)" "0 < length (encode8 K b)"
  using reads_nonempty [OF wire_okD(2) [OF assms], of 0 1 a] reads_nonempty [OF wire_okD(1) [OF assms], of 0 1 b] by simp_all

lemma Request_ParseFrom_raw_ok:
  assumes "wire_ok K" "fits cv rq" "empty_containers m" "\<not> sends_vmembers rq"
    "sends_range rq \<Longrightarrow> reads_as K (rq_range_left rq) l \<and> reads_as K (rq_range_right rq) r"
    "length (Request_SerializeTo K cv rq) \<le> unat n"
  shows "Request_ParseFrom_raw K cv m (Request_SerializeTo K cv rq @ s, n) = Some (received l r rq m, s)"
proof -
  let ?c = "encode16 K (rq_command rq)" and ?h = "encode8 K (rq_has_bits rq)"
    and ?k = "if HasKey rq then SerializeStr K True (rq_key rq) else []" and ?p = "payload_bytes K cv rq"
    and ?t = "if HasExpireTime rq then encode64 K (rq_expire_time rq) else []"
  let ?m = "m\<lparr>rq_command := rq_command rq, rq_has_bits := rq_has_bits rq\<rparr>"
  let ?m' = "if HasKey rq then ?m\<lparr>rq_key := rq_key rq\<rparr> else ?m"
  have ser: "Request_SerializeTo K cv rq = ?c @ ?h @ ?k @ ?p @ ?t" by (simp add: Request_SerializeTo_def payload_bytes_def)
  have "rq_has_bits ?m = rq_has_bits rq" by simp
  note hb = has_bits_cong [OF this]
  have m': "rq_has_bits ?m' = rq_has_bits rq" "empty_containers ?m'" using assms(3) by (simp_all add: empty_containers_def)
  have L: "length ?c + (length ?h + (length ?k + (length ?p + length ?t))) \<le> unat n" using assms(6) by (simp add: ser)
  note pos = encode_nonempty [OF assms(1)]
  have n: "\<not> n < 2" using L pos(1) [of "rq_command rq"] pos(2) [of "rq_has_bits rq"] 
    unfolding word_less_nat_alt unat_numeral_2 by linarith
  have Lc: "length ?c \<le> unat n" using L by simp
  obtain n1 where n1: "ParseUnsigned_raw (decode16 K) (?c @ ?h @ ?k @ ?p @ ?t @ s, n) = Some (rq_command rq, ?h @ ?k @ ?p @ ?t @ s, n1)"
      "length ?h + (length ?k + (length ?p + length ?t)) \<le> unat n1"
    using raw_okE [OF raw_ints(2) [OF assms(1) Lc] L] by blast
  have n1': "\<not> n1 < 1" using n1(2) pos(2) [of "rq_has_bits rq"] unfolding word_less_nat_alt unsigned_1 by linarith
  have Lh: "length ?h \<le> unat n1" using n1(2) by simp
  obtain n2 where n2: "ParseUnsigned_raw (decode8 K) (?h @ ?k @ ?p @ ?t @ s, n1) = Some (rq_has_bits rq, ?k @ ?p @ ?t @ s, n2)"
      "length ?k + (length ?p + length ?t) \<le> unat n2"
    using raw_okE [OF raw_ints(1) [OF assms(1) Lh] n1(2)] by blast
  obtain n3 where n3: "(if HasKey rq then do { (k, p) \<leftarrow> ParseStr_raw K True (?k @ ?p @ ?t @ s, n2); Some (?m\<lparr>rq_key := k\<rparr>, p) }
        else Some (?m, ?k @ ?p @ ?t @ s, n2)) = Some (?m', ?p @ ?t @ s, n3)" "length ?p + length ?t \<le> unat n3"
  proof (cases "HasKey rq")
    case True
    let ?s = "SerializeStr K True (rq_key rq)"
    have k: "length (rq_key rq) < (if True then 2 ^ 16 else 2 ^ 32)" "length ?s \<le> unat n2" "length ?s + (length ?p + length ?t) \<le> unat n2"
      using True assms(2) n2(2) by (simp_all add: fits_def)
    obtain n3 where "ParseStr_raw K True (?s @ ?p @ ?t @ s, n2) = Some (rq_key rq, ?p @ ?t @ s, n3)" "length ?p + length ?t \<le> unat n3"
      using raw_okE [OF ParseStr_raw_ok [OF assms(1) k(1,2)] k(3)] by blast
    with True show ?thesis by (intro that [of n3]) simp_all
  next
    case False
    with n2(2) show ?thesis by (intro that [of n2]) simp_all
  qed
  have Lp: "length ?p \<le> unat n3" using n3(2) by simp
  obtain n4 where n4: "request_payload_raw K cv ?m' (?p @ ?t @ s, n3) = Some (received_payload l r rq ?m', ?t @ s, n4)" "length ?t \<le> unat n4"
    using raw_okE [OF request_payload_raw_ok [OF assms(1,2) m'(2,1) assms(4,5) Lp] n3(2)] by blast
  have e: "HasExpireTime (received_payload l r rq ?m') = HasExpireTime rq"
    by (rule has_bits_cong(3)) (simp add: received_payload_has_bits)
  have "(if HasExpireTime rq then do { (t, p) \<leftarrow> ParseUnsigned_raw (decode64 K) (?t @ s, n4);
        Some ((received_payload l r rq ?m')\<lparr>rq_expire_time := t\<rparr>, fst p) } else Some (received_payload l r rq ?m', ?t @ s))
      = Some (received l r rq m, s)"
    using raw_ints(4) [OF assms(1), of "rq_expire_time rq" n4 s] n4(2) by (auto simp: raw_ok_def received_def Let_def)
  with n n1 n1' n2 n3 n4 e show ?thesis
    by (cases "HasKey rq"; cases "HasExpireTime rq") (simp_all add: Request_ParseFrom_raw_def ser hb Let_def del: bind_Some_iff Option.bind_assoc)
qed

section \<open>Responses\<close>

definition response_fits :: "conv \<Rightarrow> response \<Rightarrow> bool" where
  "response_fits cv r \<longleftrightarrow>
     (if rs_HasValue r then length (rs_value r) < 2 ^ 32
      else if rs_HasValues r then length (rs_values r) < 2 ^ 32 \<and> (\<forall>v \<in> set (rs_values r). length v < 2 ^ 32)
      else if rs_HasKvs r then length (rs_kvs r) < 2 ^ 32 \<and> (\<forall>(k, v) \<in> set (rs_kvs r). length k < 2 ^ 16 \<and> length v < 2 ^ 32)
      else rs_HasCount r \<or> (rs_HasVmembers r \<longrightarrow> length (rs_vmembers r) < 2 ^ 32 \<and> (\<forall>(w, v) \<in> set (rs_vmembers r). is_double cv w \<and> length v < 2 ^ 32)))"

definition response_received :: "response \<Rightarrow> response \<Rightarrow> response" where
  "response_received r m =
     (let m = m\<lparr>rs_status_code := rs_status_code r, rs_has_bits := rs_has_bits r\<rparr> in
      if rs_HasValue r then m\<lparr>rs_value := rs_value r\<rparr>
      else if rs_HasValues r then m\<lparr>rs_values := rs_values r\<rparr>
      else if rs_HasKvs r then m\<lparr>rs_kvs := rs_kvs r\<rparr>
      else if rs_HasCount r then m\<lparr>rs_count := rs_count r\<rparr>
      else if rs_HasVmembers r then m\<lparr>rs_vmembers := rs_vmembers r\<rparr>
      else m)"

lemmas rs_has_defs = rs_HasValue_def rs_HasValues_def rs_HasKvs_def rs_HasCount_def rs_HasVmembers_def

lemma Response_ParseFrom_ok:
  assumes "wire_ok K" "response_fits cv r"
  shows "Response_ParseFrom K cv (MmbpResponse_new n) (Response_SerializeTo K cv r @ s) = Some (response_received r (MmbpResponse_new n), s)"
proof -
  let ?m = "(MmbpResponse_new n)\<lparr>rs_status_code := rs_status_code r, rs_has_bits := rs_has_bits r\<rparr>"
  have h: "rs_HasValue ?m = rs_HasValue r" "rs_HasValues ?m = rs_HasValues r" "rs_HasKvs ?m = rs_HasKvs r" "rs_HasCount ?m = rs_HasCount r"
      "rs_HasVmembers ?m = rs_HasVmembers r" by (simp_all add: rs_has_defs)
  have e: "rs_values (MmbpResponse_new n) = []" "rs_kvs (MmbpResponse_new n) = []" "rs_vmembers (MmbpResponse_new n) = []"
    by (simp_all add: MmbpResponse_new_def)
  show ?thesis using assms
    by (cases "rs_HasValue r"; cases "rs_HasValues r"; cases "rs_HasKvs r"; cases "rs_HasCount r"; cases "rs_HasVmembers r")
      (simp_all add: Response_ParseFrom_def Response_SerializeTo_def response_received_def response_fits_def parse_ints h e Let_def
        ParseStr_Serialize ParseValues_Serialize ParseKvs_Serialize ParseVmembers_Serialize del: bind_Some_iff)
qed

section \<open>An encoding\<close>

text \<open>
  An instance of the parameters: seven bits a byte with a continuation bit, least significant first, signed integers by
  the zigzag code, and fixed-width integers with the most significant byte first.
\<close>

fun leb :: "nat \<Rightarrow> string" where
  "leb n = (if n < 128 then [char_of n] else char_of (n mod 128 + 128) # leb (n div 128))"

fun unleb :: "string \<Rightarrow> (nat \<times> nat) option" where
  "unleb [] = None"
| "unleb (c # cs) = (if of_char c < (128 :: nat) then Some (of_char c, 1)
     else map_option (\<lambda>(v, l). (of_char c - 128 + 128 * v, Suc l)) (unleb cs))"

fun be :: "nat \<Rightarrow> nat \<Rightarrow> string" where
  "be 0 n = []"
| "be (Suc k) n = be k (n div 256) @ [char_of (n mod 256)]"

definition unbe :: "string \<Rightarrow> nat" where
  "unbe b = foldl (\<lambda>a c. a * 256 + of_char c) 0 b"

definition leb_word :: "string \<Rightarrow> 'a :: len word varint" where
  "leb_word b = (case unleb b of
      None \<Rightarrow> KVARINT_DECODE_BUF_SHORT
    | Some (v, l) \<Rightarrow> if v < 2 ^ LENGTH('a) then KVARINT_OK l (of_nat v) else KVARINT_DECODE_BUF_INVALID)"

definition ex_wire :: wire where
  "ex_wire = \<lparr>encode8 = \<lambda>w. leb (unat w), encode16 = \<lambda>w. leb (unat w), encode32 = \<lambda>w. leb (unat w), encode64 = \<lambda>w. leb (unat w),
     decode8 = leb_word, decode16 = leb_word, decode32 = leb_word, decode64 = leb_word,
     decode64s = \<lambda>b. (case leb_word b of KVARINT_OK l w \<Rightarrow> KVARINT_OK l (drop_bit 1 w XOR - (w AND 1)) | e \<Rightarrow> e),
     append16 = \<lambda>w. be 2 (unat w), append32 = \<lambda>w. be 4 (unat w), append64 = \<lambda>w. be 8 (unat w), host16 = \<lambda>b. of_nat (unbe b), host32 = \<lambda>b. of_nat (unbe b), host64 = \<lambda>b. of_nat (unbe b)\<rparr>"

declare leb.simps [simp del]

lemma unleb_leb: "unleb (leb n @ s) = Some (n, length (leb n))"
proof (induction n rule: leb.induct)
  case (1 n)
  show ?case
  proof (cases "n < 128")
    case True
    then show ?thesis by (simp add: leb.simps [of n])
  next
    case False
    have "of_char (char_of (n mod 128 + 128) :: char) = n mod 128 + 128" by (simp add: mod_less_divisor)
    with False 1 show ?thesis by (simp add: leb.simps [of n])
  qed
qed

lemma length_leb: "n < 128 \<Longrightarrow> length (leb n) = 1"
  by (simp add: leb.simps)

lemma unleb_prefix: "strict_prefix p (leb n) \<Longrightarrow> unleb p = None"
proof (induction n arbitrary: p rule: leb.induct)
  case (1 n)
  show ?case
  proof (cases p)
    case (Cons c q)
    have n: "\<not> n < 128" using "1.prems" Cons by (auto simp: leb.simps [of n] strict_prefix_def split: if_splits)
    with "1.prems" Cons have "c = char_of (n mod 128 + 128)" "strict_prefix q (leb (n div 128))" by (simp_all add: leb.simps [of n])
    with 1(1) [OF n] Cons show ?thesis by simp
  qed simp
qed

lemma length_be [simp]: "length (be k n) = k"
  by (induction k arbitrary: n) simp_all

lemma unbe_be: "unbe (be k n) = n mod 256 ^ k"
proof (induction k arbitrary: n)
  case (Suc k)
  have "unbe (be (Suc k) n) = unbe (be k (n div 256)) * 256 + n mod 256" by (simp add: unbe_def)
  also have "\<dots> = n mod 256 ^ Suc k" using Suc mod_mult2_eq [of n 256 "256 ^ k"] by (simp add: mult.commute)
  finally show ?case .
qed (simp add: unbe_def)

lemma leb_word_leb: "n < 2 ^ LENGTH('a) \<Longrightarrow> (leb_word (leb n @ s) :: 'a :: len word varint) = KVARINT_OK (length (leb n)) (of_nat n)"
  by (simp add: leb_word_def unleb_leb)

lemma leb_word_unat: "leb_word (leb (unat w) @ s) = KVARINT_OK (length (leb (unat w))) w" for w :: "'a :: len word"
  by (simp add: leb_word_leb)

lemma leb_word_64:
  fixes w :: "'a :: len word"
  assumes "LENGTH('a) \<le> 64"
  shows "(leb_word (leb (unat w) @ s) :: 64 word varint) = KVARINT_OK (length (leb (unat w))) (ucast w)"
proof -
  have "unat w < 2 ^ LENGTH('a)" by simp
  also have "(2 :: nat) ^ LENGTH('a) \<le> 2 ^ 64" using assms by (intro power_increasing) simp_all
  finally have "unat w < 2 ^ LENGTH(64)" by simp
  from leb_word_leb [OF this] show ?thesis by simp
qed

lemma ex_wire_ok: "wire_ok ex_wire"
proof -
  have "unbe (be 4 (unat u)) = unat u" for u :: "32 word" using unsigned_less [of u, where 'a = nat] by (simp add: unbe_be)
  moreover have "unbe (be 8 (unat u)) = unat u" for u :: "64 word" using unsigned_less [of u, where 'a = nat] by (simp add: unbe_be)
  moreover have "leb_word p = (KVARINT_DECODE_BUF_SHORT :: 32 word varint)" if "strict_prefix p (leb (unat u))" for p and u :: "32 word"
    using unleb_prefix [OF that] by (simp add: leb_word_def)
  ultimately show ?thesis by (simp add: wire_ok_def reads_def ex_wire_def leb_word_unat leb_word_64)
qed

section \<open>Delivery of frames\<close>

text \<open>In states that satisfy \<open>good\<close> the callback takes a message off the buffer and changes the state by \<open>step\<close>.\<close>

definition handles :: "('s \<Rightarrow> bool) \<Rightarrow> (string \<Rightarrow> nat \<Rightarrow> 's \<Rightarrow> ('s \<times> string) option) \<Rightarrow> (string \<Rightarrow> 's \<Rightarrow> 's) \<Rightarrow> string \<Rightarrow> bool" where
  "handles good cb step msg = (\<forall>s st. good st \<longrightarrow> cb (msg @ s) (length msg) st = Some (step msg st, s) \<and> good (step msg st))"

text \<open>Pieces arrive one after the other: each is appended to the buffer of the connection and the message callback called.\<close>

fun feed :: "wire \<Rightarrow> (string \<Rightarrow> 32 word) \<Rightarrow> (string \<Rightarrow> nat \<Rightarrow> 's \<Rightarrow> ('s \<times> string) option) \<Rightarrow> 's \<Rightarrow> string \<Rightarrow> string list
    \<Rightarrow> ('s \<times> string \<times> codec_error) option" where
  "feed K X cb st b [] = Some (st, b, E_NOERROR)"
| "feed K X cb st b (c # cs) =
     do { (st, b, e) \<leftarrow> on_message K X cb st (b @ c);
          if e = E_NOERROR then feed K X cb st b cs else Some (st, b, e) }"

abbreviation frames :: "wire \<Rightarrow> (string \<Rightarrow> 32 word) \<Rightarrow> string list \<Rightarrow> string" where
  "frames K X ms \<equiv> concat (map (Codec_SerializeTo K X) ms)"

definition frame_body :: "wire \<Rightarrow> (string \<Rightarrow> 32 word) \<Rightarrow> string \<Rightarrow> string" where
  "frame_body K X msg = MMBP_TAG @ msg @ append32 K (X (MMBP_TAG @ msg))"

lemma frame_eq: "Codec_SerializeTo K X msg = encode32 K (of_nat (length (frame_body K X msg))) @ frame_body K X msg"
  by (simp add: Codec_SerializeTo_def frame_body_def Let_def add.assoc)

lemma length_tag [simp]: "length MMBP_TAG = 4"
  by (simp add: MMBP_TAG_def)

lemma length_frame_body: "wire_ok K \<Longrightarrow> length (frame_body K X msg) = length msg + 8"
  by (simp add: frame_body_def wire_okD(7))

lemma frame_size:
  assumes "wire_ok K" "length (Codec_SerializeTo K X msg) < MAX_SIZE"
  shows "unat (of_nat (length (frame_body K X msg)) :: 32 word) = length (frame_body K X msg)"
  using assms(2) by (simp add: frame_eq MAX_SIZE_def unat_of_nat)

lemma frame_verified:
  assumes "wire_ok K"
  shows "VerifyCheckSum K X (frame_body K X msg @ s) (length (frame_body K X msg))" "take 4 (frame_body K X msg @ s) = MMBP_TAG"
    "drop 4 (frame_body K X msg @ s) = msg @ append32 K (X (MMBP_TAG @ msg)) @ s"
proof -
  let ?c = "append32 K (X (MMBP_TAG @ msg))"
  have l: "length (frame_body K X msg) - 4 = length (MMBP_TAG @ msg)" by (simp add: length_frame_body [OF assms])
  have b: "frame_body K X msg @ s = (MMBP_TAG @ msg) @ ?c @ s" by (simp add: frame_body_def)
  have "take 4 (?c @ s) = ?c" using wire_okD(7) [OF assms] by simp
  then show "VerifyCheckSum K X (frame_body K X msg @ s) (length (frame_body K X msg))"
    unfolding VerifyCheckSum_def l b by (simp add: wire_okD(8) [OF assms] del: append_assoc)
  show "take 4 (frame_body K X msg @ s) = MMBP_TAG" "drop 4 (frame_body K X msg @ s) = msg @ ?c @ s" by (simp_all add: frame_body_def)
qed

lemma codec_loop_frame:
  assumes "wire_ok K" "handles good cb step msg" "length (Codec_SerializeTo K X msg) < MAX_SIZE" "good st"
  shows "codec_loop K X cb st (Codec_SerializeTo K X msg @ s) = codec_loop K X cb (step msg st) s"
proof -
  let ?b = "frame_body K X msg" and ?c = "append32 K (X (MMBP_TAG @ msg))"
  let ?w = "of_nat (length ?b) :: 32 word"
  have w: "unat ?w = length ?b" by (rule frame_size [OF assms(1,3)])
  have d: "decode32 K (encode32 K ?w @ ?b @ s) = KVARINT_OK (length (encode32 K ?w)) ?w" using readsD [OF wire_okD(3) [OF assms(1)]] by simp
  have sz: "\<not> (length ?b < MIN_SIZE \<or> MAX_SIZE - length (encode32 K ?w) \<le> length ?b)"
    using assms(3) by (simp add: length_frame_body [OF assms(1)] MIN_SIZE_def frame_eq)
  have cb: "cb (msg @ ?c @ s) (length ?b - 4 - 4) st = Some (step msg st, ?c @ s)"
    using assms(2,4) by (simp add: handles_def length_frame_body [OF assms(1)])
  have r: "read_bytes 4 (?c @ s) = Some (?c, s)" using read_bytes_append [of ?c s] wire_okD(7) [OF assms(1)] by simp
  show ?thesis unfolding frame_eq append_assoc
    using sz frame_verified [OF assms(1), of X msg s] cb r
    by (simp add: codec_loop.simps [of K X cb st "encode32 K ?w @ ?b @ s"] d w Let_def del: bind_Some_iff)
qed

lemma strict_prefix_append_cases:
  assumes "strict_prefix q (a @ b)"
  shows "strict_prefix q a \<or> (\<exists>q'. q = a @ q' \<and> strict_prefix q' b)"
  using assms by (auto simp: strict_prefix_def prefix_append)

lemma codec_loop_prefix:
  assumes "wire_ok K" "strict_prefix q (Codec_SerializeTo K X msg)" "length (Codec_SerializeTo K X msg) < MAX_SIZE"
  shows "codec_loop K X cb st q = Some (st, q, E_NOERROR)"
proof -
  let ?b = "frame_body K X msg"
  let ?w = "of_nat (length ?b) :: 32 word"
  have w: "unat ?w = length ?b" by (rule frame_size [OF assms(1,3)])
  from strict_prefix_append_cases [OF assms(2) [unfolded frame_eq]] show ?thesis
  proof (elim disjE exE conjE)
    assume "strict_prefix q (encode32 K ?w)"
    from wire_okD(11) [OF assms(1) this] show ?thesis by (simp add: codec_loop.simps)
  next
    fix q' assume q: "q = encode32 K ?w @ q'" "strict_prefix q' ?b"
    have "length q' < length ?b" using q(2) by (rule prefix_length_less)
    moreover have "\<not> (length ?b < MIN_SIZE \<or> MAX_SIZE - length (encode32 K ?w) \<le> length ?b)"
      using assms(3) by (simp add: length_frame_body [OF assms(1)] MIN_SIZE_def frame_eq)
    moreover have "decode32 K (encode32 K ?w @ q') = KVARINT_OK (length (encode32 K ?w)) ?w" using readsD [OF wire_okD(3) [OF assms(1)]] by simp
    ultimately show ?thesis unfolding q(1) by (simp add: codec_loop.simps [of K X cb st "encode32 K ?w @ q'"] w)
  qed
qed

lemma frame_nonempty: "wire_ok K \<Longrightarrow> [] \<noteq> Codec_SerializeTo K X msg"
  using length_frame_body [of K X msg] by (auto simp: frame_eq)

text \<open>A prefix of the stream is a number of frames and the beginning of the next one.\<close>

lemma prefix_frames:
  assumes "wire_ok K"
  shows "prefix b (frames K X ms) \<Longrightarrow> \<exists>ms1 ms2 q. ms = ms1 @ ms2 \<and> b = frames K X ms1 @ q
    \<and> (case ms2 of [] \<Rightarrow> q = [] | m # _ \<Rightarrow> strict_prefix q (Codec_SerializeTo K X m))"
proof (induction ms arbitrary: b)
  case Nil
  then show ?case by simp
next
  case (Cons m ms)
  let ?f = "Codec_SerializeTo K X m"
  show ?case
  proof (cases "prefix ?f b")
    case True
    then obtain b' where b': "b = ?f @ b'" by (auto simp: prefix_def)
    then have "prefix b' (frames K X ms)" using Cons.prems by simp
    from Cons.IH [OF this] obtain ms1 ms2 q where "ms = ms1 @ ms2" "b' = frames K X ms1 @ q"
        "case ms2 of [] \<Rightarrow> q = [] | m # _ \<Rightarrow> strict_prefix q (Codec_SerializeTo K X m)" by blast
    with b' show ?thesis by (intro exI [of _ "m # ms1"] exI [of _ ms2] exI [of _ q]) simp
  next
    case False
    then have "strict_prefix b ?f" using Cons.prems by (auto simp: prefix_append strict_prefix_def)
    then show ?thesis by (intro exI [of _ "[]"] exI [of _ "m # ms"] exI [of _ b]) simp
  qed
qed

lemma codec_loop_frames:
  assumes "wire_ok K"
  shows "\<forall>m \<in> set ms. handles good cb step m \<and> length (Codec_SerializeTo K X m) < MAX_SIZE \<Longrightarrow> good st \<Longrightarrow>
    codec_loop K X cb st (frames K X ms @ s) = codec_loop K X cb (fold step ms st) s \<and> good (fold step ms st)"
proof (induction ms arbitrary: st)
  case (Cons m ms)
  have "codec_loop K X cb st (frames K X (m # ms) @ s) = codec_loop K X cb (step m st) (frames K X ms @ s)"
    using Cons.prems codec_loop_frame [OF assms, of good cb step m] by simp
  moreover have "good (step m st)" using Cons.prems by (simp add: handles_def)
  ultimately show ?case using Cons by simp
qed simp

lemma feed_frames:
  assumes "wire_ok K" "0 < mx"
  shows "\<forall>m \<in> set ms. handles good cb step m \<and> length (Codec_SerializeTo K X m) \<le> mx \<Longrightarrow> good st \<Longrightarrow> mx \<le> MAX_SIZE - 1 \<Longrightarrow> \<forall>c \<in> set cs. length c + mx \<le> MAX_SIZE \<Longrightarrow>
    q @ concat cs = frames K X ms \<Longrightarrow> length q < mx \<Longrightarrow> case ms of [] \<Rightarrow> q = [] | m # _ \<Rightarrow> strict_prefix q (Codec_SerializeTo K X m) \<Longrightarrow>
    feed K X cb st q cs = Some (fold step ms st, [], E_NOERROR)"
proof (induction cs arbitrary: ms q st)
  case Nil
  then show ?case
  proof (cases ms)
    case (Cons m ms')
    with Nil.prems(5,7) have "strict_prefix (Codec_SerializeTo K X m @ frames K X ms') (Codec_SerializeTo K X m)" by simp
    then have "length (Codec_SerializeTo K X m @ frames K X ms') < length (Codec_SerializeTo K X m)" by (rule prefix_length_less)
    then show ?thesis by simp
  qed simp
next
  case (Cons c cs)
  have "prefix (q @ c) (frames K X ms)" using Cons.prems(5) by (metis append.assoc concat.simps(2) prefixI)
  from prefix_frames [OF assms(1) this] obtain ms1 ms2 q' where m: "ms = ms1 @ ms2" "q @ c = frames K X ms1 @ q'"
      "case ms2 of [] \<Rightarrow> q' = [] | m # _ \<Rightarrow> strict_prefix q' (Codec_SerializeTo K X m)" by blast
  have small: "length (Codec_SerializeTo K X x) < MAX_SIZE" if "x \<in> set ms" for x using Cons.prems(1,3) that by (auto simp: MAX_SIZE_def)
  have q': "codec_loop K X cb st' q' = Some (st', q', E_NOERROR)" "length q' < mx" for st'
  proof -
    show "codec_loop K X cb st' q' = Some (st', q', E_NOERROR)"
    proof (cases ms2)
      case Nil
      have "strict_prefix [] (encode32 K 0)" using reads_nonempty [OF wire_okD(3) [OF assms(1)], of 0 1 0] by (simp add: strict_prefix_def)
      from wire_okD(11) [OF assms(1) this] m(3) Nil show ?thesis by (simp add: codec_loop.simps)
    next
      case (Cons x xs)
      with m(1,3) small show ?thesis by (intro codec_loop_prefix [OF assms(1)]) auto
    qed
    show "length q' < mx"
    proof (cases ms2)
      case Nil
      with m(3) assms(2) show ?thesis by simp
    next
      case (Cons x xs)
      with m(3) have "length q' < length (Codec_SerializeTo K X x)" by (simp add: prefix_length_less)
      with Cons m(1) Cons.prems(1) show ?thesis by fastforce
    qed
  qed
  have "length (q @ c) < MAX_SIZE" using Cons.prems(4,6) by simp
  moreover have "codec_loop K X cb st (frames K X ms1 @ q') = Some (fold step ms1 st, q', E_NOERROR)"
    and i: "good (fold step ms1 st)"
    using codec_loop_frames [OF assms(1), of ms1 good cb step X st q'] Cons.prems(1,2) m(1) small q'(1) by simp_all
  ultimately have "on_message K X cb st (q @ c) = Some (fold step ms1 st, q', E_NOERROR)"
    unfolding on_message_def m(2) by simp
  moreover have "feed K X cb (fold step ms1 st) q' cs = Some (fold step ms2 (fold step ms1 st), [], E_NOERROR)"
  proof (rule Cons.IH)
    have "frames K X ms1 @ q' @ concat cs = frames K X ms1 @ frames K X ms2" using Cons.prems(5) m(1,2) by (metis append.assoc concat.simps(2) concat_append map_append)
    then show "q' @ concat cs = frames K X ms2" by simp
  qed (use Cons.prems(1,3,4) m(1,3) q'(2) i in auto)
  ultimately show ?case by (simp add: m(1))
qed

section \<open>Properties\<close>

text \<open>
  C4. A request whose sizes fit is parsed into a fresh request as it was sent: command, presence bits, key, the first of
  the optional fields present and the expiration time, and nothing after it is consumed; so is a response. The bounds of
  a range are written as unsigned and read as signed integers: they arrive as what the signed decoder makes of them.
\<close>

theorem messages_roundtrip:
  assumes "wire_ok K" "fits cv rq" "response_fits cv rs"
    "sends_range rq \<Longrightarrow> reads_as K (rq_range_left rq) l \<and> reads_as K (rq_range_right rq) r"
  shows "Request_ParseFrom K cv (MmbpRequest_new e a b) (Request_SerializeTo K cv rq @ s) = Some (received l r rq (MmbpRequest_new e a b), s)
    \<and> Response_ParseFrom K cv (MmbpResponse_new n) (Response_SerializeTo K cv rs @ s) = Some (response_received rs (MmbpResponse_new n), s)"
proof
  show "Request_ParseFrom K cv (MmbpRequest_new e a b) (Request_SerializeTo K cv rq @ s) = Some (received l r rq (MmbpRequest_new e a b), s)"
    by (rule Request_ParseFrom_ok [OF assms(1,2) _ assms(4)]) (simp_all add: empty_containers_def MmbpRequest_new_def)
qed (rule Response_ParseFrom_ok [OF assms(1,3)])

text \<open>A request for elements 1 to 3 of a list: the zigzag decoder turns the bounds into \<open>-1\<close> and \<open>-2\<close>.\<close>

definition ex_range :: request where
  "ex_range = (MmbpRequest_new 0 1 3)\<lparr>rq_has_bits := 65, rq_command := 12, rq_key := ''k''\<rparr>"

definition ex_cv :: conv where
  "ex_cv = \<lparr>int2double = \<lambda>_. 0, double2u64 = \<lambda>_. 0\<rparr>"

lemma ex_range_simps:
  "HasKey ex_range" "\<not> HasValue ex_range" "\<not> HasValues ex_range" "\<not> HasKvs ex_range" "\<not> HasCount ex_range" "HasRange ex_range"
  "\<not> HasExpireTime ex_range" "rq_range_left ex_range = 1" "rq_range_right ex_range = 3" "rq_key ex_range = ''k''"
  by (simp_all add: ex_range_def MmbpRequest_new_def has_defs)

lemma ex_range_sends: "sends_range ex_range" "fits ex_cv ex_range" "\<not> sends_vmembers ex_range"
  by (simp_all add: sends_range_def fits_def sends_vmembers_def ex_range_simps)

lemma ex_reads_as: "reads_as ex_wire 1 (- 1)" "reads_as ex_wire 3 (- 2)"
proof -
  have "(leb_word (leb 1 @ s) :: 64 word varint) = KVARINT_OK (length (leb 1)) 1" "(leb_word (leb 3 @ s) :: 64 word varint) = KVARINT_OK (length (leb 3)) 3" for s
    using leb_word_unat [of "1 :: 64 word" s] leb_word_unat [of "3 :: 64 word" s] by simp_all
  then show "reads_as ex_wire 1 (- 1)" "reads_as ex_wire 3 (- 2)" by (simp_all add: reads_as_def ex_wire_def)
qed

lemma ex_range_received: "received (- 1) (- 2) ex_range (MmbpRequest_new 0 0 0) = ex_range\<lparr>rq_range_left := - 1, rq_range_right := - 2\<rparr>"
  by (simp add: received_def received_payload_def ex_range_simps Let_def) (simp add: ex_range_def MmbpRequest_new_def)

theorem messages_roundtrip_witness:
  "Request_ParseFrom ex_wire ex_cv (MmbpRequest_new 0 0 0) (Request_SerializeTo ex_wire ex_cv ex_range)
     = Some (ex_range\<lparr>rq_range_left := - 1, rq_range_right := - 2\<rparr>, [])"
proof -
  have "response_fits ex_cv (MmbpResponse_new 0)" by (simp add: response_fits_def rs_has_defs MmbpResponse_new_def)
  from messages_roundtrip [OF ex_wire_ok ex_range_sends(2) this, of "- 1" "- 2" 0 0 0 "[]"] show ?thesis
    by (simp add: ex_range_simps ex_reads_as ex_range_received)
qed

text \<open>
  C22. On a complete message that has no weighted members, the parser of raw regions reads the same request as the parser
  of buffers and leaves the pointer behind it, although it does not subtract the lengths of strings from the size;
  \<^verbatim>\<open>ParseFrom2\<close>, meant to update the size of the region as well, leaves it as it was.
\<close>

theorem raw_parser_agrees:
  assumes "wire_ok K" "fits cv rq" "\<not> sends_vmembers rq" "length (Request_SerializeTo K cv rq) \<le> unat n"
    "sends_range rq \<Longrightarrow> reads_as K (rq_range_left rq) l \<and> reads_as K (rq_range_right rq) r"
  shows "Request_ParseFrom_raw K cv (MmbpRequest_new e a b) (Request_SerializeTo K cv rq @ s, n)
      = Request_ParseFrom K cv (MmbpRequest_new e a b) (Request_SerializeTo K cv rq @ s)
    \<and> ParseFrom2 K cv (MmbpRequest_new e a b) (Request_SerializeTo K cv rq @ s, n) = Some (received l r rq (MmbpRequest_new e a b), (s, n))"
proof -
  have "empty_containers (MmbpRequest_new e a b)" by (simp add: empty_containers_def MmbpRequest_new_def)
  then show ?thesis
    using Request_ParseFrom_raw_ok [OF assms(1,2) _ assms(3,5,4)] Request_ParseFrom_ok [OF assms(1,2) _ assms(5)] by (simp add: ParseFrom2_def)
qed

theorem raw_parser_agrees_witness:
  "Request_ParseFrom_raw ex_wire ex_cv (MmbpRequest_new 0 0 0) (Request_SerializeTo ex_wire ex_cv ex_range @ ''more'', 100)
     = Request_ParseFrom ex_wire ex_cv (MmbpRequest_new 0 0 0) (Request_SerializeTo ex_wire ex_cv ex_range @ ''more'')"
proof (rule raw_parser_agrees [OF ex_wire_ok ex_range_sends(2,3), of _ "- 1" "- 2", THEN conjunct1])
  show "reads_as ex_wire (rq_range_left ex_range) (- 1) \<and> reads_as ex_wire (rq_range_right ex_range) (- 2)" by (simp add: ex_range_simps ex_reads_as)
  show "length (Request_SerializeTo ex_wire ex_cv ex_range) \<le> unat (100 :: 64 word)"
    by (simp add: Request_SerializeTo_def ex_range_simps SerializeStr_def ex_wire_def length_leb) (simp add: ex_range_def length_leb)
qed

text \<open>
  C5. However a stream of frames is cut into pieces as it arrives, the codec hands every message to the callback once, in
  order and whole, reports no error, and ends with an empty buffer; pieces and frames together stay below \<^verbatim>\<open>MAX_SIZE\<close>.
\<close>

theorem codec_delivers:
  assumes "wire_ok K" "concat cs = frames K X ms" "0 < mx" "mx \<le> MAX_SIZE - 1"
    "\<forall>m \<in> set ms. handles good cb step m \<and> length (Codec_SerializeTo K X m) \<le> mx" "good st" "\<forall>c \<in> set cs. length c + mx \<le> MAX_SIZE"
  shows "feed K X cb st [] cs = Some (fold step ms st, [], E_NOERROR)"
proof (rule feed_frames [OF assms(1,3,5,6,4,7)])
  show "case ms of [] \<Rightarrow> [] = [] | m # _ \<Rightarrow> strict_prefix [] (Codec_SerializeTo K X m)"
    using frame_nonempty [OF assms(1), of X "hd ms"] by (cases ms) (simp_all add: strict_prefix_def)
qed (use assms(2,3) in simp_all)

theorem codec_delivers_witness:
  "\<exists>f. f = frames ex_wire (\<lambda>_. 7) [''hi'', ''you''] \<and>
     feed ex_wire (\<lambda>_. 7) (\<lambda>b n st. Some (st @ [take n b], drop n b)) [] [] [take 3 f, drop 3 f] = Some ([''hi'', ''you''], [], E_NOERROR)"
proof -
  let ?f = "frames ex_wire (\<lambda>_. 7) [''hi'', ''you'']"
  have l: "length (Codec_SerializeTo ex_wire (\<lambda>_. 7) ''hi'') = 11" "length (Codec_SerializeTo ex_wire (\<lambda>_. 7) ''you'') = 12"
    by (simp_all add: Codec_SerializeTo_def MMBP_TAG_def ex_wire_def length_leb Let_def)
  have "feed ex_wire (\<lambda>_. 7) (\<lambda>b n st. Some (st @ [take n b], drop n b)) [] [] [take 3 ?f, drop 3 ?f]
      = Some (fold (\<lambda>m st. st @ [m]) [''hi'', ''you''] [], [], E_NOERROR)"
    by (rule codec_delivers [OF ex_wire_ok, of _ _ _ 20 "\<lambda>_. True"]) (simp_all add: l handles_def MAX_SIZE_def)
  moreover have "fold (\<lambda>m st. st @ [m]) [''hi'', ''you''] [] = [''hi'', ''you'']" by simp
  ultimately show ?thesis by (intro exI [of _ ?f] conjI refl) (simp only:)
qed

end
