(* ===== verification/KvdbInv.thy ===== *)
theory KvdbInv
  imports Kvdb
begin

text \<open>
  The abstract database: every key has a typed value, and possibly an expiration time. The relation \<open>db_rel\<close> says
  that a state of \<^verbatim>\<open>MmkvDb\<close> without cache represents an abstract database: both tables are well formed, every node's
  \<^verbatim>\<open>any_data\<close> is of the type its tag says and well formed in turn, and every key with an expiration is present. The
  lemmas give, for each building block of the commands, the abstract step it implements.
\<close>

section \<open>Writing through a pointer into a tree table\<close>

lemma inorder_map [simp]: "inorder (map_avl_node f t) = map f (inorder t)"
  by (induction t) auto

lemma heights_nonneg_map [simp]: "heights_nonneg (map_avl_node f t) = heights_nonneg t"
  by (induction t) auto

lemma map_avl_node_Null [simp]: "map_avl_node f t = Null \<longleftrightarrow> t = Null"
  by (cases t) auto

lemma tree_ok_assign: "tree_ok cmp K gk b \<Longrightarrow> tree_ok cmp K gk (map_avl_node (assign_entry gk x) b)"
  by (auto simp: tree_ok_def strict_sorted_def sorted_wrt_map)

lemma TreeTable_assign_elems: "tt_elems (TreeTable_assign gk x ht) = map (assign_entry gk x) (tt_elems ht)"
  by (simp add: tt_elems_def TreeTable_assign_def map_concat comp_def)

lemma TreeTable_assign_inv:
  assumes inv: "tt_inv cmp K hf gk ht"
  shows "tt_inv cmp K hf gk (TreeTable_assign gk x ht)"
proof -
  let ?f = "map_avl_node (assign_entry gk x)"
  have t: "ttable_ok cmp K hf gk (t\<lparr>buckets := map ?f (buckets t)\<rparr>)" if "ttable_ok cmp K hf gk t" for t
    using that by (auto simp: ttable_ok_def bucket_index_def intro!: tree_ok_assign)
  have "tt_rehash_ok cmp K hf gk (TreeTable_assign gk x ht)"
    using inv t [of "table2 ht"] by (auto simp: tt_inv_def tt_rehash_ok_def TreeTable_assign_def bucket_index_def split: option.splits)
  then show ?thesis
    using inv t [of "table1 ht"] unfolding tt_inv_def TreeTable_assign_elems by (simp add: TreeTable_assign_def)
qed

lemma TreeTable_assign_map:
  assumes "tt_map gk ht (gk x) = Some y"
  shows "tt_map gk (TreeTable_assign gk x ht) = (tt_map gk ht)(gk x \<mapsto> x)"
proof
  fix k
  have "tt_map gk (TreeTable_assign gk x ht) k = map_option (assign_entry gk x) (tt_map gk ht k)"
    unfolding tt_map_def TreeTable_assign_elems by (rule keyed_map_map) simp
  moreover have "gk z = k" if "tt_map gk ht k = Some z" for z
    using that keyed_map_SomeD by (fastforce simp: tt_map_def)
  ultimately show "tt_map gk (TreeTable_assign gk x ht) k = ((tt_map gk ht)(gk x \<mapsto> x)) k"
    using assms by (cases "tt_map gk ht k") (auto simp: assign_entry_def)
qed

section \<open>The abstract database\<close>

datatype aval = VStr (un_str: string) | VList (un_list: "string list") | VVset (un_vset: "string \<rightharpoonup> real")
  | VMap (un_map: "string \<rightharpoonup> string") | VSet (un_set: "string set")

record adb =
  vals :: "string \<rightharpoonup> aval"
  exps :: "string \<rightharpoonup> nat"
  alog :: "string list"

fun aval_type :: "aval \<Rightarrow> data_type" where
  "aval_type (VStr _) = D_STRING"
| "aval_type (VList _) = D_STRLIST"
| "aval_type (VVset _) = D_SORTED_SET"
| "aval_type (VMap _) = D_MAP"
| "aval_type (VSet _) = D_SET"

definition smap_of :: "smap \<Rightarrow> string \<rightharpoonup> string" where
  "smap_of m f = map_option snd (ht_map fst m f)"

fun aval_of :: "any_data \<Rightarrow> aval" where
  "aval_of (PString s) = VStr s"
| "aval_of (PStrList l) = VList l"
| "aval_of (PVset v) = VVset (vset_map v)"
| "aval_of (PMap m) = VMap (smap_of m)"
| "aval_of (PSet s) = VSet (members s)"

fun any_ok :: "(string \<Rightarrow> nat) \<Rightarrow> any_data \<Rightarrow> bool" where
  "any_ok hf (PString s) = True"
| "any_ok hf (PStrList l) = True"
| "any_ok hf (PVset v) = vset_ok hf v"
| "any_ok hf (PMap m) = ht_inv hf fst m"
| "any_ok hf (PSet s) = hs_inv hf s"

definition holds :: "(string \<Rightarrow> nat) \<Rightarrow> entry \<Rightarrow> aval \<Rightarrow> bool" where
  "holds hf e a = (\<exists>p. any_data (edata e) = Some p \<and> any_ok hf p \<and> aval_of p = a \<and> dtype (edata e) = aval_type a)"

abbreviation dmap :: "'c kvdb \<Rightarrow> string \<rightharpoonup> entry" where
  "dmap db \<equiv> tt_map ekey (dict db)"

definition db_rel :: "'c env \<Rightarrow> 'c kvdb \<Rightarrow> adb \<Rightarrow> bool" where
  "db_rel E db A = (tt_inv strcmp nul_free (hash_str E) ekey (dict db) \<and> tt_inv strcmp nul_free (hash_str E) fst (exp_dict db)
     \<and> cache db = None \<and> (\<forall>k. rel_option (holds (hash_str E)) (dmap db k) (vals A k))
     \<and> (\<forall>k. exps A k = map_option snd (tt_map fst (exp_dict db) k)) \<and> alog A = rlog db
     \<and> (\<forall>k t. exps A k = Some t \<longrightarrow> vals A k \<noteq> None))"

section \<open>Building blocks\<close>

lemma db_relD:
  assumes "db_rel E db A"
  shows "tt_inv strcmp nul_free (hash_str E) ekey (dict db)" "tt_inv strcmp nul_free (hash_str E) fst (exp_dict db)" "cache db = None"
    "rel_option (holds (hash_str E)) (dmap db k) (vals A k)" "exps A k = map_option snd (tt_map fst (exp_dict db) k)" "alog A = rlog db"
    "exps A k = Some t \<Longrightarrow> vals A k \<noteq> None"
  using assms unfolding db_rel_def by blast+

lemma db_rel_dict:
  assumes "db_rel E db A" "tt_inv strcmp nul_free (hash_str E) ekey d" "tt_map ekey d = dmap db"
  shows "db_rel E (db\<lparr>dict := d\<rparr>) A"
  using assms by (simp add: db_rel_def)

lemma dmap_key: "dmap db k = Some e \<Longrightarrow> ekey e = k"
  using keyed_map_SomeD by (fastforce simp: tt_map_def)

text \<open>What a node found under a key is.\<close>

definition found :: "'c env \<Rightarrow> 'c kvdb \<Rightarrow> string \<Rightarrow> aval option \<Rightarrow> entry option \<Rightarrow> bool" where
  "found E db k a r = (r = dmap db k \<and> rel_option (holds (hash_str E)) r a)"

lemma foundD:
  assumes "found E db k a r"
  shows "r = None \<longleftrightarrow> a = None" "r = Some e \<Longrightarrow> dmap db k = Some e \<and> ekey e = k"
    "r = Some e \<Longrightarrow> a = Some v \<Longrightarrow> dtype (edata e) = aval_type v"
  using assms dmap_key [of db k] by (auto simp: found_def rel_option_iff holds_def split: option.splits)

lemma dict_Find_rel:
  assumes "db_rel E db A" "nul_free k"
  shows "\<exists>r db'. dict_Find E k db = Some (r, db') \<and> db_rel E db' A \<and> found E db' k (vals A k) r"
proof -
  obtain d where d: "TreeTable_Find strcmp (hash_str E) ekey k (dict db) = Some (dmap db k, d)"
      "tt_inv strcmp nul_free (hash_str E) ekey d" "tt_map ekey d = dmap db"
    using str_key.tt_Find [OF db_relD(1) [OF assms(1)] assms(2)] by blast
  then have "dict_Find E k db = Some (dmap db k, db\<lparr>dict := d\<rparr>)" by (simp add: dict_Find_def)
  moreover have "db_rel E (db\<lparr>dict := d\<rparr>) A" using db_rel_dict [OF assms(1) d(2,3)] .
  moreover have "found E (db\<lparr>dict := d\<rparr>) k (vals A k) (dmap db k)"
    using db_relD(4) [OF assms(1)] d(3) by (simp add: found_def)
  ultimately show ?thesis by blast
qed

lemma set_data_rel:
  assumes "db_rel E db A" "dmap db k = Some e" "dtype (edata e) = aval_type (aval_of p)" "any_ok (hash_str E) p"
  shows "db_rel E (set_data e p db) (A\<lparr>vals := (vals A)(k \<mapsto> aval_of p)\<rparr>)"
proof -
  let ?e = "e\<lparr>edata := (edata e)\<lparr>any_data := Some p\<rparr>\<rparr>"
  have k: "ekey e = k" using dmap_key [OF assms(2)] .
  have m: "tt_map ekey (TreeTable_assign ekey ?e (dict db)) = (dmap db)(k \<mapsto> ?e)"
    using TreeTable_assign_map [of ekey "dict db" ?e e] assms(2) k by simp
  have "holds (hash_str E) ?e (aval_of p)" using assms(3,4) by (simp add: holds_def)
  then show ?thesis using assms(1) m TreeTable_assign_inv [of strcmp nul_free "hash_str E" ekey "dict db" ?e]
    by (auto simp: db_rel_def set_data_def)
qed

lemma set_data_simps [simp]:
  "cache (set_data e p db) = cache db" "exp_dict (set_data e p db) = exp_dict db" "rlog (set_data e p db) = rlog db"
  by (simp_all add: set_data_def)

text \<open>A new node counts once its data has been set.\<close>

lemma Insert_new_rel:
  assumes "db_rel E db A" "nul_free k" "vals A k = None"
  shows "\<exists>e db'. InsertKvWithDuplicate E k ty db = Some (True, e, db') \<and> cache db' = None \<and> dtype (edata e) = ty
    \<and> (\<forall>p. aval_type (aval_of p) = ty \<and> any_ok (hash_str E) p \<longrightarrow>
         db_rel E (set_data e p db') (A\<lparr>vals := (vals A)(k \<mapsto> aval_of p)\<rparr>)
         \<and> dmap (set_data e p db') k = Some (e\<lparr>edata := (edata e)\<lparr>any_data := Some p\<rparr>\<rparr>))"
proof -
  let ?e = "\<lparr>eaddr = next_addr db, ekey = k, edata = \<lparr>dtype = ty, any_data = None\<rparr>\<rparr>"
  have "dmap db k = None" using db_relD(4) [OF assms(1), of k] assms(3) by simp
  then obtain d where d: "TreeTable_InsertWithDuplicate strcmp (hash_str E) ekey ?e (dict db) = Some (True, ?e, d)"
      "tt_inv strcmp nul_free (hash_str E) ekey d" "tt_map ekey d = (dmap db)(k \<mapsto> ?e)"
    using str_key.tt_Insert [OF db_relD(1) [OF assms(1)], of ?e] assms(2) by auto
  let ?db = "db\<lparr>dict := d, next_addr := next_addr db + 1\<rparr>"
  have p: "db_rel E (set_data ?e p ?db) (A\<lparr>vals := (vals A)(k \<mapsto> aval_of p)\<rparr>)
      \<and> dmap (set_data ?e p ?db) k = Some (?e\<lparr>edata := (edata ?e)\<lparr>any_data := Some p\<rparr>\<rparr>)"
    if "aval_type (aval_of p) = ty" "any_ok (hash_str E) p" for p
  proof -
    let ?e' = "?e\<lparr>edata := (edata ?e)\<lparr>any_data := Some p\<rparr>\<rparr>"
    have m: "tt_map ekey (TreeTable_assign ekey ?e' d) = (dmap db)(k \<mapsto> ?e')"
      using TreeTable_assign_map [of ekey d ?e' ?e] d(3) by simp
    have "holds (hash_str E) ?e' (aval_of p)" using that by (simp add: holds_def)
    then show ?thesis using assms(1) m d(2) TreeTable_assign_inv [of strcmp nul_free "hash_str E" ekey d ?e']
      by (auto simp: db_rel_def set_data_def)
  qed
  have "InsertKvWithDuplicate E k ty db = Some (True, ?e, ?db)" using d(1) by (simp add: InsertKvWithDuplicate_def)
  moreover have "cache ?db = None" "dtype (edata ?e) = ty" using db_relD(3) [OF assms(1)] by simp_all
  ultimately show ?thesis using p by blast
qed

lemma Insert_dup_rel:
  assumes "db_rel E db A" "nul_free k" "vals A k = Some v"
  shows "\<exists>e db'. InsertKvWithDuplicate E k ty db = Some (False, e, db') \<and> db_rel E db' A \<and> found E db' k (Some v) (Some e)"
proof -
  let ?e = "\<lparr>eaddr = next_addr db, ekey = k, edata = \<lparr>dtype = ty, any_data = None\<rparr>\<rparr>"
  obtain e where e: "dmap db k = Some e" "holds (hash_str E) e v"
    using db_relD(4) [OF assms(1), of k] assms(3) by (auto simp: rel_option_iff split: option.splits)
  then obtain d where d: "TreeTable_InsertWithDuplicate strcmp (hash_str E) ekey ?e (dict db) = Some (False, e, d)"
      "tt_inv strcmp nul_free (hash_str E) ekey d" "tt_map ekey d = dmap db"
    using str_key.tt_Insert [OF db_relD(1) [OF assms(1)], of ?e] assms(2) by auto
  let ?db = "db\<lparr>dict := d, next_addr := next_addr db + 1\<rparr>"
  have "db_rel E ?db A" using assms(1) d(2,3) by (simp add: db_rel_def)
  moreover have "found E ?db k (Some v) (Some e)" using e d(3) by (simp add: found_def)
  moreover have "InsertKvWithDuplicate E k ty db = Some (False, e, ?db)" using d(1) by (simp add: InsertKvWithDuplicate_def)
  ultimately show ?thesis by blast
qed

text \<open>Removal of a key from the dictionary; the abstract step is legal when the key has no expiration left.\<close>

lemma dict_Extract_rel:
  assumes "db_rel E db A" "nul_free k"
  shows "\<exists>h d. 0 \<le> h \<and> TreeTable_Extract strcmp (hash_str E) ekey k (dict db) = Some (map_option (\<lambda>e. (e, h)) (dmap db k), d)
    \<and> tt_inv strcmp nul_free (hash_str E) ekey d \<and> tt_map ekey d = (dmap db)(k := None)"
  by (rule str_key.tt_Extract [OF db_relD(1) [OF assms(1)] assms(2)])

lemma dmap_None_iff: "db_rel E db A \<Longrightarrow> dmap db k = None \<longleftrightarrow> vals A k = None"
  using db_relD(4) [of E db A k] by (auto simp: rel_option_iff split: option.splits)

lemma removed_rel:
  assumes "db_rel E db A" "tt_inv strcmp nul_free (hash_str E) ekey d" "tt_map ekey d = (dmap db)(k := None)"
    "tt_inv strcmp nul_free (hash_str E) fst x" "tt_map fst x = (tt_map fst (exp_dict db))(k := None)"
  shows "db_rel E (db\<lparr>dict := d, exp_dict := x\<rparr>) (A\<lparr>vals := (vals A)(k := None), exps := (exps A)(k := None)\<rparr>)"
  using assms unfolding db_rel_def by auto

lemma exp_Erase_rel:
  assumes "tt_inv strcmp nul_free (hash_str E) fst (exp_dict db)" "nul_free k"
  shows "\<exists>x. exp_Erase E k db = Some (db\<lparr>exp_dict := x\<rparr>) \<and> tt_inv strcmp nul_free (hash_str E) fst x
    \<and> tt_map fst x = (tt_map fst (exp_dict db))(k := None)"
  using str_key.tt_Erase [OF assms] by (fastforce simp: exp_Erase_def)

lemma exp_Erase_keep:
  assumes "db_rel E db A" "nul_free k"
  shows "\<exists>db'. exp_Erase E k db = Some db' \<and> db_rel E db' (A\<lparr>exps := (exps A)(k := None)\<rparr>)"
proof -
  obtain x where x: "exp_Erase E k db = Some (db\<lparr>exp_dict := x\<rparr>)" "tt_inv strcmp nul_free (hash_str E) fst x"
      "tt_map fst x = (tt_map fst (exp_dict db))(k := None)"
    using exp_Erase_rel [OF db_relD(2) [OF assms(1)] assms(2)] by blast
  have "db_rel E (db\<lparr>exp_dict := x\<rparr>) (A\<lparr>exps := (exps A)(k := None)\<rparr>)"
    using assms(1) x(2,3) unfolding db_rel_def by auto
  with x(1) show ?thesis by blast
qed

lemma exp_Find_rel:
  assumes "db_rel E db A" "nul_free k"
  shows "\<exists>r db'. exp_Find E k db = Some (r, db') \<and> db_rel E db' A \<and> map_option snd r = exps A k"
proof -
  obtain x where x: "TreeTable_Find strcmp (hash_str E) fst k (exp_dict db) = Some (tt_map fst (exp_dict db) k, x)"
      "tt_inv strcmp nul_free (hash_str E) fst x" "tt_map fst x = tt_map fst (exp_dict db)"
    using str_key.tt_Find [OF db_relD(2) [OF assms(1)] assms(2)] by blast
  have "db_rel E (db\<lparr>exp_dict := x\<rparr>) A" using assms(1) x(2,3) by (simp add: db_rel_def)
  moreover have "exp_Find E k db = Some (tt_map fst (exp_dict db) k, db\<lparr>exp_dict := x\<rparr>)" using x(1) by (simp add: exp_Find_def)
  ultimately show ?thesis using db_relD(5) [OF assms(1)] by metis
qed

text \<open>Finding a node and erasing it.\<close>

lemma FindNode_absent:
  assumes "tt_inv strcmp nul_free hf gk ht" "nul_free k" "tt_map gk ht k = None"
  shows "\<exists>ht'. TreeTable_FindNode strcmp hf gk k ht = Some (None, ht') \<and> tt_inv strcmp nul_free hf gk ht' \<and> tt_map gk ht' = tt_map gk ht"
proof -
  obtain ht' where "TreeTable_Find strcmp hf gk k ht = Some (None, ht')" "tt_inv strcmp nul_free hf gk ht'" "tt_map gk ht' = tt_map gk ht"
    using str_key.tt_Find [OF assms(1,2)] assms(3) by auto
  then show ?thesis by (auto simp: TreeTable_Find_def split: option.splits) (metis not_None_eq prod.exhaust)
qed

lemma FindNode_present:
  assumes "tt_inv strcmp nul_free hf gk ht" "nul_free k" "tt_map gk ht k = Some x"
  obtains loc ht1 ht2 where "TreeTable_FindNode strcmp hf gk k ht = Some (Some loc, ht1)" "deref_node loc ht1 = Some x"
    "tt_inv strcmp nul_free hf gk ht1" "tt_map gk ht1 = tt_map gk ht"
    "TreeTable_EraseNode loc ht1 = Some (True, ht2)" "tt_inv strcmp nul_free hf gk ht2" "tt_map gk ht2 = (tt_map gk ht)(k := None)"
proof -
  obtain loc ht1 ht2 where f: "TreeTable_FindNode strcmp hf gk k ht = Some (Some loc, ht1)" "deref_node loc ht1 = Some x"
      "TreeTable_EraseNode loc ht1 = Some (True, ht2)" "tt_inv strcmp nul_free hf gk ht2" "tt_map gk ht2 = (tt_map gk ht)(k := None)"
    using str_key.tt_EraseNode [OF assms] by blast
  have "tt_inv strcmp nul_free hf gk ht1 \<and> tt_map gk ht1 = tt_map gk ht"
    by (rule str_key.tt_FindNode [OF assms(1,2)]) (use f(1) in auto)
  with f that show thesis by blast
qed

section \<open>Expiration\<close>

definition expired :: "'c env \<Rightarrow> string \<Rightarrow> adb \<Rightarrow> bool" where
  "expired E k A = (lazy_expiration (config E) \<and> (case exps A k of None \<Rightarrow> False | Some t \<Rightarrow> t \<le> cur_ms E))"

definition log_del :: "'c env \<Rightarrow> string \<Rightarrow> adb \<Rightarrow> adb" where
  "log_del E k A = (if log_method (config E) = LM_REQUEST then A\<lparr>alog := alog A @ [k]\<rparr> else A)"

definition expire_key :: "'c env \<Rightarrow> string \<Rightarrow> adb \<Rightarrow> adb" where
  "expire_key E k A = (if expired E k A
     then log_del E k (A\<lparr>vals := (vals A)(k := None), exps := (exps A)(k := None)\<rparr>) else A)"

lemma log_del_simps [simp]: "vals (log_del E k A) = vals A" "exps (log_del E k A) = exps A"
  by (simp_all add: log_del_def)

lemma AppendDel_rel: "db_rel E db A \<Longrightarrow> db_rel E (AppendDel E k db) (log_del E k A)"
  by (simp add: db_rel_def AppendDel_def log_del_def)

lemma AppendDel_simps [simp]: "dict (AppendDel E k db) = dict db" "exp_dict (AppendDel E k db) = exp_dict db" "cache (AppendDel E k db) = cache db"
  by (simp_all add: AppendDel_def)

lemma CheckExpire_rel:
  assumes rel: "db_rel E db A" and k: "nul_free k"
  shows "\<exists>db'. CheckExpire E k db = Some (expired E k A, db') \<and> db_rel E db' (expire_key E k A)"
proof (cases "lazy_expiration (config E)")
  case False
  with rel show ?thesis by (simp add: CheckExpire_def expired_def expire_key_def)
next
  case lazy: True
  note ix = db_relD(2) [OF rel]
  show ?thesis
  proof (cases "tt_map fst (exp_dict db) k")
    case None
    then obtain x where x: "TreeTable_FindNode strcmp (hash_str E) fst k (exp_dict db) = Some (None, x)"
        "tt_inv strcmp nul_free (hash_str E) fst x" "tt_map fst x = tt_map fst (exp_dict db)"
      using FindNode_absent [OF ix k] by blast
    have "db_rel E (db\<lparr>exp_dict := x\<rparr>) A" using rel x(2,3) by (simp add: db_rel_def)
    moreover have "\<not> expired E k A" using db_relD(5) [OF rel, of k] None by (simp add: expired_def)
    ultimately show ?thesis using lazy x(1) by (simp add: CheckExpire_def exp_FindNode_def expire_key_def)
  next
    case (Some kt)
    then have t: "exps A k = Some (snd kt)" using db_relD(5) [OF rel, of k] by simp
    obtain loc x x' where x: "TreeTable_FindNode strcmp (hash_str E) fst k (exp_dict db) = Some (Some loc, x)" "deref_node loc x = Some kt"
        "tt_inv strcmp nul_free (hash_str E) fst x" "tt_map fst x = tt_map fst (exp_dict db)"
        "TreeTable_EraseNode loc x = Some (True, x')" "tt_inv strcmp nul_free (hash_str E) fst x'"
        "tt_map fst x' = (tt_map fst (exp_dict db))(k := None)"
      by (rule FindNode_present [OF ix k Some])
    show ?thesis
    proof (cases "snd kt \<le> cur_ms E")
      case False
      have "db_rel E (db\<lparr>exp_dict := x\<rparr>) A" using rel x(3,4) by (simp add: db_rel_def)
      with False lazy x(1,2) t show ?thesis by (simp add: CheckExpire_def exp_FindNode_def expire_key_def expired_def)
    next
      case True
      obtain e where e: "dmap db k = Some e" using db_relD(7) [OF rel t] dmap_None_iff [OF rel, of k] by auto
      obtain h d where d: "TreeTable_Extract strcmp (hash_str E) ekey k (dict db) = Some (Some (e, h), d)" "tt_inv strcmp nul_free (hash_str E) ekey d"
          "tt_map ekey d = (dmap db)(k := None)"
        using dict_Extract_rel [OF rel k] e by auto
      from d(1) have "dict_Extract E k (db\<lparr>exp_dict := x'\<rparr>) = Some (Some (e, h), db\<lparr>dict := d, exp_dict := x'\<rparr>)"
        by (simp add: dict_Extract_def)
      moreover note AppendDel_rel [OF removed_rel [OF rel d(2,3) x(6,7)], of k]
      ultimately show ?thesis using True lazy x(1,2,5) t
        by (simp add: CheckExpire_def exp_FindNode_def expire_key_def expired_def assertion_def)
    qed
  qed
qed

section \<open>Without shards\<close>

text \<open>The blocks that do nothing when there is neither a cache nor a shard controller.\<close>

lemma plain_shard:
  assumes "\<not> IsSharder (config E)"
  shows "CHECK_SHARD_IS_LOCKED_KEY E k db = Some (None, db)" "AddKeyToShard E e db = Some db" "RemoveKeyFromShard E e db = Some db"
  using assms by (simp_all add: CHECK_SHARD_IS_LOCKED_KEY_def AddKeyToShard_def RemoveKeyFromShard_def)

lemma plain_cache:
  assumes "cache db = None"
  shows "CacheAdd E e db = Some db" "CacheUpdate E e db = Some db" "CacheRemove E e db = Some db" "TryReplacekey E key db = Some db"
  using assms by (simp_all add: CacheAdd_def CacheUpdate_def CacheRemove_def TryReplacekey_def)

lemma early_None [simp]: "early (Some (None, db)) r f = f db"
  by (simp add: early_def)

lemma early_Some [simp]: "early (Some (Some c, db)) r f = Some (c, r, db)"
  by (simp add: early_def)

section \<open>Refinement of a command\<close>

text \<open>The command returns, with the status of the specification and a reply related to its reply, in a state that represents its state.\<close>

definition refines_by :: "('c kvdb \<Rightarrow> 'r \<Rightarrow> 's \<Rightarrow> bool) \<Rightarrow> 'c env \<Rightarrow> ('r, 'c) result \<Rightarrow> status_code \<times> 's \<times> adb \<Rightarrow> bool" where
  "refines_by Q E res spec =
     (\<exists>r db. res = Some (fst spec, r, db) \<and> Q db r (fst (snd spec)) \<and> db_rel E db (snd (snd spec)))"

abbreviation refines :: "'c env \<Rightarrow> ('r, 'c) result \<Rightarrow> status_code \<times> 'r \<times> adb \<Rightarrow> bool" where
  "refines \<equiv> refines_by (\<lambda>_. (=))"

lemma refinesI: "db_rel E db A \<Longrightarrow> Q db r s \<Longrightarrow> refines_by Q E (Some (st, r, db)) (st, s, A)"
  by (simp add: refines_by_def)

text \<open>The specification of a command on a value of one type.\<close>

definition typed :: "data_type \<Rightarrow> string \<Rightarrow> 'r \<Rightarrow> adb \<Rightarrow> (aval \<Rightarrow> status_code \<times> 'r \<times> adb) \<Rightarrow> status_code \<times> 'r \<times> adb" where
  "typed ty k r A g = (case vals A k of
      None \<Rightarrow> (S_NONEXISTS, r, A)
    | Some v \<Rightarrow> if aval_type v \<noteq> ty then (S_EXISTS_DIFF_TYPE, r, A) else g v)"

abbreviation put :: "string \<Rightarrow> aval \<Rightarrow> adb \<Rightarrow> adb" where
  "put k v A \<equiv> A\<lparr>vals := (vals A)(k \<mapsto> v)\<rparr>"

lemma put_same: "vals A k = Some v \<Longrightarrow> put k v A = A"
  by (simp add: fun_upd_idem)

lemma ERROR_ROUTINE_refines:
  assumes "db_rel E db A" "nul_free k"
    and f: "\<And>e v db. db_rel E db A \<Longrightarrow> dmap db k = Some e \<Longrightarrow> holds (hash_str E) e v \<Longrightarrow> aval_type v = ty \<Longrightarrow> vals A k = Some v
      \<Longrightarrow> refines_by Q E (f e db) (g v)"
    and r: "\<And>db. Q db r s"
  shows "refines_by Q E (ERROR_ROUTINE_KV E ty k r f db) (typed ty k s A g)"
proof -
  obtain x db' where x: "dict_Find E k db = Some (x, db')" "db_rel E db' A" "found E db' k (vals A k) x"
    using dict_Find_rel [OF assms(1,2)] by blast
  show ?thesis
  proof (cases "vals A k")
    case None
    with foundD(1) [OF x(3)] have "x = None" by simp
    with x(1,2) None show ?thesis by (simp add: ERROR_ROUTINE_KV_def typed_def refinesI r)
  next
    case (Some v)
    with x(3) obtain e where e: "x = Some e" "dmap db' k = Some e" "holds (hash_str E) e v"
      by (auto simp: found_def rel_option_iff split: option.splits)
    then have "dtype (edata e) = aval_type v" unfolding holds_def by blast
    with x(1,2) e Some f [OF x(2) e(2,3)] show ?thesis by (simp add: ERROR_ROUTINE_KV_def typed_def refinesI r)
  qed
qed

lemma vals_expired [simp]: "expired E k A \<Longrightarrow> vals (expire_key E k A) k = None"
  by (simp add: expire_key_def log_del_def)

lemma read_cmd_refines:
  assumes "db_rel E db A" "nul_free k"
    and "\<And>e v db. db_rel E db (expire_key E k A) \<Longrightarrow> dmap db k = Some e \<Longrightarrow> holds (hash_str E) e v \<Longrightarrow> aval_type v = ty
      \<Longrightarrow> vals (expire_key E k A) k = Some v \<Longrightarrow> refines_by Q E (f e db) (g v)"
    and "\<And>db. Q db r s"
  shows "refines_by Q E (read_cmd E ty k r f db) (typed ty k s (expire_key E k A) g)"
proof -
  obtain db' where x: "CheckExpire E k db = Some (expired E k A, db')" "db_rel E db' (expire_key E k A)"
    using CheckExpire_rel [OF assms(1,2)] by blast
  show ?thesis
  proof (cases "expired E k A")
    case True
    with x assms(4) show ?thesis by (simp add: read_cmd_def CHECK_EXPIRE_ROUTINE_def typed_def refinesI)
  next
    case False
    with x ERROR_ROUTINE_refines [OF x(2) assms(2), of ty Q f g r s] assms(3,4) show ?thesis
      by (simp add: read_cmd_def CHECK_EXPIRE_ROUTINE_def)
  qed
qed

lemma write_cmd_refines:
  assumes "\<not> IsSharder (config E)" "db_rel E db A" "nul_free k"
    and "\<And>e v db. db_rel E db (expire_key E k A) \<Longrightarrow> dmap db k = Some e \<Longrightarrow> holds (hash_str E) e v \<Longrightarrow> aval_type v = ty
      \<Longrightarrow> vals (expire_key E k A) k = Some v \<Longrightarrow> refines_by Q E (f e db) (g v)"
    and "\<And>db. Q db r s"
  shows "refines_by Q E (write_cmd E ty k r f db) (typed ty k s (expire_key E k A) g)"
  using read_cmd_refines [OF assms(2,3), of ty Q f g r s] assms(4,5) by (simp add: write_cmd_def plain_shard [OF assms(1)])

text \<open>What the casts give.\<close>

lemma holds_casts:
  assumes "holds hf e v"
  shows "aval_type v = D_STRING \<Longrightarrow> to_str e = Some (un_str v) \<and> v = VStr (un_str v)"
    "aval_type v = D_STRLIST \<Longrightarrow> to_list e = Some (un_list v) \<and> v = VList (un_list v)"
    "aval_type v = D_SORTED_SET \<Longrightarrow> \<exists>s. TO_VSET e = Some s \<and> vset_ok hf s \<and> v = VVset (vset_map s)"
    "aval_type v = D_MAP \<Longrightarrow> \<exists>m. TO_MAP e = Some m \<and> ht_inv hf fst m \<and> v = VMap (smap_of m)"
    "aval_type v = D_SET \<Longrightarrow> \<exists>s. TO_SET e = Some s \<and> hs_inv hf s \<and> v = VSet (members s)"
proof -
  obtain p where p: "any_data (edata e) = Some p" "any_ok hf p" "aval_of p = v" using assms by (auto simp: holds_def)
  show "aval_type v = D_STRING \<Longrightarrow> to_str e = Some (un_str v) \<and> v = VStr (un_str v)"
    "aval_type v = D_STRLIST \<Longrightarrow> to_list e = Some (un_list v) \<and> v = VList (un_list v)"
    "aval_type v = D_SORTED_SET \<Longrightarrow> \<exists>s. TO_VSET e = Some s \<and> vset_ok hf s \<and> v = VVset (vset_map s)"
    "aval_type v = D_MAP \<Longrightarrow> \<exists>m. TO_MAP e = Some m \<and> ht_inv hf fst m \<and> v = VMap (smap_of m)"
    "aval_type v = D_SET \<Longrightarrow> \<exists>s. TO_SET e = Some s \<and> hs_inv hf s \<and> v = VSet (members s)"
    using p by (cases p; fastforce simp: to_str_def to_list_def TO_VSET_def TO_MAP_def TO_SET_def)+
qed

text \<open>Writing a value of the same type.\<close>

lemma put_refines:
  assumes "db_rel E db A" "dmap db k = Some e" "holds (hash_str E) e v" "aval_type (aval_of p) = aval_type v" "any_ok (hash_str E) p"
  shows "refines E (Some (st, r, set_data e p db)) (st, r, put k (aval_of p) A)"
proof -
  have "dtype (edata e) = aval_type v" using assms(3) unfolding holds_def by blast
  then show ?thesis using set_data_rel [OF assms(1,2), of p] assms(4,5) by (simp add: refinesI)
qed

lemma keep_refines:
  assumes "db_rel E db A" "dmap db k = Some e" "holds (hash_str E) e v" "vals A k = Some v" "aval_of p = v" "any_ok (hash_str E) p"
  shows "refines E (Some (st, r, set_data e p db)) (st, r, A)"
  using put_refines [OF assms(1-3), of p st r] assms(4-6) put_same [OF assms(4)] by simp

end
