(* ===== verification/KvdbStr.thy ===== *)
theory KvdbStr
  imports KvdbInv
begin

text \<open>
  Specifications of the commands over the abstract database, and the string and list commands of a database instance
  without cache and without shard controller: each returns with the specified status and reply in a state that
  represents the specified one. Erasure leaves an expiration behind and \<^verbatim>\<open>ListGetRange\<close> copies backwards past the
  middle; the conditions and the specification say so.
\<close>

section \<open>Specifications\<close>

definition a_new :: "string \<Rightarrow> aval \<Rightarrow> adb \<Rightarrow> status_code \<times> unit \<times> adb" where
  "a_new k x A = (if vals A k = None then (S_OK, (), put k x A) else (S_EXISTS, (), A))"

definition a_update :: "'c env \<Rightarrow> data_type \<Rightarrow> string \<Rightarrow> (aval \<Rightarrow> aval) \<Rightarrow> adb \<Rightarrow> status_code \<times> unit \<times> adb" where
  "a_update E ty k g A = typed ty k () (expire_key E k A) (\<lambda>v. (S_OK, (), put k (g v) (expire_key E k A)))"

definition a_query :: "'c env \<Rightarrow> data_type \<Rightarrow> string \<Rightarrow> 'r \<Rightarrow> (aval \<Rightarrow> status_code \<times> 'r) \<Rightarrow> adb \<Rightarrow> status_code \<times> 'r \<times> adb" where
  "a_query E ty k r h A = typed ty k r (expire_key E k A) (\<lambda>v. (fst (h v), snd (h v), expire_key E k A))"

definition a_set :: "'c env \<Rightarrow> string \<Rightarrow> string \<Rightarrow> adb \<Rightarrow> status_code \<times> unit \<times> adb" where
  "a_set E k s A =
     (if expired E k A then (S_NONEXISTS, (), expire_key E k A)
      else if vals A k = None then (S_OK, (), put k (VStr s) A)
      else typed D_STRING k () A (\<lambda>v. (S_OK, (), put k (VStr s) A)))"

text \<open>Commands that create the container of a new key; they do not look at expirations.\<close>

definition a_extend :: "string \<Rightarrow> aval \<Rightarrow> 'r \<Rightarrow> (aval \<Rightarrow> 'r \<times> aval) \<Rightarrow> adb \<Rightarrow> status_code \<times> 'r \<times> adb" where
  "a_extend k fresh r g A =
     (let v = (case vals A k of None \<Rightarrow> fresh | Some v \<Rightarrow> v) in
      if aval_type v = aval_type fresh then (S_OK, fst (g v), put k (snd (g v)) A) else (S_EXISTS_DIFF_TYPE, r, A))"

definition a_remove :: "string \<Rightarrow> adb \<Rightarrow> adb" where
  "a_remove k A = A\<lparr>vals := (vals A)(k := None), exps := (exps A)(k := None)\<rparr>"

definition a_delete :: "string \<Rightarrow> adb \<Rightarrow> status_code \<times> unit \<times> adb" where
  "a_delete k A = (if vals A k = None then (S_NONEXISTS, (), A) else (S_OK, (), a_remove k A))"

definition a_erase :: "data_type \<Rightarrow> string \<Rightarrow> adb \<Rightarrow> status_code \<times> unit \<times> adb" where
  "a_erase ty k A = typed ty k () A (\<lambda>v. (S_OK, (), a_remove k A))"

section \<open>Strings\<close>

lemma InsertKv_refines:
  assumes "db_rel E db A" "nul_free k"
    and new: "\<And>e db. cache db = None \<Longrightarrow> dtype (edata e) = ty \<Longrightarrow> db_rel E (set_data e p db) (put k (aval_of p) A) \<Longrightarrow>
      refines E (f e db) (S_OK, (), put k (aval_of p) A)"
    and p: "aval_type (aval_of p) = ty" "any_ok (hash_str E) p"
  shows "refines E (do { (kv, db) \<leftarrow> InsertKv E k ty db; case kv of None \<Rightarrow> Some (S_EXISTS, (), db) | Some e \<Rightarrow> f e db })
    (a_new k (aval_of p) A)"
proof (cases "vals A k")
  case None
  obtain e db' where e: "InsertKvWithDuplicate E k ty db = Some (True, e, db')" "cache db' = None" "dtype (edata e) = ty"
      "db_rel E (set_data e p db') (put k (aval_of p) A)"
    using Insert_new_rel [OF assms(1,2) None, of ty] p by metis
  from new [OF e(2-4)] e(1) None show ?thesis by (simp add: InsertKv_def a_new_def)
next
  case (Some v)
  with Insert_dup_rel [OF assms(1,2) Some, of ty] show ?thesis by (auto simp: InsertKv_def a_new_def intro!: refinesI)
qed

lemma InsertStr_refines:
  assumes "\<not> IsSharder (config E)" "db_rel E db A" "nul_free k"
  shows "refines E (InsertStr E k v db) (a_new k (VStr v) A)"
  using InsertKv_refines [OF assms(2,3), of D_STRING "PString v"
      "\<lambda>e db. do { db \<leftarrow> CacheAdd E e (set_data e (PString v) db); db \<leftarrow> AddKeyToShard E e db; Some (S_OK, (), db) }"]
    assms(1) db_relD(3) [OF assms(2)]
  by (simp add: InsertStr_def plain_shard plain_cache refinesI)

lemma ListAdd_refines:
  assumes "\<not> IsSharder (config E)" "db_rel E db A" "nul_free k"
  shows "refines E (ListAdd E k els db) (a_new k (VList els) A)"
  using InsertKv_refines [OF assms(2,3), of D_STRLIST "PStrList els"
      "\<lambda>e db. do { db \<leftarrow> CacheAdd E e db; db \<leftarrow> AddKeyToShard E e db; Some (S_OK, (), set_data e (PStrList els) db) }"]
    assms(1) by (simp add: ListAdd_def plain_shard plain_cache refinesI)

text \<open>\<^verbatim>\<open>GetStr\<close> without the string behind the pointer is a query for the node.\<close>

lemma if_flip: "(if P then x else y) = (if \<not> P then y else x)"
  by simp

lemma GetStr_read: "GetStr E k = read_cmd E D_STRING k None (\<lambda>e db. do { db \<leftarrow> CacheUpdate E e db; Some (S_OK, Some e, db) })"
  unfolding GetStr_def [abs_def] read_cmd_def [abs_def] ERROR_ROUTINE_KV_def [abs_def] if_flip [of "_ = D_STRING"] by (rule refl)

text \<open>The node behind the pointer \<^verbatim>\<open>GetStr\<close> hands out.\<close>

definition str_node :: "'c env \<Rightarrow> string \<Rightarrow> 'c kvdb \<Rightarrow> entry option \<Rightarrow> string option \<Rightarrow> bool" where
  "str_node E k db p r = (case p of
      None \<Rightarrow> r = None
    | Some e \<Rightarrow> (\<exists>s. r = Some s \<and> to_str e = Some s \<and> dmap db k = Some e \<and> holds (hash_str E) e (VStr s)))"

abbreviation a_get :: "'c env \<Rightarrow> string \<Rightarrow> adb \<Rightarrow> status_code \<times> string option \<times> adb" where
  "a_get E k A \<equiv> a_query E D_STRING k None (\<lambda>v. (S_OK, Some (un_str v))) A"

lemma GetStr_refines:
  assumes "db_rel E db A" "nul_free k"
  shows "refines_by (str_node E k) E (GetStr E k db) (a_get E k A)"
  unfolding GetStr_read a_query_def
proof (rule read_cmd_refines [OF assms])
  fix e v and db :: "'a kvdb"
  assume a: "db_rel E db (expire_key E k A)" "dmap db k = Some e" "holds (hash_str E) e v" "aval_type v = D_STRING"
  show "refines_by (str_node E k) E (CacheUpdate E e db \<bind> (\<lambda>db. Some (S_OK, Some e, db)))
    (fst (S_OK, Some (un_str v)), snd (S_OK, Some (un_str v)), expire_key E k A)"
    using a holds_casts(1) [OF a(3,4)] by (auto simp: plain_cache db_relD(3) [OF a(1)] str_node_def intro!: refinesI)
qed (simp add: str_node_def)

lemma a_get_cases:
  assumes "vals (expire_key E k A) k = Some v"
  shows "a_get E k A = (if aval_type v = D_STRING then (S_OK, Some (un_str v), expire_key E k A) else (S_EXISTS_DIFF_TYPE, None, expire_key E k A))"
  using assms by (simp add: a_query_def typed_def)

lemma str_update_refines:
  assumes "db_rel E db A" "nul_free k"
    and f: "\<And>e s db. db_rel E db (expire_key E k A) \<Longrightarrow> dmap db k = Some e \<Longrightarrow> holds (hash_str E) e (VStr s) \<Longrightarrow>
      vals (expire_key E k A) k = Some (VStr s) \<Longrightarrow> refines E (f S_OK e s db) (S_OK, (), put k (VStr (g s)) (expire_key E k A))"
  shows "refines E (do { (code, p, db) \<leftarrow> GetStr E k db;
            if code = S_OK then do { e \<leftarrow> p; s \<leftarrow> to_str e; f code e s db } else Some (code, (), db) })
    (a_update E D_STRING k (\<lambda>v. VStr (g (un_str v))) A)"
proof -
  let ?A = "expire_key E k A"
  obtain p db' where r: "GetStr E k db = Some (fst (a_get E k A), p, db')" "str_node E k db' p (fst (snd (a_get E k A)))" "db_rel E db' ?A"
    using GetStr_refines [OF assms(1,2)] by (auto simp: refines_by_def a_query_def typed_def split: option.splits if_splits)
  show ?thesis
  proof (cases "vals ?A k")
    case None
    with r(1,3) show ?thesis by (simp add: a_query_def a_update_def typed_def refinesI)
  next
    case (Some v)
    note G = a_get_cases [OF Some]
    show ?thesis
    proof (cases "aval_type v = D_STRING")
      case False
      with r(1,3) Some show ?thesis by (simp add: G a_update_def typed_def refinesI)
    next
      case True
      with r(2) obtain e where e: "p = Some e" "to_str e = Some (un_str v)" "dmap db' k = Some e" "holds (hash_str E) e (VStr (un_str v))"
        by (auto simp: G str_node_def split: option.splits)
      have "v = VStr (un_str v)" using True by (cases v) auto
      with f [OF r(3) e(3,4)] Some r(1) e(1,2) True show ?thesis by (simp add: G a_update_def typed_def)
    qed
  qed
qed

lemma StrAppend_refines:
  assumes "\<not> IsSharder (config E)" "db_rel E db A" "nul_free k"
  shows "refines E (StrAppend E k t db) (a_update E D_STRING k (\<lambda>v. VStr (un_str v @ t)) A)"
  unfolding StrAppend_def plain_shard [OF assms(1)] early_None
proof (rule str_update_refines [OF assms(2,3), where g = "\<lambda>s. s @ t"])
  fix e s and db :: "'a kvdb"
  assume a: "db_rel E db (expire_key E k A)" "dmap db k = Some e" "holds (hash_str E) e (VStr s)"
  show "refines E (TryReplacekey E None (set_data e (PString (s @ t)) db) \<bind> (\<lambda>db. Some (S_OK, (), db))) (S_OK, (), put k (VStr (s @ t)) (expire_key E k A))"
    using put_refines [OF a, of "PString (s @ t)"] by (simp add: plain_cache db_relD(3) [OF a(1)])
qed

lemma StrPopBack_refines:
  assumes "\<not> IsSharder (config E)" "db_rel E db A" "nul_free k"
    and s: "\<And>s. vals A k = Some (VStr s) \<Longrightarrow> cnt \<le> length s \<and> length s < 2 ^ 64"
  shows "refines E (StrPopBack E k cnt db) (a_update E D_STRING k (\<lambda>v. VStr (take (length (un_str v) - cnt) (un_str v))) A)"
  unfolding StrPopBack_def plain_shard [OF assms(1)] early_None
proof (rule str_update_refines [OF assms(2,3), where g = "\<lambda>s. take (length s - cnt) s"])
  fix e s and db :: "'a kvdb"
  assume a: "db_rel E db (expire_key E k A)" "dmap db k = Some e" "holds (hash_str E) e (VStr s)"
    and v: "vals (expire_key E k A) k = Some (VStr s)"
  from v have "vals A k = Some (VStr s)" by (simp add: expire_key_def split: if_splits)
  with assms(4) have l: "cnt \<le> length s" "length s < 2 ^ 64" by auto
  then have "nat (size_t (int (length s) - int cnt)) = length s - cnt" by (simp add: size_t_def nat_diff_distrib)
  with put_refines [OF a, of "PString (take (length s - cnt) s)" S_OK "()"] l
  show "refines E (let pos = nat (size_t (int (length s) - int cnt)) in assertion (pos \<le> length s) \<bind>
      (\<lambda>_. Some (S_OK, (), set_data e (PString (take pos s @ drop (pos + cnt) s)) db))) (S_OK, (), put k (VStr (take (length s - cnt) s)) (expire_key E k A))"
    by (simp add: assertion_def)
qed

lemma SetStr_refines:
  assumes "\<not> IsSharder (config E)" "db_rel E db A" "nul_free k"
  shows "refines E (SetStr E k s db) (a_set E k s A)"
proof -
  obtain db' where x: "CheckExpire E k db = Some (expired E k A, db')" "db_rel E db' (expire_key E k A)"
    using CheckExpire_rel [OF assms(2,3)] by blast
  show ?thesis
  proof (cases "expired E k A")
    case True
    with x show ?thesis by (simp add: SetStr_def plain_shard [OF assms(1)] CHECK_EXPIRE_ROUTINE_def a_set_def refinesI)
  next
    case False
    then have A: "expire_key E k A = A" by (simp add: expire_key_def)
    note rel = x(2) [unfolded A]
    show ?thesis
    proof (cases "vals A k")
      case None
      obtain e db2 where e: "InsertKvWithDuplicate E k D_STRING db' = Some (True, e, db2)" "cache db2 = None"
          "db_rel E (set_data e (PString s) db2) (put k (VStr s) A)"
        using Insert_new_rel [OF rel assms(3) None, of D_STRING] by (metis any_ok.simps(1) aval_of.simps(1) aval_type.simps(1))
      with None False x(1) show ?thesis
        by (simp add: SetStr_def plain_shard [OF assms(1)] CHECK_EXPIRE_ROUTINE_def a_set_def plain_cache refinesI)
    next
      case (Some v)
      obtain e db2 where e: "InsertKvWithDuplicate E k D_STRING db' = Some (False, e, db2)" "db_rel E db2 A" "dmap db2 k = Some e"
          "holds (hash_str E) e v"
        using Insert_dup_rel [OF rel assms(3) Some, of D_STRING] by (auto simp: found_def)
      have t: "dtype (edata e) = aval_type v" using e(4) unfolding holds_def by blast
      from put_refines [OF e(2-4), of "PString s" S_OK "()"] holds_casts(1) [OF e(4)] db_relD(3) [OF e(2)] t e(1,2) Some False x(1)
      show ?thesis by (auto simp: SetStr_def plain_shard [OF assms(1)] CHECK_EXPIRE_ROUTINE_def a_set_def typed_def plain_cache refinesI)
    qed
  qed
qed
section \<open>Erasure by node\<close>

lemma erase_slot:
  assumes "db_rel E db A" "nul_free k" "vals A k = Some v"
  obtains loc t e t' where "TreeTable_FindNode strcmp (hash_str E) ekey k (dict db) = Some (Some loc, t)" "deref_node loc t = Some e"
    "dtype (edata e) = aval_type v" "db_rel E (db\<lparr>dict := t\<rparr>) A" "TreeTable_EraseNode loc t = Some (True, t')"
    "tt_inv strcmp nul_free (hash_str E) ekey t'" "tt_map ekey t' = (dmap db)(k := None)"
proof -
  obtain e where e: "dmap db k = Some e" "holds (hash_str E) e v"
    using db_relD(4) [OF assms(1), of k] assms(3) by (auto simp: rel_option_iff split: option.splits)
  obtain loc t t' where f: "TreeTable_FindNode strcmp (hash_str E) ekey k (dict db) = Some (Some loc, t)" "deref_node loc t = Some e"
      "tt_inv strcmp nul_free (hash_str E) ekey t" "tt_map ekey t = dmap db"
      "TreeTable_EraseNode loc t = Some (True, t')" "tt_inv strcmp nul_free (hash_str E) ekey t'" "tt_map ekey t' = (dmap db)(k := None)"
    by (rule FindNode_present [OF db_relD(1) [OF assms(1)] assms(2) e(1)])
  have "dtype (edata e) = aval_type v" using e(2) unfolding holds_def by blast
  with that [OF f(1,2) _ db_rel_dict [OF assms(1) f(3,4)] f(5-7)] show thesis by blast
qed

lemma no_slot:
  assumes "db_rel E db A" "nul_free k" "vals A k = None"
  obtains t where "TreeTable_FindNode strcmp (hash_str E) ekey k (dict db) = Some (None, t)" "db_rel E (db\<lparr>dict := t\<rparr>) A"
proof -
  have "dmap db k = None" using dmap_None_iff [OF assms(1)] assms(3) by simp
  then obtain t where "TreeTable_FindNode strcmp (hash_str E) ekey k (dict db) = Some (None, t)"
      "tt_inv strcmp nul_free (hash_str E) ekey t" "tt_map ekey t = dmap db"
    using FindNode_absent [OF db_relD(1) [OF assms(1)] assms(2)] by blast
  with that db_rel_dict [OF assms(1)] show thesis by blast
qed

lemma exps_absent: "db_rel E db A \<Longrightarrow> vals A k = None \<Longrightarrow> exps A k = None"
  using db_relD(7) [of E db A k] by (cases "exps A k") auto

lemma exps_clear_idem: "exps A k = None \<Longrightarrow> A\<lparr>exps := (exps A)(k := None)\<rparr> = A"
  by (simp add: fun_upd_idem)

lemma EraseStr_refines:
  assumes "\<not> IsSharder (config E)" "db_rel E db A" "nul_free k" "exps A k = None"
  shows "refines E (EraseStr E k db) (a_erase D_STRING k A)"
proof (cases "vals A k")
  case None
  obtain t where t: "TreeTable_FindNode strcmp (hash_str E) ekey k (dict db) = Some (None, t)" "db_rel E (db\<lparr>dict := t\<rparr>) A"
    by (rule no_slot [OF assms(2,3) None])
  obtain db' where d: "exp_Erase E k (db\<lparr>dict := t\<rparr>) = Some db'" "db_rel E db' (A\<lparr>exps := (exps A)(k := None)\<rparr>)"
    using exp_Erase_keep [OF t(2) assms(3)] by blast
  from d(2) have "db_rel E db' A" unfolding exps_clear_idem [OF assms(4)] .
  with t(1) d(1) None show ?thesis by (simp add: EraseStr_def plain_shard [OF assms(1)] a_erase_def typed_def refinesI)
next
  case (Some v)
  obtain loc t e t' where t: "TreeTable_FindNode strcmp (hash_str E) ekey k (dict db) = Some (Some loc, t)" "deref_node loc t = Some e"
      "dtype (edata e) = aval_type v" "db_rel E (db\<lparr>dict := t\<rparr>) A" "TreeTable_EraseNode loc t = Some (True, t')"
      "tt_inv strcmp nul_free (hash_str E) ekey t'" "tt_map ekey t' = (dmap db)(k := None)"
    by (rule erase_slot [OF assms(2,3) Some])
  have "tt_map fst (exp_dict db) = (tt_map fst (exp_dict db))(k := None)"
    using db_relD(5) [OF assms(2), of k] assms(4) by (auto simp: fun_eq_iff)
  then have "db_rel E (db\<lparr>dict := t', exp_dict := exp_dict db\<rparr>) (a_remove k A)"
    unfolding a_remove_def by (intro removed_rel [OF assms(2) t(6,7) db_relD(2) [OF assms(2)]])
  with t Some db_relD(3) [OF assms(2)] show ?thesis
    by (simp add: EraseStr_def plain_shard [OF assms(1)] plain_cache a_erase_def typed_def refinesI)
qed

lemma ListDel_refines:
  assumes "\<not> IsSharder (config E)" "db_rel E db A" "nul_free k"
  shows "refines E (ListDel E k db) (a_erase D_STRLIST k A)"
proof (cases "vals A k")
  case None
  obtain t where t: "TreeTable_FindNode strcmp (hash_str E) ekey k (dict db) = Some (None, t)" "db_rel E (db\<lparr>dict := t\<rparr>) A"
    by (rule no_slot [OF assms(2,3) None])
  with None show ?thesis by (simp add: ListDel_def plain_shard [OF assms(1)] a_erase_def typed_def refinesI)
next
  case (Some v)
  obtain loc t e t' where t: "TreeTable_FindNode strcmp (hash_str E) ekey k (dict db) = Some (Some loc, t)" "deref_node loc t = Some e"
      "dtype (edata e) = aval_type v" "db_rel E (db\<lparr>dict := t\<rparr>) A" "TreeTable_EraseNode loc t = Some (True, t')"
      "tt_inv strcmp nul_free (hash_str E) ekey t'" "tt_map ekey t' = (dmap db)(k := None)"
    by (rule erase_slot [OF assms(2,3) Some])
  obtain x where x: "exp_Erase E k (db\<lparr>dict := t'\<rparr>) = Some (db\<lparr>dict := t', exp_dict := x\<rparr>)" "tt_inv strcmp nul_free (hash_str E) fst x"
      "tt_map fst x = (tt_map fst (exp_dict db))(k := None)"
    using exp_Erase_rel [of E "db\<lparr>dict := t'\<rparr>" k] db_relD(2) [OF assms(2)] assms(3) by auto
  have "db_rel E (db\<lparr>dict := t', exp_dict := x\<rparr>) (a_remove k A)"
    unfolding a_remove_def by (rule removed_rel [OF assms(2) t(6,7) x(2,3)])
  with t x(1) Some db_relD(3) [OF assms(2)] show ?thesis
    by (simp add: ListDel_def plain_shard [OF assms(1)] plain_cache a_erase_def typed_def refinesI)
qed

section \<open>Lists\<close>

lemma read_query:
  assumes "db_rel E db A" "nul_free k"
    and "\<And>e v db. db_rel E db (expire_key E k A) \<Longrightarrow> dmap db k = Some e \<Longrightarrow> holds (hash_str E) e v \<Longrightarrow> aval_type v = ty
      \<Longrightarrow> vals (expire_key E k A) k = Some v \<Longrightarrow> refines_by Q E (f e db) (fst (h v), snd (h v), expire_key E k A)"
    and "\<And>db. Q db r s"
  shows "refines_by Q E (read_cmd E ty k r f db) (a_query E ty k s h A)"
  unfolding a_query_def by (rule read_cmd_refines [OF assms])

lemma write_update:
  assumes "\<not> IsSharder (config E)" "db_rel E db A" "nul_free k"
    and "\<And>e v db. db_rel E db (expire_key E k A) \<Longrightarrow> dmap db k = Some e \<Longrightarrow> holds (hash_str E) e v \<Longrightarrow> aval_type v = ty
      \<Longrightarrow> vals (expire_key E k A) k = Some v \<Longrightarrow> refines E (f e db) (S_OK, (), put k (g v) (expire_key E k A))"
  shows "refines E (write_cmd E ty k () f db) (a_update E ty k g A)"
  unfolding a_update_def by (rule write_cmd_refines [OF assms]) simp_all

lemma list_update:
  assumes "\<not> IsSharder (config E)" "db_rel E db A" "nul_free k"
  shows "refines E (write_cmd E D_STRLIST k () (\<lambda>e db. do { lst \<leftarrow> to_list e; Some (S_OK, (), set_data e (PStrList (g lst)) db) }) db)
    (a_update E D_STRLIST k (\<lambda>v. VList (g (un_list v))) A)"
proof (rule write_update [OF assms])
  fix e v and db :: "'a kvdb"
  assume a: "db_rel E db (expire_key E k A)" "dmap db k = Some e" "holds (hash_str E) e v" "aval_type v = D_STRLIST"
  from put_refines [OF a(1-3), of "PStrList (g (un_list v))"] holds_casts(2) [OF a(3,4)] a(4)
  show "refines E (to_list e \<bind> (\<lambda>lst. Some (S_OK, (), set_data e (PStrList (g lst)) db))) (S_OK, (), put k (VList (g (un_list v))) (expire_key E k A))"
    by simp
qed

lemma list_query:
  assumes "db_rel E db A" "nul_free k"
  shows "refines E (read_cmd E D_STRLIST k r (\<lambda>e db. do { lst \<leftarrow> to_list e; Some (fst (h lst), snd (h lst), db) }) db)
    (a_query E D_STRLIST k r (\<lambda>v. h (un_list v)) A)"
proof (rule read_query [OF assms])
  fix e v and db :: "'a kvdb"
  assume a: "db_rel E db (expire_key E k A)" "holds (hash_str E) e v" "aval_type v = D_STRLIST"
  from holds_casts(2) [OF a(2,3)] a(1)
  show "refines E (to_list e \<bind> (\<lambda>lst. Some (fst (h lst), snd (h lst), db))) (fst (h (un_list v)), snd (h (un_list v)), expire_key E k A)"
    by (simp add: refinesI)
qed simp

lemma ListAppend_refines:
  assumes "\<not> IsSharder (config E)" "db_rel E db A" "nul_free k" "\<not> (expired E k A \<and> log_method (config E) = LM_REQUEST)"
  shows "refines E (ListAppend E k els db) (a_extend k (VList []) () (\<lambda>v. ((), VList (un_list v @ els))) (expire_key E k A))"
proof -
  let ?A = "expire_key E k A"
  obtain db' where x: "CheckExpire E k db = Some (expired E k A, db')" "db_rel E db' ?A"
    using CheckExpire_rel [OF assms(2,3)] by blast
  have k: "key_after_expire E (expired E k A) k = k" using assms(4) by (auto simp: key_after_expire_def)
  show ?thesis
  proof (cases "vals ?A k")
    case None
    obtain e db2 where e: "InsertKvWithDuplicate E k D_STRLIST db' = Some (True, e, db2)" "cache db2 = None"
        "db_rel E (set_data e (PStrList els) db2) (put k (VList els) ?A)"
      using Insert_new_rel [OF x(2) assms(3) None, of D_STRLIST] by (metis any_ok.simps(2) aval_of.simps(2) aval_type.simps(2))
    with None x(1) k show ?thesis by (simp add: ListAppend_def plain_shard [OF assms(1)] a_extend_def plain_cache refinesI)
  next
    case (Some v)
    obtain e db2 where e: "InsertKvWithDuplicate E k D_STRLIST db' = Some (False, e, db2)" "db_rel E db2 ?A" "dmap db2 k = Some e"
        "holds (hash_str E) e v"
      using Insert_dup_rel [OF x(2) assms(3) Some, of D_STRLIST] by (auto simp: found_def)
    have t: "dtype (edata e) = aval_type v" using e(4) unfolding holds_def by blast
    from put_refines [OF e(2-4), of "PStrList (un_list v @ els)" S_OK "()"] holds_casts(2) [OF e(4)] t e(1,2) Some x(1) k
    show ?thesis by (auto simp: ListAppend_def plain_shard [OF assms(1)] a_extend_def refinesI)
  qed
qed

text \<open>What \<^verbatim>\<open>ListGetRange\<close> copies for non-negative bounds, outside the case \<open>r = n\<close> with \<open>0 < l\<close>.\<close>

definition list_range :: "int \<Rightarrow> int \<Rightarrow> string list \<Rightarrow> status_code \<times> string list" where
  "list_range l r lst =
     (let n = int (length lst) in
      if n \<le> l \<or> r < l then (S_INVALID_RANGE, [])
      else if l \<le> n - r \<or> n < r then (S_OK, take (nat (min r n - l)) (drop (nat l) lst))
      else (S_OK, rev (take (nat (r - l)) (drop (nat l + 1) lst))))"

lemma copy_back_rev: "i < length lst \<Longrightarrow> m \<le> Suc i \<Longrightarrow> copy_back lst i m = rev (take m (drop (Suc i - m) lst))"
proof (induction m arbitrary: i)
  case (Suc m)
  have "rev (take (Suc m) (drop (i - m) lst)) = lst ! i # rev (take m (drop (i - m) lst))"
    using Suc.prems take_Suc_conv_app_nth [of m "drop (i - m) lst"] by simp
  moreover have "copy_back lst (prev_pos (length lst) i) m = rev (take m (drop (i - m) lst))"
  proof (cases "m = 0")
    case False
    then have "0 < i" using Suc.prems by simp
    with Suc.IH [of "i - 1"] Suc.prems False show ?thesis by (simp add: prev_pos_def)
  qed simp
  ultimately show ?case by simp
qed simp

lemma prev_pos_funpow: "j < n \<Longrightarrow> (prev_pos n ^^ j) (n - 1) = n - 1 - j"
  by (induction j) (simp_all add: prev_pos_def)

lemma range_values_eq:
  assumes "0 \<le> l" "0 \<le> r" "l < 2 ^ 63" "r < 2 ^ 63" "length lst < 2 ^ 63" "0 < l \<longrightarrow> r \<noteq> int (length lst)"
  shows "range_values l r lst = list_range l r lst"
proof -
  let ?n = "int (length lst)"
  have s: "size_t x = x" if "0 \<le> x" "x < 2 ^ 63" for x using that by (simp add: size_t_def)
  have n: "?n < 2 ^ 63" using assms(5) by simp
  have sl: "size_t l = l" "size_t r = r" using s assms(1-4) by auto
  consider (bad) "?n \<le> l \<or> r < l" | (fwd) "\<not> (?n \<le> l \<or> r < l)" "l \<le> ?n - r \<or> ?n < r" | (bwd) "\<not> (?n \<le> l \<or> r < l)" "\<not> (l \<le> ?n - r \<or> ?n < r)"
    by blast
  then show ?thesis
  proof cases
    case bad
    with sl assms(1,2) show ?thesis by (auto simp: list_range_def range_values_def Let_def)
  next
    case fwd
    have m: "size_t (VSET_MIN r ?n - l) = min r ?n - l" using fwd(1) n assms(1,4) by (simp add: VSET_MIN_def s)
    have "l \<le> size_t (?n - r)"
    proof (cases "?n < r")
      case True
      have "size_t (?n - r) = (?n - r + 2 ^ 64) mod 2 ^ 64" unfolding size_t_def by (rule mod_add_self2 [symmetric])
      also have "\<dots> = ?n - r + 2 ^ 64" using True assms(4) by (intro mod_pos_pos_trivial) simp_all
      finally have "size_t (?n - r) = ?n - r + 2 ^ 64" .
      with assms n True show ?thesis by simp
    next
      case False
      with fwd(2) s [of "?n - r"] n assms(2) show ?thesis by simp
    qed
    with fwd sl m assms(1,2) show ?thesis by (simp add: list_range_def range_values_def Let_def)
  next
    case bwd
    with assms(1,6) have r: "r < ?n" "0 < l" by auto
    have d: "size_t (?n - r) = ?n - r" using s [of "?n - r"] r n assms(2) by simp
    have "rounds (?n - r - 1) = nat (?n - r - 1)" using s [of "?n - r - 1"] r n assms(2) by (simp add: rounds_def)
    then have "(prev_pos (length lst) ^^ rounds (?n - r - 1)) (length lst - 1) = nat r"
      using prev_pos_funpow [of "nat (?n - r - 1)" "length lst"] r assms(2) by (simp add: nat_diff_distrib)
    moreover have "size_t (VSET_MIN r ?n - l) = r - l" using bwd(1) r n assms(1,4) by (simp add: VSET_MIN_def s)
    moreover have "copy_back lst (nat r) (nat (r - l)) = rev (take (nat (r - l)) (drop (nat l + 1) lst))"
    proof -
      have "nat r < length lst" "nat (r - l) \<le> Suc (nat r)" "Suc (nat r) - nat (r - l) = nat l + 1" using r bwd(1) by linarith+
      with copy_back_rev [of "nat r" lst "nat (r - l)"] show ?thesis by metis
    qed
    ultimately show ?thesis using bwd sl d assms(1,2) by (simp add: list_range_def range_values_def Let_def)
  qed
qed

lemma ListGetRange_refines:
  assumes "db_rel E db A" "nul_free k" "\<And>lst. vals A k = Some (VList lst) \<Longrightarrow> range_values l r lst = h lst"
  shows "refines E (ListGetRange E k l r db) (a_query E D_STRLIST k [] (\<lambda>v. h (un_list v)) A)"
proof -
  have "range_values l r (un_list v) = h (un_list v)" if "vals (expire_key E k A) k = Some v" "aval_type v = D_STRLIST" for v
    using that assms(3) by (cases v) (auto simp: expire_key_def split: if_splits)
  then have "a_query E D_STRLIST k [] (\<lambda>v. range_values l r (un_list v)) A = a_query E D_STRLIST k [] (\<lambda>v. h (un_list v)) A"
    by (simp add: a_query_def typed_def split: option.splits)
  with list_query [OF assms(1,2), where h = "range_values l r" and r = "[]"] show ?thesis by (simp add: ListGetRange_def)
qed

end
