(* ===== verification/KvdbCont.thy ===== *)
theory KvdbCont
  imports KvdbStr
begin

text \<open>
  The map, set and sorted set commands of a database instance, with the loops that add several elements, related to
  maps, sets and weights of the abstract database.
\<close>

section \<open>Containers\<close>

lemma container_rel:
  assumes "\<not> IsSharder (config E)" "db_rel E db A" "nul_free k" "any_ok (hash_str E) fresh"
  obtains d db' v where "container_of E k (aval_type (aval_of fresh)) fresh db = Some (aval_type v = aval_type (aval_of fresh), d, db')"
    "v = (case vals A k of None \<Rightarrow> aval_of fresh | Some v \<Rightarrow> v)" "db_rel E db' (put k v A)" "dmap db' k = Some d" "holds (hash_str E) d v"
proof (cases "vals A k")
  case None
  let ?p = "\<lambda>e. e\<lparr>edata := (edata e)\<lparr>any_data := Some fresh\<rparr>\<rparr>"
  obtain e db1 where e: "InsertKvWithDuplicate E k (aval_type (aval_of fresh)) db = Some (True, e, db1)" "cache db1 = None"
      "dtype (edata e) = aval_type (aval_of fresh)" "db_rel E (set_data e fresh db1) (put k (aval_of fresh) A)"
      "dmap (set_data e fresh db1) k = Some (?p e)"
    using Insert_new_rel [OF assms(2,3) None, of "aval_type (aval_of fresh)"] assms(4) by blast
  then have "container_of E k (aval_type (aval_of fresh)) fresh db = Some (True, ?p e, set_data e fresh db1)"
    by (simp add: container_of_def plain_cache plain_shard [OF assms(1)])
  moreover have "holds (hash_str E) (?p e) (aval_of fresh)" using e(3) assms(4) by (simp add: holds_def)
  ultimately show thesis using e None by (intro that [of "aval_of fresh" "?p e"]) simp_all
next
  case (Some v)
  obtain e db1 where e: "InsertKvWithDuplicate E k (aval_type (aval_of fresh)) db = Some (False, e, db1)" "db_rel E db1 A" "dmap db1 k = Some e"
      "holds (hash_str E) e v"
    using Insert_dup_rel [OF assms(2,3) Some, of "aval_type (aval_of fresh)"] by (auto simp: found_def)
  have "dtype (edata e) = aval_type v" using e(4) unfolding holds_def by blast
  with e(1) have "container_of E k (aval_type (aval_of fresh)) fresh db = Some (aval_type v = aval_type (aval_of fresh), e, db1)"
    by (simp add: container_of_def)
  moreover have "db_rel E db1 (put k v A)" using e(2) unfolding put_same [OF Some] .
  ultimately show thesis using e(3,4) Some by (intro that [of v e db1]) simp_all
qed

text \<open>A command that adds to a container refines \<open>a_extend\<close> when its loop does.\<close>

lemma extend_refines:
  assumes "\<not> IsSharder (config E)" "db_rel E db A" "nul_free k" "any_ok (hash_str E) fresh"
    and loop: "\<And>d v db. db_rel E db (put k v A) \<Longrightarrow> dmap db k = Some d \<Longrightarrow> holds (hash_str E) d v \<Longrightarrow> aval_type v = aval_type (aval_of fresh) \<Longrightarrow>
      v = (case vals A k of None \<Rightarrow> aval_of fresh | Some v \<Rightarrow> v) \<Longrightarrow> refines E (f d db) (S_OK, fst (g v), put k (snd (g v)) A)"
  shows "refines E (do { (ok, d, db) \<leftarrow> container_of E k (aval_type (aval_of fresh)) fresh db;
      if ok then f d db else Some (S_EXISTS_DIFF_TYPE, r, db) }) (a_extend k (aval_of fresh) r g A)"
proof -
  obtain d db' v where c: "container_of E k (aval_type (aval_of fresh)) fresh db = Some (aval_type v = aval_type (aval_of fresh), d, db')"
    "v = (case vals A k of None \<Rightarrow> aval_of fresh | Some v \<Rightarrow> v)" "db_rel E db' (put k v A)" "dmap db' k = Some d" "holds (hash_str E) d v"
    by (rule container_rel [OF assms(1-4)])
  show ?thesis
  proof (cases "aval_type v = aval_type (aval_of fresh)")
    case True
    from loop [OF c(3-5) True c(2)] c(1) True show ?thesis by (simp add: a_extend_def c(2) [symmetric])
  next
    case False
    then have "vals A k = Some v" using c(2) by (cases "vals A k") auto
    with c(1,3) False put_same show ?thesis by (simp add: a_extend_def c(2) [symmetric] refinesI)
  qed
qed

subsection \<open>Maps\<close>

text \<open>The first value given for a field that is not there is the one that stays.\<close>

lemma map_add_loop_ok:
  "ht_inv hf fst m \<Longrightarrow> \<exists>m'. map_add_loop hf kvs n m = Some (n + card (fst ` set kvs - dom (smap_of m)), m') \<and> ht_inv hf fst m'
    \<and> smap_of m' = map_of kvs ++ smap_of m"
proof (induction kvs arbitrary: n m)
  case (Cons kv kvs)
  obtain m1 where m1: "ht_inv hf fst m1" "case ht_map fst m (fst kv) of
      Some d \<Rightarrow> HashTable_Insert hf fst kv m = Some (None, m1) \<and> ht_map fst m1 = ht_map fst m
    | None \<Rightarrow> HashTable_Insert hf fst kv m = Some (Some kv, m1) \<and> ht_map fst m1 = (ht_map fst m)(fst kv \<mapsto> kv)"
    using InsertWithDuplicate_ok [OF Cons.prems, of kv] by (force simp: HashTable_Insert_def split: option.splits)
  show ?case
  proof (cases "ht_map fst m (fst kv)")
    case None
    with m1(2) have i: "HashTable_Insert hf fst kv m = Some (Some kv, m1)" "smap_of m1 = (smap_of m)(fst kv \<mapsto> snd kv)" by (auto simp: smap_of_def fun_eq_iff)
    have "fst ` set (kv # kvs) - dom (smap_of m) = insert (fst kv) (fst ` set kvs - dom (smap_of m1))" using None i(2) by (auto simp: domIff smap_of_def)
    then have "card (fst ` set (kv # kvs) - dom (smap_of m)) = Suc (card (fst ` set kvs - dom (smap_of m1)))" using i(2) by simp
    moreover have "map_of kvs ++ smap_of m1 = map_of (kv # kvs) ++ smap_of m" using None i(2) by (cases kv) (auto simp: fun_eq_iff map_add_def smap_of_def split: option.splits)
    ultimately show ?thesis using Cons.IH [OF m1(1), of "n + 1"] i(1) by (simp del: map_of.simps)
  next
    case (Some d)
    with m1(2) have i: "HashTable_Insert hf fst kv m = Some (None, m1)" "smap_of m1 = smap_of m" by (auto simp: smap_of_def fun_eq_iff)
    have "fst ` set (kv # kvs) - dom (smap_of m) = fst ` set kvs - dom (smap_of m1)" using Some i(2) by (auto simp: domIff smap_of_def)
    moreover have "map_of kvs ++ smap_of m1 = map_of (kv # kvs) ++ smap_of m" using Some i(2) by (cases kv) (auto simp: fun_eq_iff map_add_def smap_of_def split: option.splits)
    ultimately show ?thesis using Cons.IH [OF m1(1), of n] i(1) by (simp del: map_of.simps)
  qed
qed simp

lemma map_find:
  assumes "ht_inv hf fst m"
  shows "\<exists>m'. HashTable_Find hf fst f m = Some (ht_map fst m f, m') \<and> ht_inv hf fst m' \<and> smap_of m' = smap_of m"
  using ht.find_law [OF assms, of f] by (auto simp: smap_of_def fun_eq_iff)

lemma map_command:
  assumes "holds hf e v" "aval_type v = D_MAP"
  obtains m where "TO_MAP e = Some m" "ht_inv hf fst m" "v = VMap (smap_of m)"
  using holds_casts(4) [OF assms] by blast

lemma MapAdd_refines:
  assumes "\<not> IsSharder (config E)" "db_rel E db A" "nul_free k"
  shows "refines E (MapAdd E k kvs db) (a_extend k (VMap Map.empty) None
    (\<lambda>v. (Some (card (fst ` set kvs - dom (un_map v))), VMap (map_of kvs ++ un_map v))) A)"
proof -
  let ?n = "HashTable_new :: smap"
  have n: "ht_inv (hash_str E) fst ?n" "aval_of (PMap ?n) = VMap Map.empty"
    using HashTable_new_ok [of "hash_str E" "fst :: string \<times> string \<Rightarrow> string"] by (simp_all add: smap_of_def fun_eq_iff ht_map_def keyed_map_def)
  have "refines E (do { (ok, d, db) \<leftarrow> container_of E k (aval_type (aval_of (PMap ?n))) (PMap ?n) db;
      if ok then do { m \<leftarrow> TO_MAP d; (n, m) \<leftarrow> map_add_loop (hash_str E) kvs 0 m; Some (S_OK, Some n, set_data d (PMap m) db) }
      else Some (S_EXISTS_DIFF_TYPE, None, db) })
    (a_extend k (aval_of (PMap ?n)) None (\<lambda>v. (Some (card (fst ` set kvs - dom (un_map v))), VMap (map_of kvs ++ un_map v))) A)"
  proof (rule extend_refines [OF assms])
    fix d v and db :: "'a kvdb"
    assume a: "db_rel E db (put k v A)" "dmap db k = Some d" "holds (hash_str E) d v" "aval_type v = aval_type (aval_of (PMap ?n))"
    then obtain m where m: "TO_MAP d = Some m" "ht_inv (hash_str E) fst m" "v = VMap (smap_of m)"
      by (auto elim: map_command)
    obtain m' where m': "map_add_loop (hash_str E) kvs 0 m = Some (card (fst ` set kvs - dom (smap_of m)), m')" "ht_inv (hash_str E) fst m'"
        "smap_of m' = map_of kvs ++ smap_of m"
      using map_add_loop_ok [OF m(2), of kvs 0] by auto
    from put_refines [OF a(1-3), of "PMap m'"] m m'
    show "refines E (TO_MAP d \<bind> (\<lambda>m. map_add_loop (hash_str E) kvs 0 m \<bind> (\<lambda>(n, m). Some (S_OK, Some n, set_data d (PMap m) db))))
      (S_OK, fst (Some (card (fst ` set kvs - dom (un_map v))), VMap (map_of kvs ++ un_map v)),
        put k (snd (Some (card (fst ` set kvs - dom (un_map v))), VMap (map_of kvs ++ un_map v))) A)"
      by simp
  qed (simp add: n(1))
  then show ?thesis by (simp add: MapAdd_def plain_shard [OF assms(1)] n(2) del: aval_of.simps)
qed

text \<open>A query that may move the nodes of the map it searches.\<close>

lemma map_query:
  assumes "db_rel E db A" "nul_free k"
    and body: "\<And>m. ht_inv (hash_str E) fst m \<Longrightarrow> \<exists>m'. f m = Some (fst (h (smap_of m)), snd (h (smap_of m)), m')
      \<and> ht_inv (hash_str E) fst m' \<and> smap_of m' = smap_of m"
  shows "refines E (read_cmd E D_MAP k r (\<lambda>e db. do { m \<leftarrow> TO_MAP e; (c, x, m) \<leftarrow> f m; Some (c, x, set_data e (PMap m) db) }) db)
    (a_query E D_MAP k r (\<lambda>v. h (un_map v)) A)"
proof (rule read_query [OF assms(1,2)])
  fix e v and db :: "'a kvdb"
  assume a: "db_rel E db (expire_key E k A)" "dmap db k = Some e" "holds (hash_str E) e v" "aval_type v = D_MAP"
    "vals (expire_key E k A) k = Some v"
  obtain m where m: "TO_MAP e = Some m" "ht_inv (hash_str E) fst m" "v = VMap (smap_of m)" by (rule map_command [OF a(3,4)])
  obtain m' where m': "f m = Some (fst (h (smap_of m)), snd (h (smap_of m)), m')" "ht_inv (hash_str E) fst m'" "smap_of m' = smap_of m"
    using body [OF m(2)] by blast
  from keep_refines [OF a(1,2,3,5), of "PMap m'"] m m'
  show "refines E (TO_MAP e \<bind> (\<lambda>m. f m \<bind> (\<lambda>(c, x, m). Some (c, x, set_data e (PMap m) db))))
    (fst (h (un_map v)), snd (h (un_map v)), expire_key E k A)" by simp
qed simp

lemma map_find_query:
  assumes "db_rel E db A" "nul_free k"
  shows "refines E (read_cmd E D_MAP k r (\<lambda>e db.
      do { m \<leftarrow> TO_MAP e;
           (fv, m) \<leftarrow> HashTable_Find (hash_str E) fst f m;
           Some (if fv \<noteq> None then S_OK else S_FIELD_NONEXISTS, g (map_option snd fv), set_data e (PMap m) db) }) db)
    (a_query E D_MAP k r (\<lambda>v. (if un_map v f \<noteq> None then S_OK else S_FIELD_NONEXISTS, g (un_map v f))) A)"
proof -
  let ?f = "\<lambda>m. do { (fv, m) \<leftarrow> HashTable_Find (hash_str E) fst f m;
                     Some (if fv \<noteq> None then S_OK else S_FIELD_NONEXISTS, g (map_option snd fv), m) }"
  let ?h = "\<lambda>m. (if m f \<noteq> None then S_OK else S_FIELD_NONEXISTS, g (m f))"
  have "\<exists>m'. ?f m = Some (fst (?h (smap_of m)), snd (?h (smap_of m)), m') \<and> ht_inv (hash_str E) fst m' \<and> smap_of m' = smap_of m"
    if "ht_inv (hash_str E) fst m" for m :: smap
    using map_find [OF that, of f] by (auto simp: smap_of_def)
  from map_query [OF assms, of ?f ?h r, OF this] show ?thesis by (simp add: Option.bind_assoc case_prod_beta')
qed

lemma MapGet_refines:
  assumes "db_rel E db A" "nul_free k"
  shows "refines E (MapGet E k f db)
    (a_query E D_MAP k None (\<lambda>v. (if un_map v f \<noteq> None then S_OK else S_FIELD_NONEXISTS, un_map v f)) A)"
  using map_find_query [OF assms, of None f "\<lambda>x. x"] by (simp add: MapGet_def)

lemma MapExists_refines:
  assumes "db_rel E db A" "nul_free k"
  shows "refines E (MapExists E k f db)
    (a_query E D_MAP k () (\<lambda>v. (if un_map v f \<noteq> None then S_OK else S_FIELD_NONEXISTS, ())) A)"
  using map_find_query [OF assms, of "()" f "\<lambda>_. ()"] by (simp add: MapExists_def)

lemma map_gets_loop_ok:
  "ht_inv hf fst m \<Longrightarrow> \<exists>m'. map_gets_loop hf fs acc m = Some (if \<forall>f \<in> set fs. smap_of m f \<noteq> None then S_OK else S_FIELD_NONEXISTS,
      acc @ map (the \<circ> smap_of m) (takeWhile (\<lambda>f. smap_of m f \<noteq> None) fs), m') \<and> ht_inv hf fst m' \<and> smap_of m' = smap_of m"
proof (induction fs arbitrary: acc m)
  case (Cons f fs)
  obtain m1 where m1: "HashTable_Find hf fst f m = Some (ht_map fst m f, m1)" "ht_inv hf fst m1" "smap_of m1 = smap_of m"
    using map_find [OF Cons.prems, of f] by blast
  show ?case
  proof (cases "ht_map fst m f")
    case None
    then have "smap_of m f = None" by (simp add: smap_of_def)
    with m1 None show ?thesis by simp
  next
    case (Some x)
    then have "smap_of m f = Some (snd x)" by (simp add: smap_of_def)
    with Cons.IH [OF m1(2), of "acc @ [snd x]"] m1 Some show ?thesis by simp
  qed
qed simp

lemma MapGets_refines:
  assumes "db_rel E db A" "nul_free k"
  shows "refines E (MapGets E k fs db) (a_query E D_MAP k []
    (\<lambda>v. (if \<forall>f \<in> set fs. un_map v f \<noteq> None then S_OK else S_FIELD_NONEXISTS,
          map (the \<circ> un_map v) (takeWhile (\<lambda>f. un_map v f \<noteq> None) fs))) A)"
proof -
  let ?h = "\<lambda>m. (if \<forall>f \<in> set fs. m f \<noteq> None then S_OK else S_FIELD_NONEXISTS, map (the \<circ> m) (takeWhile (\<lambda>f. m f \<noteq> None) fs))"
  have "\<exists>m'. map_gets_loop (hash_str E) fs [] m = Some (fst (?h (smap_of m)), snd (?h (smap_of m)), m')
      \<and> ht_inv (hash_str E) fst m' \<and> smap_of m' = smap_of m" if "ht_inv (hash_str E) fst m" for m :: smap
    using map_gets_loop_ok [OF that, of fs "[]"] by simp
  from map_query [OF assms, of "map_gets_loop (hash_str E) fs []" ?h "[]", OF this] show ?thesis by (simp only: MapGets_def)
qed

text \<open>Writing commands that report whether they found what they were given.\<close>

definition a_modify :: "'c env \<Rightarrow> data_type \<Rightarrow> string \<Rightarrow> (aval \<Rightarrow> status_code \<times> aval) \<Rightarrow> adb \<Rightarrow> status_code \<times> unit \<times> adb" where
  "a_modify E ty k g A = typed ty k () (expire_key E k A) (\<lambda>v. (fst (g v), (), put k (snd (g v)) (expire_key E k A)))"

lemma map_write:
  assumes "\<not> IsSharder (config E)" "db_rel E db A" "nul_free k"
    and body: "\<And>m. ht_inv (hash_str E) fst m \<Longrightarrow> \<exists>m'. f m = Some (fst (h (smap_of m)), m') \<and> ht_inv (hash_str E) fst m'
      \<and> smap_of m' = snd (h (smap_of m))"
  shows "refines E (write_cmd E D_MAP k () (\<lambda>e db. do { m \<leftarrow> TO_MAP e; (c, m) \<leftarrow> f m; Some (c, (), set_data e (PMap m) db) }) db)
    (a_modify E D_MAP k (\<lambda>v. (fst (h (un_map v)), VMap (snd (h (un_map v))))) A)"
  unfolding a_modify_def
proof (rule write_cmd_refines [OF assms(1-3)])
  fix e v and db :: "'a kvdb"
  assume a: "db_rel E db (expire_key E k A)" "dmap db k = Some e" "holds (hash_str E) e v" "aval_type v = D_MAP"
  obtain m where m: "TO_MAP e = Some m" "ht_inv (hash_str E) fst m" "v = VMap (smap_of m)" by (rule map_command [OF a(3,4)])
  obtain m' where m': "f m = Some (fst (h (smap_of m)), m')" "ht_inv (hash_str E) fst m'" "smap_of m' = snd (h (smap_of m))"
    using body [OF m(2)] by blast
  from put_refines [OF a(1-3), of "PMap m'"] m m'
  show "refines E (TO_MAP e \<bind> (\<lambda>m. f m \<bind> (\<lambda>(c, m). Some (c, (), set_data e (PMap m) db))))
    (fst (fst (h (un_map v)), VMap (snd (h (un_map v)))), (), put k (snd (fst (h (un_map v)), VMap (snd (h (un_map v))))) (expire_key E k A))"
    by simp
qed simp

lemma MapSet_refines:
  assumes "\<not> IsSharder (config E)" "db_rel E db A" "nul_free k"
  shows "refines E (MapSet E k f x db) (a_modify E D_MAP k (\<lambda>v. (S_OK, VMap ((un_map v)(f \<mapsto> x)))) A)"
proof -
  let ?f = "\<lambda>m. do { (success, d, m) \<leftarrow> InsertWithDuplicate (hash_str E) fst (f, x) m;
                     Some (S_OK, if success then m else HashTable_assign fst (fst d, x) m) }"
  let ?h = "\<lambda>m. (S_OK, m(f \<mapsto> x))"
  have "\<exists>m'. ?f m = Some (fst (?h (smap_of m)), m') \<and> ht_inv (hash_str E) fst m' \<and> smap_of m' = snd (?h (smap_of m))"
    if m: "ht_inv (hash_str E) fst m" for m :: smap
  proof (cases "ht_map fst m f")
    case None
    then obtain m1 where "InsertWithDuplicate (hash_str E) fst (f, x) m = Some (True, (f, x), m1)" "ht_inv (hash_str E) fst m1"
        "ht_map fst m1 = (ht_map fst m)(f \<mapsto> (f, x))"
      using InsertWithDuplicate_ok [OF m, of "(f, x)"] by auto
    then show ?thesis by (intro exI [of _ m1]) (simp add: smap_of_def fun_eq_iff)
  next
    case (Some d)
    then obtain m1 where m1: "InsertWithDuplicate (hash_str E) fst (f, x) m = Some (False, d, m1)" "ht_inv (hash_str E) fst m1"
        "ht_map fst m1 = ht_map fst m"
      using InsertWithDuplicate_ok [OF m, of "(f, x)"] by auto
    have "fst d = f" using Some keyed_map_SomeD by (fastforce simp: ht_map_def)
    with HashTable_assign_ok [OF m1(2), of "(f, x)" d] m1 Some show ?thesis
      by (intro exI [of _ "HashTable_assign fst (f, x) m1"]) (simp add: smap_of_def fun_eq_iff)
  qed
  from map_write [OF assms, of ?f ?h, OF this] show ?thesis by (simp add: MapSet_def Option.bind_assoc case_prod_beta' Let_def)
qed

lemma MapDel_refines:
  assumes "\<not> IsSharder (config E)" "db_rel E db A" "nul_free k"
  shows "refines E (MapDel E k f db)
    (a_modify E D_MAP k (\<lambda>v. (if un_map v f \<noteq> None then S_OK else S_FIELD_NONEXISTS, VMap ((un_map v)(f := None)))) A)"
proof -
  let ?f = "\<lambda>m. do { (n, m) \<leftarrow> HashTable_Erase (hash_str E) fst f m; Some (if n \<noteq> 0 then S_OK else S_FIELD_NONEXISTS, m) }"
  let ?h = "\<lambda>m. (if m f \<noteq> None then S_OK else S_FIELD_NONEXISTS, m(f := None))"
  have "\<exists>m'. ?f m = Some (fst (?h (smap_of m)), m') \<and> ht_inv (hash_str E) fst m' \<and> smap_of m' = snd (?h (smap_of m))"
    if m: "ht_inv (hash_str E) fst m" for m :: smap
  proof -
    obtain m1 where "HashTable_Erase (hash_str E) fst f m = Some (if ht_map fst m f = None then 0 else 1, m1)"
        "ht_inv (hash_str E) fst m1" "ht_map fst m1 = (ht_map fst m)(f := None)"
      using ht.erase_law [OF m, of f] by blast
    then show ?thesis by (intro exI [of _ m1]) (simp add: smap_of_def fun_eq_iff)
  qed
  from map_write [OF assms, of ?f ?h, OF this] show ?thesis by (simp add: MapDel_def Option.bind_assoc case_prod_beta')
qed

text \<open>The commands that list a map answer with its entries, in the order the iterator meets them.\<close>

lemma keyed_map_snd: "map_option snd (keyed_map fst kvs k) = map_of kvs k"
  unfolding keyed_map_def by (induction kvs) auto

lemma map_listing:
  assumes "db_rel E db A" "nul_free k"
    and g: "\<And>kvs. distinct (map fst kvs) \<Longrightarrow> Q (g kvs) (h (map_of kvs))" "Q (g []) (h Map.empty)"
  shows "refines_by (\<lambda>_. Q) E (read_cmd E D_MAP k (g []) (\<lambda>e db. do { m \<leftarrow> TO_MAP e; kvs \<leftarrow> range_for_list m; Some (S_OK, g kvs, db) }) db)
    (a_query E D_MAP k (h Map.empty) (\<lambda>v. (S_OK, h (un_map v))) A)"
proof (rule read_query [OF assms(1,2)])
  fix e v and db :: "'a kvdb"
  assume a: "db_rel E db (expire_key E k A)" "holds (hash_str E) e v" "aval_type v = D_MAP"
  obtain m where m: "TO_MAP e = Some m" "ht_inv (hash_str E) fst m" "v = VMap (smap_of m)" by (rule map_command [OF a(2,3)])
  have d: "distinct (map fst (ht_elems m))" using ht_invD(2) [OF m(2)] .
  have "smap_of m = map_of (ht_elems m)" by (rule ext) (simp add: smap_of_def ht_map_def keyed_map_snd)
  with g(1) [OF d] m a(1)
  show "refines_by (\<lambda>_. Q) E (TO_MAP e \<bind> (\<lambda>m. range_for_list m \<bind> (\<lambda>kvs. Some (S_OK, g kvs, db))))
    (fst (S_OK, h (un_map v)), snd (S_OK, h (un_map v)), expire_key E k A)" by (simp add: range_for_members refinesI)
qed (rule g(2))

subsection \<open>Sets\<close>

lemma set_add_loop_ok:
  "hs_inv hf s \<Longrightarrow> \<exists>s'. set_add_loop hf ms n s = Some (n + card (set ms - members s), s') \<and> hs_inv hf s' \<and> members s' = members s \<union> set ms"
proof (induction ms arbitrary: n s)
  case (Cons m ms)
  show ?case
  proof (cases "m \<in> members s")
    case True
    then have i: "ht_map id s (id m) = Some m" using ht_map_members [OF Cons.prems, of m] by simp
    obtain s1 where s1: "InsertWithDuplicate hf id m s = Some (False, m, s1)" "hs_inv hf s1" "mset (ht_elems s1) = mset (ht_elems s)"
      using InsertWithDuplicate_ok [OF Cons.prems, of m, unfolded i option.case] by blast
    have "set (m # ms) - members s = set ms - members s1" "members s1 \<union> set ms = members s \<union> set (m # ms)" using True mset_eq_setD [OF s1(3)] by auto
    with Cons.IH [OF s1(2), of n] s1(1) show ?thesis by (simp add: HashTable_Insert_def)
  next
    case False
    then have i: "ht_map id s (id m) = None" using ht_map_members [OF Cons.prems, of m] by simp
    obtain s1 where "InsertWithDuplicate hf id m s = Some (True, m, s1)" "hs_inv hf s1" "mset (ht_elems s1) = add_mset m (mset (ht_elems s))"
      using InsertWithDuplicate_ok [OF Cons.prems, of m, unfolded i option.case] by blast
    then have s1: "HashTable_Insert hf id m s = Some (Some m, s1)" "hs_inv hf s1" "mset (ht_elems s1) = add_mset m (mset (ht_elems s))"
      by (simp_all add: HashTable_Insert_def)
    from s1(3) have e: "members s1 = insert m (members s)" by (metis set_mset_add_mset_insert set_mset_mset)
    have "set (m # ms) - members s = insert m (set ms - members s1)" using False e by auto
    then have "card (set (m # ms) - members s) = Suc (card (set ms - members s1))" using e by simp
    moreover have "members s1 \<union> set ms = members s \<union> set (m # ms)" using e by auto
    ultimately show ?thesis using Cons.IH [OF s1(2), of "n + 1"] s1(1) by simp
  qed
qed simp

lemma set_command:
  assumes "holds hf e v" "aval_type v = D_SET"
  obtains s where "TO_SET e = Some s" "hs_inv hf s" "v = VSet (members s)"
  using holds_casts(5) [OF assms] by blast

lemma SetAdd_refines:
  assumes "\<not> IsSharder (config E)" "db_rel E db A" "nul_free k"
  shows "refines E (SetAdd E k ms db) (a_extend k (VSet {}) None (\<lambda>v. (Some (card (set ms - un_set v)), VSet (un_set v \<union> set ms))) A)"
proof -
  let ?n = "HashTable_new :: sset"
  have n: "hs_inv (hash_str E) ?n" "aval_of (PSet ?n) = VSet {}" using HashTable_new_ok [of "hash_str E" id] by simp_all
  have "refines E (do { (ok, d, db) \<leftarrow> container_of E k (aval_type (aval_of (PSet ?n))) (PSet ?n) db;
      if ok then do { s \<leftarrow> TO_SET d; (n, s) \<leftarrow> set_add_loop (hash_str E) ms 0 s; Some (S_OK, Some n, set_data d (PSet s) db) }
      else Some (S_EXISTS_DIFF_TYPE, None, db) })
    (a_extend k (aval_of (PSet ?n)) None (\<lambda>v. (Some (card (set ms - un_set v)), VSet (un_set v \<union> set ms))) A)"
  proof (rule extend_refines [OF assms])
    fix d v and db :: "'a kvdb"
    assume a: "db_rel E db (put k v A)" "dmap db k = Some d" "holds (hash_str E) d v" "aval_type v = aval_type (aval_of (PSet ?n))"
    then obtain s where s: "TO_SET d = Some s" "hs_inv (hash_str E) s" "v = VSet (members s)"
      by (auto elim: set_command)
    obtain s' where s': "set_add_loop (hash_str E) ms 0 s = Some (card (set ms - members s), s')" "hs_inv (hash_str E) s'"
        "members s' = members s \<union> set ms"
      using set_add_loop_ok [OF s(2), of ms 0] by auto
    from put_refines [OF a(1-3), of "PSet s'"] s s'
    show "refines E (TO_SET d \<bind> (\<lambda>s. set_add_loop (hash_str E) ms 0 s \<bind> (\<lambda>(n, s). Some (S_OK, Some n, set_data d (PSet s) db))))
      (S_OK, fst (Some (card (set ms - un_set v)), VSet (un_set v \<union> set ms)), put k (snd (Some (card (set ms - un_set v)), VSet (un_set v \<union> set ms))) A)"
      by simp
  qed (simp add: n(1))
  then show ?thesis by (simp add: SetAdd_def plain_shard [OF assms(1)] n(2) del: aval_of.simps)
qed

lemma SetDelm_refines:
  assumes "\<not> IsSharder (config E)" "db_rel E db A" "nul_free k"
  shows "refines E (SetDelm E k m db)
    (a_modify E D_SET k (\<lambda>v. (if m \<in> un_set v then S_OK else S_SET_MEMBER_NONEXISTS, VSet (un_set v - {m}))) A)"
  unfolding a_modify_def SetDelm_def
proof (rule write_cmd_refines [OF assms])
  fix e v and db :: "'a kvdb"
  assume a: "db_rel E db (expire_key E k A)" "dmap db k = Some e" "holds (hash_str E) e v" "aval_type v = D_SET"
  obtain s where s: "TO_SET e = Some s" "hs_inv (hash_str E) s" "v = VSet (members s)" by (rule set_command [OF a(3,4)])
  obtain s' where s': "HashTable_Erase (hash_str E) id m s = Some (if m \<in> members s then 1 else 0, s')" "hs_inv (hash_str E) s'"
      "ht_map id s' = (ht_map id s)(m := None)"
    using ht.erase_law [OF s(2), of m] ht_map_members [OF s(2), of m] by auto
  have "members s' = members s - {m}"
  proof (rule set_eqI)
    fix x
    show "x \<in> members s' \<longleftrightarrow> x \<in> members s - {m}"
      using fun_cong [OF s'(3), of x] ht_map_members [OF s(2), of x] ht_map_members [OF s'(2), of x] by (auto split: if_splits)
  qed
  with put_refines [OF a(1-3), of "PSet s'"] s s'
  show "refines E (TO_SET e \<bind> (\<lambda>s. HashTable_Erase (hash_str E) id m s \<bind>
      (\<lambda>(n, s). Some (if n \<noteq> 0 then S_OK else S_SET_MEMBER_NONEXISTS, (), set_data e (PSet s) db))))
    (fst (if m \<in> un_set v then S_OK else S_SET_MEMBER_NONEXISTS, VSet (un_set v - {m})), (),
      put k (snd (if m \<in> un_set v then S_OK else S_SET_MEMBER_NONEXISTS, VSet (un_set v - {m}))) (expire_key E k A))"
    by (cases "m \<in> members s") simp_all
qed simp

lemma SetExists_refines:
  assumes "db_rel E db A" "nul_free k"
  shows "refines E (SetExists E k m db) (a_query E D_SET k () (\<lambda>v. (if m \<in> un_set v then S_OK else S_SET_MEMBER_NONEXISTS, ())) A)"
  unfolding SetExists_def
proof (rule read_query [OF assms])
  fix e v and db :: "'a kvdb"
  assume a: "db_rel E db (expire_key E k A)" "dmap db k = Some e" "holds (hash_str E) e v" "aval_type v = D_SET"
    "vals (expire_key E k A) k = Some v"
  obtain s where s: "TO_SET e = Some s" "hs_inv (hash_str E) s" "v = VSet (members s)" by (rule set_command [OF a(3,4)])
  obtain s' where s': "HashTable_Find (hash_str E) id m s = Some (if m \<in> members s then Some m else None, s')" "hs_inv (hash_str E) s'"
      "mset (ht_elems s') = mset (ht_elems s)"
    using Find_member [OF s(2), of m] by blast
  from keep_refines [OF a(1-3,5), of "PSet s'" _ "()"] s s' mset_eq_setD [OF s'(3)]
  show "refines E (TO_SET e \<bind> (\<lambda>s. HashTable_Find (hash_str E) id m s \<bind>
      (\<lambda>(r, s). Some (if r \<noteq> None then S_OK else S_SET_MEMBER_NONEXISTS, (), set_data e (PSet s) db))))
    (fst (if m \<in> un_set v then S_OK else S_SET_MEMBER_NONEXISTS, ()), snd (if m \<in> un_set v then S_OK else S_SET_MEMBER_NONEXISTS, ()), expire_key E k A)"
    by simp
qed simp

subsection \<open>Set algebra\<close>

definition op_sets :: "set_op \<Rightarrow> string set \<Rightarrow> string set \<Rightarrow> string set" where
  "op_sets x S T = (case x of And \<Rightarrow> S \<inter> T | Or \<Rightarrow> S \<union> T | Sub \<Rightarrow> S - T)"

lemma two_sets_ok:
  assumes "hs_inv hf s" "hs_inv hf t"
  obtains out s' t' where "two_sets x hf s t = Some (out, s', t')" "distinct out" "set out = op_sets x (members s) (members t)"
    "hs_inv hf s'" "hs_inv hf t'" "members s' = members s" "members t' = members t"
  using set_algebra [OF assms] by (cases x) (auto simp: two_sets_def op_sets_def split: option.splits)

text \<open>Both expiration checks, then both lookups.\<close>

definition a_set_op :: "'c env \<Rightarrow> string \<Rightarrow> string \<Rightarrow> 'r \<Rightarrow> (string set \<Rightarrow> string set \<Rightarrow> 'r) \<Rightarrow> adb \<Rightarrow> status_code \<times> 'r \<times> adb" where
  "a_set_op E k1 k2 r h A =
     (let A1 = expire_key E k1 A; A2 = expire_key E k2 A1 in
      if expired E k1 A then (S_NONEXISTS, r, A1)
      else if expired E k2 A1 then (S_NONEXISTS, r, A2)
      else typed D_SET k1 r A2 (\<lambda>v. typed D_SET k2 r A2 (\<lambda>w. (S_OK, h (un_set v) (un_set w), A2))))"

lemma dict_Find_keep:
  assumes "db_rel E db A" "nul_free k"
  obtains db' where "dict_Find E k db = Some (dmap db k, db')" "db_rel E db' A" "dmap db' = dmap db"
proof -
  obtain d where d: "TreeTable_Find strcmp (hash_str E) ekey k (dict db) = Some (dmap db k, d)"
      "tt_inv strcmp nul_free (hash_str E) ekey d" "tt_map ekey d = dmap db"
    using str_key.tt_Find [OF db_relD(1) [OF assms(1)] assms(2)] by blast
  with that [of "db\<lparr>dict := d\<rparr>"] db_rel_dict [OF assms(1) d(2,3)] show thesis by (simp add: dict_Find_def)
qed

lemma holds_dtype: "holds hf e v \<Longrightarrow> dtype (edata e) = aval_type v"
  unfolding holds_def by blast

lemma two_lookups:
  assumes "db_rel E db A" "nul_free k1" "nul_free k2"
    and f: "\<And>e1 e2 v w db. db_rel E db A \<Longrightarrow> dmap db k1 = Some e1 \<Longrightarrow> dmap db k2 = Some e2 \<Longrightarrow> holds (hash_str E) e1 v \<Longrightarrow>
      holds (hash_str E) e2 w \<Longrightarrow> aval_type v = D_SET \<Longrightarrow> aval_type w = D_SET \<Longrightarrow> vals A k1 = Some v \<Longrightarrow> vals A k2 = Some w \<Longrightarrow>
      refines_by Q E (f e1 e2 db) (g v w)"
    and r: "\<And>db. Q db r s"
  shows "refines_by Q E (ERROR_ROUTINE_KV E D_SET k1 r (\<lambda>e1. ERROR_ROUTINE_KV E D_SET k2 r (f e1)) db)
    (typed D_SET k1 s A (\<lambda>v. typed D_SET k2 s A (g v)))"
proof -
  obtain db1 where d1: "dict_Find E k1 db = Some (dmap db k1, db1)" "db_rel E db1 A" "dmap db1 = dmap db"
    by (rule dict_Find_keep [OF assms(1,2)])
  obtain db2 where d2: "dict_Find E k2 db1 = Some (dmap db1 k2, db2)" "db_rel E db2 A" "dmap db2 = dmap db1"
    by (rule dict_Find_keep [OF d1(2) assms(3)])
  note simps = ERROR_ROUTINE_KV_def typed_def refinesI r
  have R1: "rel_option (holds (hash_str E)) (dmap db2 k1) (vals A k1)" and R2: "rel_option (holds (hash_str E)) (dmap db2 k2) (vals A k2)"
    by (rule db_relD(4) [OF d2(2)])+
  show ?thesis
  proof (cases "vals A k1")
    case None
    then have "dmap db k1 = None" using R1 d1(3) d2(3) by simp
    with None d1 show ?thesis by (simp add: simps)
  next
    case (Some v)
    then obtain e1 where e1: "dmap db2 k1 = Some e1" "holds (hash_str E) e1 v" using R1 by (auto simp: rel_option_iff split: option.splits)
    show ?thesis
    proof (cases "vals A k2")
      case None
      then have "dmap db1 k2 = None" using R2 d2(3) by simp
      with None Some e1 holds_dtype [OF e1(2)] d1 d2 show ?thesis by (simp add: simps)
    next
      case k2: (Some w)
      then obtain e2 where e2: "dmap db2 k2 = Some e2" "holds (hash_str E) e2 w" using R2 by (auto simp: rel_option_iff split: option.splits)
      from f [OF d2(2) e1(1) e2(1) e1(2) e2(2) _ _ Some k2] Some k2 e1 e2 holds_dtype [OF e1(2)] holds_dtype [OF e2(2)] d1 d2
      show ?thesis by (simp add: simps)
    qed
  qed
qed

lemma SET_OP_refines:
  assumes "db_rel E db A" "nul_free k1" "nul_free k2"
    and A2: "A2 = expire_key E k2 (expire_key E k1 A)"
    and f: "\<And>e1 e2 v w db. db_rel E db A2 \<Longrightarrow> dmap db k1 = Some e1 \<Longrightarrow> dmap db k2 = Some e2 \<Longrightarrow>
      holds (hash_str E) e1 v \<Longrightarrow> holds (hash_str E) e2 w \<Longrightarrow> aval_type v = D_SET \<Longrightarrow> aval_type w = D_SET \<Longrightarrow> vals A2 k1 = Some v \<Longrightarrow>
      vals A2 k2 = Some w \<Longrightarrow> refines_by Q E (f e1 e2 db) (S_OK, h (un_set v) (un_set w), A2)"
    and r: "\<And>db. Q db r s"
  shows "refines_by Q E (SET_OP_ROUTINE E k1 k2 r f db) (a_set_op E k1 k2 s h A)"
proof -
  let ?A1 = "expire_key E k1 A" and ?A2 = "expire_key E k2 (expire_key E k1 A)"
  obtain db1 where d1: "CheckExpire E k1 db = Some (expired E k1 A, db1)" "db_rel E db1 ?A1"
    using CheckExpire_rel [OF assms(1,2)] by blast
  obtain db2 where d2: "CheckExpire E k2 db1 = Some (expired E k2 ?A1, db2)" "db_rel E db2 ?A2"
    using CheckExpire_rel [OF d1(2) assms(3)] by blast
  note simps = SET_OP_ROUTINE_def CHECK_EXPIRE_ROUTINE_def a_set_op_def Let_def refinesI r
  show ?thesis
  proof (cases "expired E k1 A \<or> expired E k2 ?A1")
    case True
    with d1 d2 show ?thesis by (cases "expired E k1 A") (simp_all add: simps)
  next
    case False
    have "refines_by Q E (ERROR_ROUTINE_KV E D_SET k1 r (\<lambda>e1. ERROR_ROUTINE_KV E D_SET k2 r (f e1)) db2)
      (typed D_SET k1 s ?A2 (\<lambda>v. typed D_SET k2 s ?A2 (\<lambda>w. (S_OK, h (un_set v) (un_set w), ?A2))))"
      by (rule two_lookups [OF d2(2) assms(2,3)]) (use f r in \<open>simp_all add: A2\<close>)
    with False d1 d2 show ?thesis by (simp add: simps)
  qed
qed

lemma put_put_same: "vals A k1 = Some v \<Longrightarrow> vals A k2 = Some w \<Longrightarrow> put k2 w (put k1 v A) = A"
  by (simp add: fun_upd_idem)

text \<open>The members of the combination of the sets of two different keys; both sets stay as they were.\<close>

lemma set_members_rel:
  assumes a: "db_rel E db A" "dmap db k1 = Some e1" "dmap db k2 = Some e2" "holds (hash_str E) e1 v" "holds (hash_str E) e2 w"
      "aval_type v = D_SET" "aval_type w = D_SET" "vals A k1 = Some v" "vals A k2 = Some w" and ne: "k1 \<noteq> k2"
  obtains out db' where "set_members E x e1 e2 db = Some (out, db')" "distinct out" "set out = op_sets x (un_set v) (un_set w)" "db_rel E db' A"
proof -
  obtain s where s: "TO_SET e1 = Some s" "hs_inv (hash_str E) s" "v = VSet (members s)" by (rule set_command [OF a(4,6)])
  obtain t where t: "TO_SET e2 = Some t" "hs_inv (hash_str E) t" "w = VSet (members t)" by (rule set_command [OF a(5,7)])
  obtain out s' t' where o: "two_sets x (hash_str E) s t = Some (out, s', t')" "distinct out" "set out = op_sets x (members s) (members t)"
      "hs_inv (hash_str E) s'" "hs_inv (hash_str E) t'" "members s' = members s" "members t' = members t"
    by (rule two_sets_ok [OF s(2) t(2)])
  have k: "ekey e1 = k1" "ekey e2 = k2" using dmap_key a(2,3) by auto
  have "db_rel E (set_data e1 (PSet s') db) (put k1 v A)"
    using set_data_rel [OF a(1,2), of "PSet s'"] holds_dtype [OF a(4)] o(4,6) s(3) by simp
  moreover have "dmap (set_data e1 (PSet s') db) k2 = Some e2"
    using TreeTable_assign_map [of ekey "dict db" "e1\<lparr>edata := (edata e1)\<lparr>any_data := Some (PSet s')\<rparr>\<rparr>" e1] a(2,3) k ne by (simp add: set_data_def)
  ultimately have "db_rel E (set_data e2 (PSet t') (set_data e1 (PSet s') db)) (put k2 w (put k1 v A))"
    using set_data_rel [of E "set_data e1 (PSet s') db" "put k1 v A" k2 e2 "PSet t'"] holds_dtype [OF a(5)] o(5,7) t(3) by simp
  then have "db_rel E (set_data e2 (PSet t') (set_data e1 (PSet s') db)) A" unfolding put_put_same [OF a(8,9)] .
  with that o s t k ne show thesis by (simp add: set_members_def)
qed

lemma set_op_refines:
  assumes "db_rel E db A" "nul_free k1" "nul_free k2" "k1 \<noteq> k2"
    and g: "\<And>out. distinct out \<Longrightarrow> Q (g out) (h (set out))" "Q r s"
  shows "refines_by (\<lambda>_. Q) E (SET_OP_ROUTINE E k1 k2 r (\<lambda>e1 e2 db. do { (ms, db) \<leftarrow> set_members E x e1 e2 db; Some (S_OK, g ms, db) }) db)
    (a_set_op E k1 k2 s (\<lambda>S T. h (op_sets x S T)) A)"
proof (rule SET_OP_refines [OF assms(1-3) refl])
  let ?A = "expire_key E k2 (expire_key E k1 A)"
  fix e1 e2 v w and db :: "'a kvdb"
  assume a: "db_rel E db ?A" "dmap db k1 = Some e1" "dmap db k2 = Some e2" "holds (hash_str E) e1 v" "holds (hash_str E) e2 w"
      "aval_type v = D_SET" "aval_type w = D_SET" "vals ?A k1 = Some v" "vals ?A k2 = Some w"
  obtain out db' where "set_members E x e1 e2 db = Some (out, db')" "distinct out" "set out = op_sets x (un_set v) (un_set w)" "db_rel E db' ?A"
    by (rule set_members_rel [OF a assms(4)])
  with g(1) [of out] show "refines_by (\<lambda>_. Q) E (set_members E x e1 e2 db \<bind> (\<lambda>(ms, db). Some (S_OK, g ms, db))) (S_OK, h (op_sets x (un_set v) (un_set w)), ?A)"
    by (simp add: refinesI)
qed (rule g(2))

subsection \<open>Sorted sets\<close>

lemma vset_command:
  assumes "holds hf e v" "aval_type v = D_SORTED_SET"
  obtains s where "TO_VSET e = Some s" "vset_ok hf s" "v = VVset (vset_map s)"
  using holds_casts(3) [OF assms] by blast

lemma vset_size:
  assumes "vset_ok hf v"
  shows "finite (dom (vset_map v))" "card (dom (vset_map v)) = length (elems (vtree v))"
proof -
  have "dom (vset_map v) = snd ` set (elems (vtree v))" using vset_okD(6) [OF assms] by (force simp: domIff)
  then show "finite (dom (vset_map v))" "card (dom (vset_map v)) = length (elems (vtree v))"
    using distinct_card [OF vset_okD(4) [OF assms]] by simp_all
qed

text \<open>A member that is there keeps its weight.\<close>

lemma vset_add_loop_ok:
  "vset_ok hf v \<Longrightarrow> card (dom (vset_map v)) + length wms < 2 ^ 64 \<Longrightarrow>
   \<exists>v'. vset_add_loop hf wms n v = Some (n + card (snd ` set wms - dom (vset_map v)), v') \<and> vset_ok hf v'
     \<and> vset_map v' = map_of (map prod.swap wms) ++ vset_map v"
proof (induction wms arbitrary: n v)
  case (Cons wm wms)
  obtain w m where wm: "wm = (w, m)" by (cases wm)
  show ?case
  proof (cases "vset_map v m")
    case None
    obtain v1 where v1: "Vset_Insert hf w m v = Some (True, v1)" "vset_ok hf v1" "vset_map v1 = (vset_map v)(m \<mapsto> w)"
      using Insert_new [OF Cons.prems(1) None, of w] Cons.prems(2) vset_size(2) [OF Cons.prems(1)] by auto
    have c: "card (dom (vset_map v1)) = Suc (card (dom (vset_map v)))" using v1(3) None vset_size(1) [OF Cons.prems(1)] by (simp add: domIff)
    have "snd ` set (wm # wms) - dom (vset_map v) = insert m (snd ` set wms - dom (vset_map v1))" using None v1(3) wm by (auto simp: domIff)
    then have "card (snd ` set (wm # wms) - dom (vset_map v)) = Suc (card (snd ` set wms - dom (vset_map v1)))" using v1(3) by simp
    moreover have "map_of (map prod.swap wms) ++ vset_map v1 = map_of (map prod.swap (wm # wms)) ++ vset_map v"
      using None v1(3) wm by (auto simp: fun_eq_iff map_add_def split: option.splits)
    ultimately show ?thesis using Cons.IH [OF v1(2), of "n + 1"] Cons.prems(2) c v1(1) wm by (simp del: map_of.simps list.map)
  next
    case (Some x)
    obtain v1 where v1: "Vset_Insert hf w m v = Some (False, v1)" "vset_ok hf v1" "vset_map v1 = vset_map v"
      using Insert_dup [OF Cons.prems(1) Some, of w] by blast
    have "snd ` set (wm # wms) - dom (vset_map v) = snd ` set wms - dom (vset_map v1)" using Some v1(3) wm by (auto simp: domIff)
    moreover have "map_of (map prod.swap wms) ++ vset_map v1 = map_of (map prod.swap (wm # wms)) ++ vset_map v"
      using Some v1(3) wm by (auto simp: fun_eq_iff map_add_def split: option.splits)
    ultimately show ?thesis using Cons.IH [OF v1(2), of n] Cons.prems(2) v1 wm by (simp del: map_of.simps list.map)
  qed
qed simp

lemma VsetAdd_refines:
  assumes "\<not> IsSharder (config E)" "db_rel E db A" "nul_free k"
    and len: "\<And>f. vals A k = Some (VVset f) \<Longrightarrow> card (dom f) + length wms < 2 ^ 64" "length wms < 2 ^ 64"
  shows "refines E (VsetAdd E k wms db) (a_extend k (VVset Map.empty) None
    (\<lambda>v. (Some (card (snd ` set wms - dom (un_vset v))), VVset (map_of (map prod.swap wms) ++ un_vset v))) A)"
proof -
  have n: "vset_ok (hash_str E) Vset_new" "aval_of (PVset Vset_new) = VVset Map.empty" using vset_new_ok by simp_all
  have "refines E (do { (ok, d, db) \<leftarrow> container_of E k (aval_type (aval_of (PVset Vset_new))) (PVset Vset_new) db;
      if ok then do { v \<leftarrow> TO_VSET d; (n, v) \<leftarrow> vset_add_loop (hash_str E) wms 0 v; Some (S_OK, Some n, set_data d (PVset v) db) }
      else Some (S_EXISTS_DIFF_TYPE, None, db) })
    (a_extend k (aval_of (PVset Vset_new)) None (\<lambda>v. (Some (card (snd ` set wms - dom (un_vset v))), VVset (map_of (map prod.swap wms) ++ un_vset v))) A)"
  proof (rule extend_refines [OF assms(1-3)])
    fix d v and db :: "'a kvdb"
    assume a: "db_rel E db (put k v A)" "dmap db k = Some d" "holds (hash_str E) d v" "aval_type v = aval_type (aval_of (PVset Vset_new))"
      and v: "v = (case vals A k of None \<Rightarrow> aval_of (PVset Vset_new) | Some v \<Rightarrow> v)"
    obtain s where s: "TO_VSET d = Some s" "vset_ok (hash_str E) s" "v = VVset (vset_map s)" using a by (auto elim: vset_command)
    have "card (dom (vset_map s)) + length wms < 2 ^ 64"
      using v s(3) len n(2) by (cases "vals A k") (auto simp del: aval_of.simps)
    then obtain s' where s': "vset_add_loop (hash_str E) wms 0 s = Some (card (snd ` set wms - dom (vset_map s)), s')" "vset_ok (hash_str E) s'"
        "vset_map s' = map_of (map prod.swap wms) ++ vset_map s"
      using vset_add_loop_ok [OF s(2), of wms 0] by auto
    from put_refines [OF a(1-3), of "PVset s'"] s s'
    show "refines E (TO_VSET d \<bind> (\<lambda>v. vset_add_loop (hash_str E) wms 0 v \<bind> (\<lambda>(n, v). Some (S_OK, Some n, set_data d (PVset v) db))))
      (S_OK, fst (Some (card (snd ` set wms - dom (un_vset v))), VVset (map_of (map prod.swap wms) ++ un_vset v)),
        put k (snd (Some (card (snd ` set wms - dom (un_vset v))), VVset (map_of (map prod.swap wms) ++ un_vset v))) A)"
      by simp
  qed (simp add: n(1))
  then show ?thesis by (simp add: VsetAdd_def plain_shard [OF assms(1)] n(2) del: aval_of.simps)
qed

lemma VsetWeight_refines:
  assumes "db_rel E db A" "nul_free k"
  shows "refines E (VsetWeight E k m db)
    (a_query E D_SORTED_SET k None (\<lambda>v. (if un_vset v m \<noteq> None then S_OK else S_VMEMBER_NONEXISTS, un_vset v m)) A)"
  unfolding VsetWeight_def
proof (rule read_query [OF assms])
  fix e v and db :: "'a kvdb"
  assume a: "db_rel E db (expire_key E k A)" "dmap db k = Some e" "holds (hash_str E) e v" "aval_type v = D_SORTED_SET"
    "vals (expire_key E k A) k = Some v"
  obtain s where s: "TO_VSET e = Some s" "vset_ok (hash_str E) s" "v = VVset (vset_map s)" by (rule vset_command [OF a(3,4)])
  obtain s' where s': "Vset_GetWeight (hash_str E) m s = Some (vset_map s m, s')" "vset_ok (hash_str E) s'" "vset_map s' = vset_map s"
    using GetWeight_ok [OF s(2), of m] by blast
  from keep_refines [OF a(1-3,5), of "PVset s'" _ "vset_map s m"] s s'
  show "refines E (TO_VSET e \<bind> (\<lambda>v. Vset_GetWeight (hash_str E) m v \<bind>
      (\<lambda>(r, v). Some (if r \<noteq> None then S_OK else S_VMEMBER_NONEXISTS, r, set_data e (PVset v) db))))
    (fst (if un_vset v m \<noteq> None then S_OK else S_VMEMBER_NONEXISTS, un_vset v m),
      snd (if un_vset v m \<noteq> None then S_OK else S_VMEMBER_NONEXISTS, un_vset v m), expire_key E k A)"
    by simp
qed simp

text \<open>Deletion of a member whose weight no other member has.\<close>

lemma VsetDel_refines:
  assumes "\<not> IsSharder (config E)" "db_rel E db A" "nul_free k"
    and u: "\<And>f m'. vals A k = Some (VVset f) \<Longrightarrow> f m \<noteq> None \<Longrightarrow> f m' = f m \<Longrightarrow> m' = m"
  shows "refines E (VsetDel E k m db)
    (a_modify E D_SORTED_SET k (\<lambda>v. (if un_vset v m \<noteq> None then S_OK else S_VMEMBER_NONEXISTS, VVset ((un_vset v)(m := None)))) A)"
  unfolding VsetDel_def a_modify_def
proof (rule write_cmd_refines [OF assms(1-3)])
  fix e v and db :: "'a kvdb"
  assume a: "db_rel E db (expire_key E k A)" "dmap db k = Some e" "holds (hash_str E) e v" "aval_type v = D_SORTED_SET"
    "vals (expire_key E k A) k = Some v"
  obtain s where s: "TO_VSET e = Some s" "vset_ok (hash_str E) s" "v = VVset (vset_map s)" by (rule vset_command [OF a(3,4)])
  have A: "vals A k = Some (VVset (vset_map s))" using a(5) s(3) by (simp add: expire_key_def split: if_splits)
  have "\<exists>s'. Vset_Erase (hash_str E) m s = Some (vset_map s m \<noteq> None, s') \<and> vset_ok (hash_str E) s' \<and> vset_map s' = (vset_map s)(m := None)"
  proof (cases "vset_map s m")
    case None
    with Erase_none [OF s(2) None] show ?thesis by (auto simp: fun_upd_idem)
  next
    case (Some w)
    have "\<forall>m'. vset_map s m' = Some w \<longrightarrow> m' = m" using u [OF A] Some by auto
    from Erase_unique [OF s(2) Some this] Some show ?thesis by simp
  qed
  then obtain s' where s': "Vset_Erase (hash_str E) m s = Some (vset_map s m \<noteq> None, s')" "vset_ok (hash_str E) s'"
      "vset_map s' = (vset_map s)(m := None)" by blast
  from put_refines [OF a(1-3), of "PVset s'" _ "()"] s s'
  show "refines E (TO_VSET e \<bind> (\<lambda>v. Vset_Erase (hash_str E) m v \<bind>
      (\<lambda>(ok, v). Some (if ok then S_OK else S_VMEMBER_NONEXISTS, (), set_data e (PVset v) db))))
    (fst (if un_vset v m \<noteq> None then S_OK else S_VMEMBER_NONEXISTS, VVset ((un_vset v)(m := None))), (),
      put k (snd (if un_vset v m \<noteq> None then S_OK else S_VMEMBER_NONEXISTS, VVset ((un_vset v)(m := None)))) (expire_key E k A))"
    by simp
qed simp

end
