(* ===== verification/KvdbKeys.thy ===== *)
theory KvdbKeys
  imports KvdbCont
begin

text \<open>
  The commands on keys and on expirations of a database instance without cache and without shard controller, and
  the periodic removal of expired keys.
\<close>

section \<open>Keys\<close>

lemma Type_rel:
  assumes "db_rel E db A" "nul_free k"
  shows "\<exists>db'. Type E k db = Some (map_option aval_type (vals (expire_key E k A) k), db') \<and> db_rel E db' (expire_key E k A)"
proof -
  let ?A = "expire_key E k A"
  obtain db1 where x: "CheckExpire E k db = Some (expired E k A, db1)" "db_rel E db1 ?A"
    using CheckExpire_rel [OF assms] by blast
  obtain db2 where d: "dict_Find E k db1 = Some (dmap db1 k, db2)" "db_rel E db2 ?A" "dmap db2 = dmap db1"
    by (rule dict_Find_keep [OF x(2) assms(2)])
  have R: "rel_option (holds (hash_str E)) (dmap db1 k) (vals ?A k)" using db_relD(4) [OF d(2), of k] d(3) by simp
  show ?thesis
  proof (cases "expired E k A")
    case True
    with x show ?thesis by (simp add: Type_def)
  next
    case False
    with x d R db_relD(3) [OF d(2)] holds_dtype show ?thesis
      by (cases "dmap db1 k"; cases "vals ?A k") (auto simp: Type_def plain_cache)
  qed
qed

lemma Delete_refines:
  assumes "\<not> IsSharder (config E)" "db_rel E db A" "nul_free k"
  shows "refines E (Delete E k db) (a_delete k A)"
proof -
  obtain h d where d: "TreeTable_Extract strcmp (hash_str E) ekey k (dict db) = Some (map_option (\<lambda>e. (e, h)) (dmap db k), d)"
      "tt_inv strcmp nul_free (hash_str E) ekey d" "tt_map ekey d = (dmap db)(k := None)"
    using dict_Extract_rel [OF assms(2,3)] by blast
  obtain x where x: "exp_Erase E k (db\<lparr>dict := d\<rparr>) = Some (db\<lparr>dict := d, exp_dict := x\<rparr>)" "tt_inv strcmp nul_free (hash_str E) fst x"
      "tt_map fst x = (tt_map fst (exp_dict db))(k := None)"
    using exp_Erase_rel [of E "db\<lparr>dict := d\<rparr>" k] db_relD(2) [OF assms(2)] assms(3) by auto
  note rem = removed_rel [OF assms(2) d(2,3) x(2,3), folded a_remove_def]
  show ?thesis
  proof (cases "vals A k")
    case None
    then have n: "dmap db k = None" using dmap_None_iff [OF assms(2)] by simp
    then have "tt_map ekey d = dmap db" using d(3) by (simp add: fun_upd_idem)
    with db_rel_dict [OF assms(2) d(2)] d(1) n None show ?thesis
      by (simp add: Delete_def plain_shard [OF assms(1)] dict_Extract_def a_delete_def refinesI)
  next
    case (Some v)
    then obtain e where "dmap db k = Some e" using dmap_None_iff [OF assms(2), of k] by fastforce
    with d(1) x(1) rem Some db_relD(3) [OF assms(2)] show ?thesis
      by (simp add: Delete_def plain_shard [OF assms(1)] plain_cache dict_Extract_def a_delete_def refinesI)
  qed
qed

definition a_rename :: "'c env \<Rightarrow> string \<Rightarrow> string \<Rightarrow> adb \<Rightarrow> status_code \<times> unit \<times> adb" where
  "a_rename E old new A =
     (let A' = expire_key E old A in
      if expired E old A then (S_NONEXISTS, (), A')
      else if vals A' new \<noteq> None then (S_EXISTS, (), A')
      else case vals A' old of
        None \<Rightarrow> (S_NONEXISTS, (), A')
      | Some v \<Rightarrow> (S_OK, (), A'\<lparr>vals := (vals A')(old := None, new \<mapsto> v)\<rparr>))"

lemma Rename_refines:
  assumes "\<not> IsSharder (config E)" "db_rel E db A" "nul_free old" "nul_free new" "exps A old = None"
  shows "refines E (Rename E old new db) (a_rename E old new A)"
proof -
  have ne: "\<not> expired E old A" "expire_key E old A = A" using assms(5) by (simp_all add: expired_def expire_key_def)
  obtain db1 where x: "CheckExpire E old db = Some (False, db1)" "db_rel E db1 A"
    using CheckExpire_rel [OF assms(2,3)] ne by auto
  obtain db2 where d: "dict_Find E new db1 = Some (dmap db1 new, db2)" "db_rel E db2 A" "dmap db2 = dmap db1"
    by (rule dict_Find_keep [OF x(2) assms(4)])
  obtain h t where t: "0 \<le> h" "TreeTable_Extract strcmp (hash_str E) ekey old (dict db2) = Some (map_option (\<lambda>e. (e, h)) (dmap db2 old), t)"
      "tt_inv strcmp nul_free (hash_str E) ekey t" "tt_map ekey t = (dmap db2)(old := None)"
    using dict_Extract_rel [OF d(2) assms(3)] by blast
  note iff = dmap_None_iff [OF d(2), unfolded d(3)]
  note simps = Rename_def plain_shard [OF assms(1)] CHECK_EXPIRE_ROUTINE_def a_rename_def ne refinesI
  show ?thesis
  proof (cases "vals A new")
    case (Some v)
    with iff [of new] x(1) d(1,2) show ?thesis by (simp add: simps)
  next
    case new: None
    show ?thesis
    proof (cases "vals A old")
      case None
      then have n: "dmap db2 old = None" using iff [of old] d(3) by simp
      then have "tt_map ekey t = dmap db2" using t(4) by (simp add: fun_upd_idem)
      with db_rel_dict [OF d(2) t(3)] n t(2) x(1) d(1) new None iff [of new] show ?thesis by (simp add: simps dict_Extract_def)
    next
      case (Some v)
      then obtain e where e: "dmap db2 old = Some e" "holds (hash_str E) e v"
        using db_relD(4) [OF d(2), of old] by (auto simp: rel_option_iff split: option.splits)
      let ?e = "e\<lparr>ekey := new\<rparr>"
      have "tt_map ekey t (ekey ?e) = None" using new iff [of new] d(3) t(4) by simp
      then obtain t' where t': "TreeTable_Push strcmp (hash_str E) ekey h ?e t = Some (True, t')" "tt_inv strcmp nul_free (hash_str E) ekey t'"
          "tt_map ekey t' = (tt_map ekey t)(new \<mapsto> ?e)"
        using str_key.tt_Push_new [OF t(3), of ?e h] assms(4) t(1) by auto
      have h: "holds (hash_str E) ?e v" using e(2) by (simp add: holds_def)
      have "exps A new = None" using exps_absent [OF d(2) new] .
      then have "db_rel E (db2\<lparr>dict := t'\<rparr>) (A\<lparr>vals := (vals A)(old := None, new \<mapsto> v)\<rparr>)"
        using d(2) t'(2,3) t(4) h assms(5) unfolding db_rel_def by auto
      with x(1) d(1) t(2) t'(1) e(1) new Some iff [of new] db_relD(3) [OF d(2)] show ?thesis
        by (simp add: simps dict_Extract_def plain_cache assertion_def)
    qed
  qed
qed

section \<open>Expirations\<close>

definition a_expire_at :: "'c env \<Rightarrow> string \<Rightarrow> nat \<Rightarrow> adb \<Rightarrow> status_code \<times> unit \<times> adb" where
  "a_expire_at E k t A =
     (if IsExpirationDisable (config E) then (S_EXPIRE_DISABLE, (), A)
      else if vals A k = None then (S_NONEXISTS, (), A)
      else (S_OK, (), if cur_ms E < t then A\<lparr>exps := (exps A)(k \<mapsto> t)\<rparr> else A))"

lemma exp_update_rel:
  assumes "db_rel E db A" "tt_inv strcmp nul_free (hash_str E) fst x" "tt_map fst x = (tt_map fst (exp_dict db))(k \<mapsto> (k, t))" "vals A k \<noteq> None"
  shows "db_rel E (db\<lparr>exp_dict := x\<rparr>) (A\<lparr>exps := (exps A)(k \<mapsto> t)\<rparr>)"
  using assms unfolding db_rel_def by auto

lemma ExpireAtMs_refines:
  assumes "\<not> IsSharder (config E)" "db_rel E db A" "nul_free k"
  shows "refines E (ExpireAtMs E k t db) (a_expire_at E k t A)"
proof -
  obtain db1 where d: "dict_Find E k db = Some (dmap db k, db1)" "db_rel E db1 A" "dmap db1 = dmap db"
    by (rule dict_Find_keep [OF assms(2,3)])
  note iff = dmap_None_iff [OF assms(2), of k]
  note inv = db_relD(2) [OF d(2)]
  note simps = ExpireAtMs_def plain_shard [OF assms(1)] a_expire_at_def refinesI
  show ?thesis
  proof (cases "IsExpirationDisable (config E) \<or> vals A k = None \<or> t \<le> cur_ms E")
    case True
    with d(1,2) assms(2) iff show ?thesis by (auto simp: simps)
  next
    case False
    then obtain e v where F: "\<not> IsExpirationDisable (config E)" "vals A k = Some v" "dmap db k = Some e" "cur_ms E < t"
      using iff by fastforce
    show ?thesis
    proof (cases "tt_map fst (exp_dict db1) k")
      case None
      then obtain x where x: "TreeTable_InsertWithDuplicate strcmp (hash_str E) fst (k, t) (exp_dict db1) = Some (True, (k, t), x)"
          "tt_inv strcmp nul_free (hash_str E) fst x" "tt_map fst x = (tt_map fst (exp_dict db1))(k \<mapsto> (k, t))"
        using str_key.tt_Insert [OF inv, of "(k, t)"] assms(3) by auto
      with exp_update_rel [OF d(2) x(2,3)] d(1) F show ?thesis by (simp add: simps)
    next
      case (Some kt)
      then obtain x where x: "TreeTable_InsertWithDuplicate strcmp (hash_str E) fst (k, t) (exp_dict db1) = Some (False, kt, x)"
          "tt_inv strcmp nul_free (hash_str E) fst x" "tt_map fst x = tt_map fst (exp_dict db1)"
        using str_key.tt_Insert [OF inv, of "(k, t)"] assms(3) by auto
      have k: "fst kt = k" using Some keyed_map_SomeD by (fastforce simp: tt_map_def)
      let ?x = "TreeTable_assign fst (k, t) x"
      have "tt_inv strcmp nul_free (hash_str E) fst ?x" "tt_map fst ?x = (tt_map fst (exp_dict db1))(k \<mapsto> (k, t))"
        using TreeTable_assign_inv [OF x(2)] TreeTable_assign_map [of fst x "(k, t)" kt] x(3) Some by simp_all
      with exp_update_rel [OF d(2)] x(1) k d(1) F show ?thesis by (simp add: simps)
    qed
  qed
qed
lemma Persist_refines:
  assumes "\<not> IsSharder (config E)" "db_rel E db A" "nul_free k"
  shows "refines E (Persist E k db)
    (if vals A k = None then (S_NONEXISTS, (), A) else (S_OK, (), A\<lparr>exps := (exps A)(k := None)\<rparr>))"
proof -
  obtain db1 where d: "dict_Find E k db = Some (dmap db k, db1)" "db_rel E db1 A" "dmap db1 = dmap db"
    by (rule dict_Find_keep [OF assms(2,3)])
  obtain db2 where x: "exp_Erase E k db1 = Some db2" "db_rel E db2 (A\<lparr>exps := (exps A)(k := None)\<rparr>)"
    using exp_Erase_keep [OF d(2) assms(3)] by blast
  show ?thesis
  proof (cases "vals A k")
    case None
    then have "dmap db k = None" using dmap_None_iff [OF assms(2)] by simp
    with None d show ?thesis by (simp add: Persist_def plain_shard [OF assms(1)] refinesI)
  next
    case (Some v)
    then obtain e where "dmap db k = Some e" using dmap_None_iff [OF assms(2), of k] by fastforce
    with Some d x show ?thesis by (simp add: Persist_def plain_shard [OF assms(1)] refinesI)
  qed
qed

text \<open>The two questions about an expiration; neither removes the key when it has passed.\<close>

lemma GetExpiration_refines:
  assumes "db_rel E db A" "nul_free k"
  shows "refines E (GetExpiration E k db) (if exps A k = None then S_NONEXISTS else S_OK, exps A k, A)"
proof -
  obtain r db' where "exp_Find E k db = Some (r, db')" "db_rel E db' A" "map_option snd r = exps A k"
    using exp_Find_rel [OF assms] by blast
  then show ?thesis by (cases r) (auto simp: GetExpiration_def intro!: refinesI)
qed

lemma GetTimeToLive_refines:
  assumes "db_rel E db A" "nul_free k"
  shows "refines E (GetTimeToLive E k db)
    (if exps A k = None then S_NONEXISTS else S_OK, map_option (\<lambda>t. t - cur_ms E) (exps A k), A)"
proof -
  obtain r db' where "exp_Find E k db = Some (r, db')" "db_rel E db' A" "map_option snd r = exps A k"
    using exp_Find_rel [OF assms] by blast
  then show ?thesis by (cases r) (auto simp: GetTimeToLive_def intro!: refinesI)
qed

section \<open>The periodic check\<close>

lemma range_for_tree_elems: "range_for_tree ht = Some (tt_elems ht)"
  using tree_cursor.Iter_all [of _ ht] by (simp add: range_for_tree_def tt_elems_def)

lemma tt_elems_ok:
  assumes "tt_inv cmp K hf gk ht" "x \<in> set (tt_elems ht)"
  shows "K (gk x)"
proof -
  have "K (gk x)" if "ttable_ok cmp K hf gk t" "x \<in> set (tree_elems t)" for t
  proof -
    from that(2) obtain b where b: "b \<in> set (buckets t)" "x \<in> set (inorder b)" by auto
    then obtain i where "i < tsize t" "b = buckets t ! i" by (auto simp: in_set_conv_nth)
    with that(1) b(2) show ?thesis by (simp add: ttable_ok_def tree_ok_def)
  qed
  with assms show ?thesis
    using tt_invD(1,4,5) [OF assms(1)] by (cases "rehash_idx ht") (auto simp: tt_elems_def)
qed

lemma expire_loop_ok:
  assumes "tt_inv strcmp nul_free (hash_str E) ekey (dict db)" "distinct (map fst kvs)" "\<forall>kv \<in> set kvs. nul_free (fst kv) \<and> dmap db (fst kv) \<noteq> None"
  shows "\<exists>d. expire_loop E kvs db = Some (map fst (filter (\<lambda>kv. snd kv \<le> cur_ms E) kvs), db\<lparr>dict := d\<rparr>)
    \<and> tt_inv strcmp nul_free (hash_str E) ekey d
    \<and> tt_map ekey d = (dmap db) |` (- set (map fst (filter (\<lambda>kv. snd kv \<le> cur_ms E) kvs)))"
  using assms
proof (induction kvs arbitrary: db)
  case Nil
  then show ?case by (intro exI [of _ "dict db"]) (simp add: restrict_map_def)
next
  case (Cons kv kvs)
  show ?case
  proof (cases "snd kv \<le> cur_ms E")
    case False
    with Cons show ?thesis by simp
  next
    case True
    from Cons.prems(3) have n: "nul_free (fst kv)" "dmap db (fst kv) \<noteq> None" by auto
    then obtain e where e: "dmap db (fst kv) = Some e" by auto
    obtain h d where d: "TreeTable_Extract strcmp (hash_str E) ekey (fst kv) (dict db) = Some (Some (e, h), d)"
        "tt_inv strcmp nul_free (hash_str E) ekey d" "tt_map ekey d = (dmap db)(fst kv := None)"
      using str_key.tt_Extract [OF Cons.prems(1) n(1)] e by auto
    have "\<forall>x \<in> set kvs. nul_free (fst x) \<and> dmap (db\<lparr>dict := d\<rparr>) (fst x) \<noteq> None"
      using Cons.prems(2,3) d(3) by (auto simp: image_iff)
    then obtain d' where d': "expire_loop E kvs (db\<lparr>dict := d\<rparr>) = Some (map fst (filter (\<lambda>kv. snd kv \<le> cur_ms E) kvs), db\<lparr>dict := d'\<rparr>)"
        "tt_inv strcmp nul_free (hash_str E) ekey d'"
        "tt_map ekey d' = (tt_map ekey d) |` (- set (map fst (filter (\<lambda>kv. snd kv \<le> cur_ms E) kvs)))"
      using Cons.IH [of "db\<lparr>dict := d\<rparr>"] d(2) Cons.prems(2) by auto
    from d'(3) d(3) have "tt_map ekey d' = (dmap db) |` (- set (map fst (filter (\<lambda>kv. snd kv \<le> cur_ms E) (kv # kvs))))"
      using True by (auto simp: restrict_map_def fun_eq_iff)
    with d(1) d'(1,2) True show ?thesis by (intro exI [of _ d']) (simp add: dict_Extract_def assertion_def)
  qed
qed

lemma exp_erase_all_ok:
  assumes "tt_inv strcmp nul_free (hash_str E) fst (exp_dict db)" "\<forall>k \<in> set ks. nul_free k"
  shows "\<exists>x. exp_erase_all E ks db = Some (db\<lparr>exp_dict := x\<rparr>) \<and> tt_inv strcmp nul_free (hash_str E) fst x
    \<and> tt_map fst x = (tt_map fst (exp_dict db)) |` (- set ks)"
  using assms
proof (induction ks arbitrary: db)
  case Nil
  then show ?case by (intro exI [of _ "exp_dict db"]) (simp add: restrict_map_def)
next
  case (Cons k ks)
  obtain x where x: "exp_Erase E k db = Some (db\<lparr>exp_dict := x\<rparr>)" "tt_inv strcmp nul_free (hash_str E) fst x"
      "tt_map fst x = (tt_map fst (exp_dict db))(k := None)"
    using exp_Erase_rel [OF Cons.prems(1), of k] Cons.prems(2) by auto
  obtain y where y: "exp_erase_all E ks (db\<lparr>exp_dict := x\<rparr>) = Some (db\<lparr>exp_dict := y\<rparr>)" "tt_inv strcmp nul_free (hash_str E) fst y"
      "tt_map fst y = (tt_map fst x) |` (- set ks)"
    using Cons.IH [of "db\<lparr>exp_dict := x\<rparr>"] x(2) Cons.prems(2) by auto
  have "tt_map fst y = (tt_map fst (exp_dict db)) |` (- set (k # ks))" using x(3) y(3) by (auto simp: restrict_map_def fun_eq_iff)
  with x(1) y(1,2) show ?case by (intro exI [of _ y]) simp
qed

lemma fold_AppendDel: "fold (AppendDel E) ks db = db\<lparr>rlog := rlog db @ (if log_method (config E) = LM_REQUEST then ks else [])\<rparr>"
  by (induction ks arbitrary: db) (simp_all add: AppendDel_def)

text \<open>The keys the check removes and logs, in the order it meets them.\<close>

lemma CheckExpireCycle_rel:
  assumes rel: "db_rel E db A"
  shows "\<exists>ks db'. CheckExpireCycle E db = Some db' \<and> distinct ks \<and> set ks = {k. \<exists>t. exps A k = Some t \<and> t \<le> cur_ms E}
    \<and> db_rel E db' (A\<lparr>vals := (vals A) |` (- set ks), exps := (exps A) |` (- set ks),
        alog := alog A @ (if log_method (config E) = LM_REQUEST then ks else [])\<rparr>)"
proof -
  let ?kvs = "tt_elems (exp_dict db)"
  let ?ks = "map fst (filter (\<lambda>kv. snd kv \<le> cur_ms E) ?kvs)"
  note ix = db_relD(2) [OF rel]
  have el: "exps A (fst kv) = Some (snd kv)" if "kv \<in> set ?kvs" for kv
    using tt_map_Some [OF tt_invD(2) [OF ix] that] db_relD(5) [OF rel, of "fst kv"] by simp
  have d: "distinct (map fst ?kvs)" using tt_invD(2) [OF ix] .
  have "\<forall>kv \<in> set ?kvs. nul_free (fst kv) \<and> dmap db (fst kv) \<noteq> None"
    using tt_elems_ok [OF ix] db_relD(7) [OF rel el] dmap_None_iff [OF rel] by blast
  then obtain t where t: "expire_loop E ?kvs db = Some (?ks, db\<lparr>dict := t\<rparr>)" "tt_inv strcmp nul_free (hash_str E) ekey t"
      "tt_map ekey t = (dmap db) |` (- set ?ks)"
    using expire_loop_ok [OF db_relD(1) [OF rel] d] by blast
  obtain x where x: "exp_erase_all E ?ks (db\<lparr>dict := t\<rparr>) = Some (db\<lparr>dict := t, exp_dict := x\<rparr>)" "tt_inv strcmp nul_free (hash_str E) fst x"
      "tt_map fst x = (tt_map fst (exp_dict db)) |` (- set ?ks)"
    using exp_erase_all_ok [of E "db\<lparr>dict := t\<rparr>" ?ks] ix tt_elems_ok [OF ix] by auto
  have ks: "set ?ks = {k. \<exists>t. exps A k = Some t \<and> t \<le> cur_ms E}"
  proof (intro set_eqI iffI)
    fix k assume "k \<in> {k. \<exists>t. exps A k = Some t \<and> t \<le> cur_ms E}"
    then obtain kt where "tt_map fst (exp_dict db) k = Some kt" "snd kt \<le> cur_ms E" using db_relD(5) [OF rel, of k] by auto
    then show "k \<in> set ?ks" using keyed_map_SomeD [of fst ?kvs k kt] by (auto simp: tt_map_def)
  qed (use el in auto)
  let ?db = "db\<lparr>dict := t, exp_dict := x, rlog := rlog db @ (if log_method (config E) = LM_REQUEST then ?ks else [])\<rparr>"
  have "CheckExpireCycle E db = Some ?db"
    by (simp only: CheckExpireCycle_def range_for_tree_elems t(1) x(1) fold_AppendDel Option.bind.simps prod.case) simp
  moreover have "db_rel E ?db (A\<lparr>vals := (vals A) |` (- set ?ks), exps := (exps A) |` (- set ?ks),
        alog := alog A @ (if log_method (config E) = LM_REQUEST then ?ks else [])\<rparr>)"
    using rel t(2,3) x(2,3) unfolding db_rel_def by (auto simp: restrict_map_def simp del: set_map set_filter)
  moreover have "distinct ?ks" using d by (simp add: distinct_map_filter)
  ultimately show ?thesis using ks by blast
qed

end
