(* ===== verification/KvdbProps.thy ===== *)
theory KvdbProps
  imports KvdbKeys
begin

text \<open>
  The properties of a database instance: its commands refine their specifications when there is neither a cache nor a
  shard controller, and the inputs on which they fail.
\<close>

section \<open>An instance\<close>

lemma new_rel:
  assumes "replace_policy cf = RP_NONE"
  shows "db_rel E (MmkvDb_new nc cf) \<lparr>vals = Map.empty, exps = Map.empty, alog = []\<rparr>"
proof -
  have "tt_map (ekey :: entry \<Rightarrow> string) TreeHashTable_new = Map.empty" "tt_map (fst :: string \<times> nat \<Rightarrow> string) TreeHashTable_new = Map.empty"
    by (rule tt_map_empty [OF TreeHashTable_new_ok(2)])+
  then show ?thesis using assms by (simp add: db_rel_def MmkvDb_new_def TreeHashTable_new_ok(1))
qed

text \<open>A server that logs, expires lazily and neither replaces nor shards keys, at time 100.\<close>

definition ex_config :: mmkv_config where
  "ex_config = \<lparr>log_method = LM_NONE, replace_policy = RP_NONE, lazy_expiration = True, max_memory_usage = 0,
     expiration_check_cycle = 0, shard_controller_endpoint = [], shard_num = 1, thread_num = 1\<rparr>"

definition ex_env :: "addr list_cache env" where
  "ex_env = \<lparr>config = ex_config, hash_str = length, hash_ptr = (\<lambda>a. a), hash_shard = unat, XXH64 = length, cur_ms = 100,
     memory_usage = 0, vtable = LruCache_vtable (\<lambda>a. a)\<rparr>"

definition ex_new :: "addr list_cache kvdb" where
  "ex_new = MmkvDb_new (\<lambda>_. cache_new 0) ex_config"

abbreviation ex_adb :: adb where
  "ex_adb \<equiv> \<lparr>vals = Map.empty, exps = Map.empty, alog = []\<rparr>"

lemma ex_env_simps [simp]:
  "config ex_env = ex_config" "cur_ms ex_env = 100" "log_method ex_config = LM_NONE" "lazy_expiration ex_config"
  "\<not> IsSharder ex_config" "\<not> IsExpirationDisable ex_config" "memory_usage ex_env = 0" "max_memory_usage ex_config = 0"
  by (simp_all add: ex_env_def ex_config_def IsSharder_def IsExpirationDisable_def)

lemma ex_new_rel: "db_rel ex_env ex_new ex_adb"
  unfolding ex_new_def by (rule new_rel) (simp add: ex_config_def)

lemma ex_keys [simp]: "nul_free ''a''" "nul_free ''b''"
  by simp_all

text \<open>The state after a command, with the abstract database it represents.\<close>

lemma refines_step:
  assumes "refines E (f db) (S_OK, r, A)"
  obtains db' where "f db = Some (S_OK, r, db')" "db_rel E db' A"
  using assms by (auto simp: refines_by_def)

section \<open>Strings and lists\<close>







section \<open>Containers\<close>

text \<open>
  C9. The map commands implement their specifications: \<^verbatim>\<open>MapAdd\<close> adds the fields that are not there and counts them,
  \<^verbatim>\<open>MapSet\<close> writes one, \<^verbatim>\<open>MapDel\<close> removes one, \<^verbatim>\<open>MapGets\<close> answers the values up to the first missing field, and the
  commands that list a map list every field exactly once.
\<close>

theorem map_commands_refine:
  assumes "\<not> IsSharder (config E)" "db_rel E db A" "nul_free k"
  shows "refines E (MapAdd E k kvs db) (a_extend k (VMap Map.empty) None
      (\<lambda>v. (Some (card (fst ` set kvs - dom (un_map v))), VMap (map_of kvs ++ un_map v))) A)
    \<and> refines E (MapSet E k f x db) (a_modify E D_MAP k (\<lambda>v. (S_OK, VMap ((un_map v)(f \<mapsto> x)))) A)
    \<and> refines E (MapDel E k f db) (a_modify E D_MAP k
        (\<lambda>v. (if un_map v f \<noteq> None then S_OK else S_FIELD_NONEXISTS, VMap ((un_map v)(f := None)))) A)
    \<and> refines E (MapGet E k f db) (a_query E D_MAP k None (\<lambda>v. (if un_map v f \<noteq> None then S_OK else S_FIELD_NONEXISTS, un_map v f)) A)
    \<and> refines E (MapExists E k f db) (a_query E D_MAP k () (\<lambda>v. (if un_map v f \<noteq> None then S_OK else S_FIELD_NONEXISTS, ())) A)
    \<and> refines E (MapGets E k fs db) (a_query E D_MAP k [] (\<lambda>v. (if \<forall>f \<in> set fs. un_map v f \<noteq> None then S_OK else S_FIELD_NONEXISTS,
        map (the \<circ> un_map v) (takeWhile (\<lambda>f. un_map v f \<noteq> None) fs))) A)
    \<and> refines_by (\<lambda>_ kvs m. distinct (map fst kvs) \<and> map_of kvs = m) E (MapAll E k db) (a_query E D_MAP k Map.empty (\<lambda>v. (S_OK, un_map v)) A)
    \<and> refines_by (\<lambda>_ fs D. distinct fs \<and> set fs = D) E (MapFields E k db) (a_query E D_MAP k {} (\<lambda>v. (S_OK, dom (un_map v))) A)"
  using MapAdd_refines [OF assms] MapSet_refines [OF assms] MapDel_refines [OF assms] MapGet_refines [OF assms(2,3)]
    MapExists_refines [OF assms(2,3)] MapGets_refines [OF assms(2,3)]
    map_listing [OF assms(2,3), of "\<lambda>kvs m. distinct (map fst kvs) \<and> map_of kvs = m" "\<lambda>kvs. kvs" "\<lambda>m. m"]
    map_listing [OF assms(2,3), of "\<lambda>fs D. distinct fs \<and> set fs = D" "map fst" dom]
  by (simp add: MapAll_def MapFields_def dom_map_of_conv_image_fst)

theorem map_commands_refine_witness:
  "\<exists>db. MapAdd ex_env ''a'' [(''f'', ''1''), (''g'', ''2''), (''f'', ''3'')] ex_new = Some (S_OK, Some 2, db)
     \<and> db_rel ex_env db (ex_adb\<lparr>vals := [''a'' \<mapsto> VMap [''g'' \<mapsto> ''2'', ''f'' \<mapsto> ''1'']]\<rparr>)"
proof -
  let ?kvs = "[(''f'', ''1''), (''g'', ''2''), (''f'', ''3'')]"
  have m: "map_of ?kvs = [''g'' \<mapsto> ''2'', ''f'' \<mapsto> ''1'']" by (auto simp: fun_eq_iff)
  have "a_extend ''a'' (VMap Map.empty) None (\<lambda>v. (Some (card (fst ` set ?kvs - dom (un_map v))), VMap (map_of ?kvs ++ un_map v))) ex_adb
      = (S_OK, Some 2, ex_adb\<lparr>vals := [''a'' \<mapsto> VMap [''g'' \<mapsto> ''2'', ''f'' \<mapsto> ''1'']]\<rparr>)"
    by (simp add: a_extend_def m card_insert_if del: map_of.simps)
  with map_commands_refine [OF _ ex_new_rel ex_keys(1), of ?kvs, THEN conjunct1] show ?thesis by (simp add: refines_by_def)
qed

text \<open>
  C10. The set commands implement their specifications, and intersection, union and difference of the sets of two
  different keys answer each member of the result exactly once, or their number, leaving both sets as they are.
\<close>

theorem set_commands_refine:
  assumes "\<not> IsSharder (config E)" "db_rel E db A" "nul_free k"
  shows "refines E (SetAdd E k ms db) (a_extend k (VSet {}) None (\<lambda>v. (Some (card (set ms - un_set v)), VSet (un_set v \<union> set ms))) A)
    \<and> refines E (SetDelm E k m db) (a_modify E D_SET k (\<lambda>v. (if m \<in> un_set v then S_OK else S_SET_MEMBER_NONEXISTS, VSet (un_set v - {m}))) A)
    \<and> refines E (SetExists E k m db) (a_query E D_SET k () (\<lambda>v. (if m \<in> un_set v then S_OK else S_SET_MEMBER_NONEXISTS, ())) A)
    \<and> (nul_free k2 \<and> k \<noteq> k2 \<longrightarrow>
        refines_by (\<lambda>_ ms S. distinct ms \<and> set ms = S) E (SetAnd E k k2 db) (a_set_op E k k2 {} (\<inter>) A)
      \<and> refines_by (\<lambda>_ ms S. distinct ms \<and> set ms = S) E (SetOr E k k2 db) (a_set_op E k k2 {} (\<union>) A)
      \<and> refines_by (\<lambda>_ ms S. distinct ms \<and> set ms = S) E (SetSub E k k2 db) (a_set_op E k k2 {} (-) A)
      \<and> refines E (SetAndSize E k k2 db) (a_set_op E k k2 None (\<lambda>S T. Some (card (S \<inter> T))) A)
      \<and> refines E (SetOrSize E k k2 db) (a_set_op E k k2 None (\<lambda>S T. Some (card (S \<union> T))) A)
      \<and> refines E (SetSubSize E k k2 db) (a_set_op E k k2 None (\<lambda>S T. Some (card (S - T))) A))"
proof -
  have o: "op_sets And = (\<inter>)" "op_sets Or = (\<union>)" "op_sets Sub = (-)" by (simp_all add: op_sets_def fun_eq_iff)
  have m: "refines_by (\<lambda>_ ms S. distinct ms \<and> set ms = S) E (SET_OP_ROUTINE E k k2 [] (\<lambda>e1 e2 db.
        do { (ms, db) \<leftarrow> set_members E x e1 e2 db; Some (S_OK, ms, db) }) db) (a_set_op E k k2 {} (op_sets x) A)"
    and c: "refines E (SET_OP_ROUTINE E k k2 None (\<lambda>e1 e2 db.
        do { (ms, db) \<leftarrow> set_members E x e1 e2 db; Some (S_OK, Some (length ms), db) }) db) (a_set_op E k k2 None (\<lambda>S T. Some (card (op_sets x S T))) A)"
    if "nul_free k2 \<and> k \<noteq> k2" for x
    using set_op_refines [OF assms(2,3), of k2 "\<lambda>ms S. distinct ms \<and> set ms = S" "\<lambda>ms. ms" "\<lambda>S. S" "[]" "{}" x]
      set_op_refines [OF assms(2,3), of k2 "(=)" "\<lambda>ms. Some (length ms)" "\<lambda>S. Some (card S)" None None x] that
    by (simp_all add: distinct_card)
  show ?thesis using SetAdd_refines [OF assms] SetDelm_refines [OF assms] SetExists_refines [OF assms(2,3)] m [of And] m [of Or] m [of Sub]
      c [of And] c [of Or] c [of Sub]
    by (simp add: o SetAnd_def SetOr_def SetSub_def SetAndSize_def SetOrSize_def SetSubSize_def)
qed

theorem set_commands_refine_witness:
  "\<exists>db. SetAdd ex_env ''a'' [''x'', ''y'', ''x''] ex_new = Some (S_OK, Some 2, db)
     \<and> db_rel ex_env db (ex_adb\<lparr>vals := [''a'' \<mapsto> VSet {''x'', ''y''}]\<rparr>)"
  using set_commands_refine [OF _ ex_new_rel ex_keys(1), of "[''x'', ''y'', ''x'']", THEN conjunct1]
  by (simp add: refines_by_def a_extend_def card_insert_if insert_commute numeral_2_eq_2)



section \<open>Keys and expirations\<close>



text \<open>A string under a key, and its expiration.\<close>

lemma ex_string:
  obtains db where "InsertStr ex_env ''a'' ''x'' ex_new = Some (S_OK, (), db)" "db_rel ex_env db (ex_adb\<lparr>vals := [''a'' \<mapsto> VStr ''x'']\<rparr>)"
  using InsertStr_refines [OF _ ex_new_rel ex_keys(1), of "''x''"] by (auto simp: refines_by_def a_new_def)

lemma ex_expiring:
  obtains db db' where "InsertStr ex_env ''a'' ''x'' ex_new = Some (S_OK, (), db)" "ExpireAtMs ex_env ''a'' 150 db = Some (S_OK, (), db')"
    "db_rel ex_env db' (ex_adb\<lparr>vals := [''a'' \<mapsto> VStr ''x''], exps := [''a'' \<mapsto> 150]\<rparr>)"
proof -
  obtain db where db: "InsertStr ex_env ''a'' ''x'' ex_new = Some (S_OK, (), db)" "db_rel ex_env db (ex_adb\<lparr>vals := [''a'' \<mapsto> VStr ''x'']\<rparr>)"
    by (rule ex_string)
  with ExpireAtMs_refines [OF _ db(2) ex_keys(1), of 150] that show thesis by (auto simp: refines_by_def a_expire_at_def)
qed

text \<open>
  C12. The periodic check removes from both dictionaries exactly the keys whose time has come, logs each of them once
  when requests are logged, and keeps everything else.
\<close>

theorem expire_cycle_correct:
  assumes "db_rel E db A"
  shows "\<exists>ks db'. CheckExpireCycle E db = Some db' \<and> distinct ks \<and> set ks = {k. \<exists>t. exps A k = Some t \<and> t \<le> cur_ms E}
    \<and> db_rel E db' (A\<lparr>vals := (vals A) |` (- set ks), exps := (exps A) |` (- set ks),
        alog := alog A @ (if log_method (config E) = LM_REQUEST then ks else [])\<rparr>)"
  by (rule CheckExpireCycle_rel [OF assms])

text \<open>What the relation says depends neither on the clock nor on the configuration.\<close>

lemma db_rel_clock [simp]: "db_rel (E\<lparr>cur_ms := c\<rparr>) db A = db_rel E db A" "db_rel (E\<lparr>config := cf\<rparr>) db A = db_rel E db A"
  by (simp_all add: db_rel_def)

theorem expire_cycle_correct_witness:
  "\<exists>db db' db''. InsertStr ex_env ''a'' ''x'' ex_new = Some (S_OK, (), db) \<and> ExpireAtMs ex_env ''a'' 150 db = Some (S_OK, (), db')
     \<and> CheckExpireCycle (ex_env\<lparr>cur_ms := 200\<rparr>) db' = Some db'' \<and> db_rel ex_env db'' ex_adb"
proof -
  let ?A = "ex_adb\<lparr>vals := [''a'' \<mapsto> VStr ''x''], exps := [''a'' \<mapsto> 150]\<rparr>"
  obtain db db' where d: "InsertStr ex_env ''a'' ''x'' ex_new = Some (S_OK, (), db)" "ExpireAtMs ex_env ''a'' 150 db = Some (S_OK, (), db')"
      "db_rel ex_env db' ?A"
    by (rule ex_expiring)
  then have "db_rel (ex_env\<lparr>cur_ms := 200\<rparr>) db' ?A" by simp
  from expire_cycle_correct [OF this] obtain ks db'' where c: "CheckExpireCycle (ex_env\<lparr>cur_ms := 200\<rparr>) db' = Some db''"
      "set ks = {k. \<exists>t. exps ?A k = Some t \<and> t \<le> cur_ms (ex_env\<lparr>cur_ms := 200\<rparr>)}"
      "db_rel ex_env db'' (?A\<lparr>vals := (vals ?A) |` (- set ks), exps := (exps ?A) |` (- set ks), alog := alog ?A @ []\<rparr>)"
    by auto
  have "set ks = {''a''}" unfolding c(2) by auto
  with c(3) have "db_rel ex_env db'' ex_adb" by simp
  with c(1) d(1,2) show ?thesis by blast
qed

section \<open>Failures\<close>

subsection \<open>Expirations left behind\<close>

lemma expire_loop_stuck:
  "tt_inv strcmp nul_free (hash_str E) ekey (dict db) \<Longrightarrow> \<forall>x \<in> set kvs. nul_free (fst x) \<Longrightarrow>
   kv \<in> set kvs \<Longrightarrow> snd kv \<le> cur_ms E \<Longrightarrow> dmap db (fst kv) = None \<Longrightarrow> expire_loop E kvs db = None"
proof (induction kvs arbitrary: db)
  case (Cons x kvs)
  show ?case
  proof (cases "snd x \<le> cur_ms E")
    case False
    with Cons show ?thesis by auto
  next
    case True
    obtain h d where d: "TreeTable_Extract strcmp (hash_str E) ekey (fst x) (dict db) = Some (map_option (\<lambda>e. (e, h)) (dmap db (fst x)), d)"
        "tt_inv strcmp nul_free (hash_str E) ekey d" "tt_map ekey d = (dmap db)(fst x := None)"
      using str_key.tt_Extract [OF Cons.prems(1), of "fst x"] Cons.prems(2) by auto
    show ?thesis
    proof (cases "dmap db (fst x)")
      case None
      with d(1) True show ?thesis by (simp add: dict_Extract_def assertion_def)
    next
      case (Some e)
      with Cons.prems(3,5) have "kv \<in> set kvs" by auto
      with Cons.IH [of "db\<lparr>dict := d\<rparr>"] Cons.prems d(2,3) have "expire_loop E kvs (db\<lparr>dict := d\<rparr>) = None" by simp
      with d(1) True Some show ?thesis by (simp add: dict_Extract_def assertion_def)
    qed
  qed
qed simp

text \<open>An expiration of a key that is not there stops both ways of expiring it once its time has come.\<close>

lemma stale_expiration:
  assumes inv: "tt_inv strcmp nul_free (hash_str E) ekey (dict db)" "tt_inv strcmp nul_free (hash_str E) fst (exp_dict db)"
    and k: "nul_free k" "dmap db k = None" "tt_map fst (exp_dict db) k = Some kt" "snd kt \<le> cur_ms E"
  shows "lazy_expiration (config E) \<Longrightarrow> CheckExpire E k db = None" "CheckExpireCycle E db = None"
proof -
  show "CheckExpire E k db = None" if "lazy_expiration (config E)"
  proof -
    obtain loc x x' where x: "TreeTable_FindNode strcmp (hash_str E) fst k (exp_dict db) = Some (Some loc, x)" "deref_node loc x = Some kt"
        "TreeTable_EraseNode loc x = Some (True, x')"
      using FindNode_present [OF inv(2) k(1,3)] by metis
    obtain d where "TreeTable_Extract strcmp (hash_str E) ekey k (dict db) = Some (None, d)"
      using str_key.tt_Extract [OF inv(1) k(1)] k(2) by auto
    then show ?thesis using that x k(4) by (simp add: CheckExpire_def exp_FindNode_def dict_Extract_def assertion_def)
  qed
  have "kt \<in> set (tt_elems (exp_dict db))" "fst kt = k" using k(3) keyed_map_SomeD [of fst "tt_elems (exp_dict db)" k kt] by (auto simp: tt_map_def)
  then have "expire_loop E (tt_elems (exp_dict db)) db = None"
    using expire_loop_stuck [OF inv(1), of "tt_elems (exp_dict db)" kt] tt_elems_ok [OF inv(2)] k(2,4) by auto
  then show "CheckExpireCycle E db = None" by (simp add: CheckExpireCycle_def range_for_tree_elems)
qed

text \<open>
  C39. \<^verbatim>\<open>EraseStr\<close> of a string with an expiration succeeds but leaves the expiration in \<^verbatim>\<open>exp_dict_\<close>. When its time has
  come, the lazy check of that key fails its assertion and the periodic check dereferences a null node.
\<close>

theorem erase_str_stale_expiration:
  assumes "\<not> IsSharder (config E)" "db_rel E db A" "nul_free k" "vals A k = Some (VStr s)" "exps A k = Some t" "t \<le> now"
  shows "\<exists>db'. EraseStr E k db = Some (S_OK, (), db') \<and> CheckExpireCycle (E\<lparr>cur_ms := now\<rparr>) db' = None
    \<and> (lazy_expiration (config E) \<longrightarrow> CheckExpire (E\<lparr>cur_ms := now\<rparr>) k db' = None)"
proof -
  obtain loc d e d' where d: "TreeTable_FindNode strcmp (hash_str E) ekey k (dict db) = Some (Some loc, d)" "deref_node loc d = Some e"
      "dtype (edata e) = aval_type (VStr s)" "db_rel E (db\<lparr>dict := d\<rparr>) A" "TreeTable_EraseNode loc d = Some (True, d')"
      "tt_inv strcmp nul_free (hash_str E) ekey d'" "tt_map ekey d' = (dmap db)(k := None)"
    by (rule erase_slot [OF assms(2-4)])
  let ?db = "db\<lparr>dict := d'\<rparr>" and ?E = "E\<lparr>cur_ms := now\<rparr>"
  obtain kt where kt: "tt_map fst (exp_dict db) k = Some kt" "snd kt = t"
    using db_relD(5) [OF assms(2), of k] assms(5) by (cases "tt_map fst (exp_dict db) k") auto
  have "EraseStr E k db = Some (S_OK, (), ?db)"
    using d db_relD(3) [OF assms(2)] by (simp add: EraseStr_def plain_shard [OF assms(1)] plain_cache)
  with stale_expiration [of ?E ?db k kt] d(6,7) db_relD(2) [OF assms(2)] assms(3,6) kt show ?thesis by simp
qed

theorem erase_str_stale_expiration_witness:
  "\<exists>db db' db''. InsertStr ex_env ''a'' ''x'' ex_new = Some (S_OK, (), db) \<and> ExpireAtMs ex_env ''a'' 150 db = Some (S_OK, (), db')
     \<and> EraseStr ex_env ''a'' db' = Some (S_OK, (), db'') \<and> CheckExpireCycle (ex_env\<lparr>cur_ms := 150\<rparr>) db'' = None"
proof -
  obtain db db' where d: "InsertStr ex_env ''a'' ''x'' ex_new = Some (S_OK, (), db)" "ExpireAtMs ex_env ''a'' 150 db = Some (S_OK, (), db')"
      "db_rel ex_env db' (ex_adb\<lparr>vals := [''a'' \<mapsto> VStr ''x''], exps := [''a'' \<mapsto> 150]\<rparr>)"
    by (rule ex_expiring)
  from erase_str_stale_expiration [OF _ d(3) ex_keys(1), of "''x''" 150 150] d(1,2) show ?thesis by auto
qed

subsection \<open>Keys moved away, null keys and counts\<close>

text \<open>
  When requests are logged and \<^verbatim>\<open>ListAppend\<close> finds its key expired, the key has been moved into the log: the list
  is created under the empty key, and the key asked for stays absent.
\<close>

theorem list_append_moved_key:
  assumes "\<not> IsSharder (config E)" "db_rel E db A" "nul_free k" "expired E k A" "log_method (config E) = LM_REQUEST" "vals A [] = None" "k \<noteq> []"
  shows "refines E (ListAppend E k els db) (S_OK, (), put [] (VList els) (expire_key E k A)) \<and> vals (put [] (VList els) (expire_key E k A)) k = None"
proof -
  let ?A = "expire_key E k A"
  obtain db' where x: "CheckExpire E k db = Some (True, db')" "db_rel E db' ?A"
    using CheckExpire_rel [OF assms(2,3)] assms(4) by auto
  have n: "vals ?A [] = None" using assms(6,7) by (simp add: expire_key_def)
  obtain e db2 where e: "InsertKvWithDuplicate E [] D_STRLIST db' = Some (True, e, db2)" "cache db2 = None"
      "db_rel E (set_data e (PStrList els) db2) (put [] (VList els) ?A)"
    using Insert_new_rel [OF x(2) _ n, of D_STRLIST] by auto (metis any_ok.simps(2) aval_of.simps(2) aval_type.simps(2))
  have "key_after_expire E True k = []" using assms(5) by (simp add: key_after_expire_def)
  with e x(1) assms(4,7) show ?thesis by (simp add: ListAppend_def plain_shard [OF assms(1)] plain_cache refinesI)
qed

theorem list_append_moved_key_witness:
  "\<exists>db db'. InsertStr ex_env ''a'' ''x'' ex_new = Some (S_OK, (), db) \<and> ExpireAtMs ex_env ''a'' 150 db = Some (S_OK, (), db')
     \<and> (\<exists>db''. ListAppend (ex_env\<lparr>config := ex_config\<lparr>log_method := LM_REQUEST\<rparr>, cur_ms := 200\<rparr>) ''a'' [''y''] db' = Some (S_OK, (), db'')
          \<and> db_rel ex_env db'' \<lparr>vals = [[] \<mapsto> VList [''y'']], exps = Map.empty, alog = [''a'']\<rparr>)"
proof -
  let ?E = "ex_env\<lparr>config := ex_config\<lparr>log_method := LM_REQUEST\<rparr>, cur_ms := 200\<rparr>"
  let ?A = "ex_adb\<lparr>vals := [''a'' \<mapsto> VStr ''x''], exps := [''a'' \<mapsto> 150]\<rparr>"
  obtain db db' where d: "InsertStr ex_env ''a'' ''x'' ex_new = Some (S_OK, (), db)" "ExpireAtMs ex_env ''a'' 150 db = Some (S_OK, (), db')"
      "db_rel ex_env db' ?A"
    by (rule ex_expiring)
  have x: "expired ?E ''a'' ?A" "\<not> IsSharder (config ?E)" "db_rel ?E db' ?A" using d(3) by (simp_all add: expired_def ex_config_def IsSharder_def)
  have "put [] (VList [''y'']) (expire_key ?E ''a'' ?A) = \<lparr>vals = [[] \<mapsto> VList [''y'']], exps = Map.empty, alog = [''a'']\<rparr>"
    using x(1) by (simp add: expire_key_def log_del_def fun_eq_iff)
  with list_append_moved_key [OF x(2,3) ex_keys(1) x(1), of "[''y'']"] d(1,2) show ?thesis by (simp add: refines_by_def)
qed

text \<open>
  With a replacement cache configured and the memory limit reached, \<^verbatim>\<open>TryReplacekey(nullptr)\<close> dereferences null,
  so \<^verbatim>\<open>InsertStr\<close> of any key fails.
\<close>

theorem insert_str_null_key:
  assumes "\<not> IsSharder (config E)" "cache db = Some c" "max_memory_usage (config E) \<le> memory_usage E"
  shows "InsertStr E k v db = None \<and> TryReplacekey E None db = None"
  using assms by (simp add: InsertStr_def plain_shard TryReplacekey_def)

theorem insert_str_null_key_witness:
  "InsertStr ex_env ''a'' ''x'' (MmkvDb_new (\<lambda>_. cache_new 8) (ex_config\<lparr>replace_policy := RP_LRU\<rparr>)) = None"
  using insert_str_null_key [of ex_env "MmkvDb_new (\<lambda>_. cache_new 8) (ex_config\<lparr>replace_policy := RP_LRU\<rparr>)" "cache_new 8"]
  by (simp add: MmkvDb_new_def)

end
