(* ===== verification/StorageProps.thy ===== *)
theory StorageProps
  imports Storage KvdbProps
begin

text \<open>
  The properties of request execution: responses and states of sequences of requests are those of the abstract
  database, the number and the choice of instances, and the inputs that are answered wrongly or not at all.
\<close>

section \<open>Specification of a request\<close>

definition a_check :: "bool \<Rightarrow> string \<Rightarrow> response \<Rightarrow> adb \<Rightarrow> response \<times> adb \<Rightarrow> response \<times> adb" where
  "a_check cond msg r A rest = (if cond then rest else (SetValue (SetCode S_INVALID_REQUEST r\<lparr>rs_value := msg\<rparr>), A))"

definition a_reply :: "(status_code \<Rightarrow> 'r \<Rightarrow> response \<Rightarrow> response) \<Rightarrow> response \<Rightarrow> status_code \<times> 'r \<times> adb \<Rightarrow> response \<times> adb" where
  "a_reply f r sp = (f (fst sp) (fst (snd sp)) r, snd (snd sp))"

abbreviation a_code :: "response \<Rightarrow> status_code \<times> 'r \<times> adb \<Rightarrow> response \<times> adb" where
  "a_code \<equiv> a_reply (\<lambda>code _. SetCode code)"

definition spec_common :: "'c env \<Rightarrow> nat \<Rightarrow> command \<Rightarrow> request \<Rightarrow> response \<Rightarrow> adb \<Rightarrow> response \<times> adb" where
  "spec_common E rt c rq r A =
     (let k = rq_key rq; t = unat (rq_expire_time rq);
          time_reply = (\<lambda>code n r. SetCode code (SetCount (case n of None \<Rightarrow> r | Some n \<Rightarrow> r\<lparr>rs_count := of_nat n\<rparr>)));
          exp_code = (if exps A k = None then S_NONEXISTS else S_OK) in
      case c of
        EXPIRE_AT \<Rightarrow> a_check (HasKey rq \<and> HasExpireTime rq) ''expireat'' r A (a_code r (a_expire_at E k (t * 1000 mod 2 ^ 64) A))
      | EXPIRE_AFTER \<Rightarrow> a_check (HasKey rq \<and> HasExpireTime rq) ''expireafter'' r A (a_code r (a_expire_at E k ((rt + t * 1000) mod 2 ^ 64) A))
      | EXPIREM_AT \<Rightarrow> a_check (HasKey rq \<and> HasExpireTime rq) ''expiremat'' r A (a_code r (a_expire_at E k t A))
      | EXPIREM_AFTER \<Rightarrow> a_check (HasKey rq \<and> HasExpireTime rq) ''expiremafter'' r A (a_code r (a_expire_at E k ((rt + t) mod 2 ^ 64) A))
      | PERSIST \<Rightarrow> a_check (HasKey rq) ''persist'' r A (a_code r
          (if vals A k = None then (S_NONEXISTS, (), A) else (S_OK, (), A\<lparr>exps := (exps A)(k := None)\<rparr>)))
      | EXPIRATION \<Rightarrow> a_check (HasKey rq) ''expiration'' r A (a_reply time_reply r (exp_code, exps A k, A))
      | TTL \<Rightarrow> a_check (HasKey rq) ''TTL'' r A (a_reply time_reply r (exp_code, map_option (\<lambda>t. t - cur_ms E) (exps A k), A))
      | TYPE_CMD \<Rightarrow> a_check (HasKey rq) ''type'' r A (let A' = expire_key E k A in
          (case vals A' k of None \<Rightarrow> SetCode S_NONEXISTS r | Some v \<Rightarrow> SET_OK_VALUE (GetDataTypeString (aval_type v)) r, A'))
      | DEL \<Rightarrow> a_check (HasKey rq) ''del'' r A
          (SetCode (if vals A k = None then S_OK else S_NONEXISTS) r, if vals A k = None then A else a_remove k A)
      | _ \<Rightarrow> (r, A))"

section \<open>Execution refines it\<close>

definition does :: "'c env \<Rightarrow> 'c reply \<Rightarrow> response \<times> adb \<Rightarrow> bool" where
  "does E rep sp = (\<exists>db. rep = Some (Some (fst sp), db) \<and> db_rel E db (snd sp))"

lemma doesI: "db_rel E db A \<Longrightarrow> does E (Some (Some r, db)) (r, A)"
  by (simp add: does_def)

lemma does_check: "db_rel E db A \<Longrightarrow> (cond \<Longrightarrow> does E rep sp) \<Longrightarrow> does E (CHECK_INVALID_REQUEST cond msg (Some r) db rep) (a_check cond msg r A sp)"
  by (simp add: CHECK_INVALID_REQUEST_def a_check_def does_def)

lemma does_reply:
  assumes "refines E res sp"
  shows "does E (code_if (Some r) res) (a_code r sp)" "does E (reply_if (Some r) f res) (a_reply f r sp)"
    "does E (reply_to (Some r) f res) (a_reply f r sp)"
  using assms by (auto simp: does_def refines_by_def code_if_def reply_if_def reply_to_def a_reply_def)

lemmas does_intros = does_check does_reply

lemma does_common:
  assumes "\<not> IsSharder (config E)" "db_rel E db A" "nul_free (rq_key rq)" "c \<noteq> RENAME"
  shows "does E (Execute_common E rt c rq (Some r) db) (spec_common E rt c rq r A)"
proof -
  note ref = ExpireAtMs_refines [OF assms(1-3)] Persist_refines [OF assms(1-3)] GetExpiration_refines [OF assms(2,3)]
    GetTimeToLive_refines [OF assms(2,3)]
  have ty: "does E (do { (ty, db) \<leftarrow> Type E (rq_key rq) db; r \<leftarrow> Some r;
        Some (Some (case ty of Some t \<Rightarrow> SET_OK_VALUE (GetDataTypeString t) r | None \<Rightarrow> SetCode S_NONEXISTS r), db) })
      (let A' = expire_key E (rq_key rq) A in (case vals A' (rq_key rq) of None \<Rightarrow> SetCode S_NONEXISTS r
        | Some v \<Rightarrow> SET_OK_VALUE (GetDataTypeString (aval_type v)) r, A'))"
  proof -
    obtain db' where "Type E (rq_key rq) db = Some (map_option aval_type (vals (expire_key E (rq_key rq) A) (rq_key rq)), db')"
        "db_rel E db' (expire_key E (rq_key rq) A)"
      using Type_rel [OF assms(2,3)] by blast
    then show ?thesis
      by (cases "vals (expire_key E (rq_key rq) A) (rq_key rq)") (simp_all add: doesI Let_def)
  qed
  have del: "does E (do { (success, _, db) \<leftarrow> Delete E (rq_key rq) db;
        Some (map_option (SetCode (if code_num success \<noteq> 0 then S_OK else S_NONEXISTS)) (Some r), db) })
      (SetCode (if vals A (rq_key rq) = None then S_OK else S_NONEXISTS) r, if vals A (rq_key rq) = None then A else a_remove (rq_key rq) A)"
  proof -
    obtain db' where "Delete E (rq_key rq) db = Some (fst (a_delete (rq_key rq) A), (), db')" "db_rel E db' (snd (snd (a_delete (rq_key rq) A)))"
      using Delete_refines [OF assms(1-3)] by (auto simp: refines_by_def)
    then show ?thesis by (cases "vals A (rq_key rq)") (simp_all add: doesI a_delete_def)
  qed
  show ?thesis
  proof (cases "c \<in> {EXPIRE_AT, EXPIRE_AFTER, EXPIREM_AT, EXPIREM_AFTER, PERSIST, EXPIRATION, TTL, TYPE_CMD, DEL}")
    case True
    then show ?thesis using assms(2) ref ty del
      by (elim insertE emptyE) (simp_all add: Execute_common_def spec_common_def Let_def ExpireAt_def ExpireAfter_def ExpireAfterMs_def does_intros)
  next
    case False
    with assms(2,4) show ?thesis by (cases c) (simp_all add: Execute_common_def spec_common_def Let_def doesI)
  qed
qed

text \<open>
  The commands that have a specification: those not among them depend on where elements are stored, write two keys,
  or have the flaws shown elsewhere.
\<close>

definition spec_execute :: "conv \<Rightarrow> 'c env \<Rightarrow> nat \<Rightarrow> command \<Rightarrow> request \<Rightarrow> response \<Rightarrow> adb \<Rightarrow> response \<times> adb" where
  "spec_execute cv E rt c rq r A =
     (let k = rq_key rq; s = rq_value rq; xs = rq_values rq; n = unat (rq_count rq);
          code_or = (\<lambda>m b. if b then S_OK else m) in
      case c of
        STR_ADD \<Rightarrow> a_check (HasKey rq \<and> HasValue rq) ''stradd'' r A (a_code r (a_new k (VStr s) A))
      | STR_GET \<Rightarrow> a_check (HasKey rq) ''strget'' r A
          (a_reply (\<lambda>code s. SET_XX_ELSE_CODE (SET_OK_VALUE (the s)) code) r (a_get E k A))
      | STR_SET \<Rightarrow> a_check (HasKey rq \<and> HasValue rq) ''strset'' r A (a_code r (a_set E k s A))
      | STRLEN \<Rightarrow> a_check (HasKey rq) ''strlen'' r A
          (a_reply (\<lambda>code s. SET_XX_ELSE_CODE (SET_OK_COUNT (of_nat (length (the s)))) code) r (a_get E k A))
      | STRAPPEND \<Rightarrow> a_check (HasKey rq \<and> HasValue rq) ''strappend'' r A
          (a_code r (a_update E D_STRING k (\<lambda>v. VStr (un_str v @ s)) A))
      | LADD \<Rightarrow> a_check (HasKey rq \<and> HasValues rq) ''ladd'' r A (a_code r (a_new k (VList xs) A))
      | LPREPEND \<Rightarrow> a_check (HasKey rq \<and> HasValues rq) ''lappend/lprepend'' r A
          (a_code r (a_update E D_STRLIST k (\<lambda>v. VList (rev xs @ un_list v)) A))
      | LPOPFRONT \<Rightarrow> a_check (HasKey rq \<and> HasCount rq) ''lpopback/popfront'' r A
          (a_reply (\<lambda>code _. SET_XX_ELSE_CODE SET_OK_COUNT' code) r (a_update E D_STRLIST k (\<lambda>v. VList (drop n (un_list v))) A))
      | LPOPBACK \<Rightarrow> a_check (HasKey rq \<and> HasCount rq) ''lpopback/popfront'' r A
          (a_reply (\<lambda>code _. SET_XX_ELSE_CODE SET_OK_COUNT' code) r
             (a_update E D_STRLIST k (\<lambda>v. VList (take (length (un_list v) - n) (un_list v))) A))
      | LGETSIZE \<Rightarrow> a_check (HasKey rq) ''lgetsize'' r A
          (a_reply count_reply r (a_query E D_STRLIST k None (\<lambda>v. (S_OK, Some (length (un_list v)))) A))
      | LGETALL \<Rightarrow> a_check (HasKey rq) ''lgetrange/getall'' r A
          (a_reply values_reply r (a_query E D_STRLIST k [] (\<lambda>v. (S_OK, un_list v)) A))
      | LDEL \<Rightarrow> a_check (HasKey rq) ''ldel'' r A (a_code r (a_erase D_STRLIST k A))
      | VWEIGHT \<Rightarrow> a_check (HasKey rq \<and> HasValue rq) ''vweight'' r A
          (a_reply (\<lambda>code w. SET_XX_ELSE_CODE (SET_OK_COUNT (double2u64 cv (the w))) code) r
             (a_query E D_SORTED_SET k None (\<lambda>v. (code_or S_VMEMBER_NONEXISTS (un_vset v s \<noteq> None), un_vset v s)) A))
      | MADD \<Rightarrow> a_check (HasKey rq \<and> HasKvs rq) ''madd'' r A
          (a_reply count_reply r (a_extend k (VMap Map.empty) None
             (\<lambda>v. (Some (card (fst ` set (rq_kvs rq) - dom (un_map v))), VMap (map_of (rq_kvs rq) ++ un_map v))) A))
      | MGET \<Rightarrow> a_check (HasKey rq \<and> HasValue rq) ''mget'' r A
          (a_reply (\<lambda>code v r. SET_XX_ELSE_CODE (\<lambda>r. SetValue (SetCode S_OK r)) code (case v of None \<Rightarrow> r | Some s \<Rightarrow> r\<lparr>rs_value := s\<rparr>)) r
             (a_query E D_MAP k None (\<lambda>v. (code_or S_FIELD_NONEXISTS (un_map v s \<noteq> None), un_map v s)) A))
      | MSET \<Rightarrow> a_check (HasKey rq \<and> HasValues rq) ''mset'' r A
          (a_code r (a_modify E D_MAP k (\<lambda>v. (S_OK, VMap ((un_map v)(xs ! 0 \<mapsto> xs ! 1)))) A))
      | MDEL \<Rightarrow> a_check (HasKey rq \<and> HasValue rq) ''mdel'' r A
          (a_code r (a_modify E D_MAP k (\<lambda>v. (code_or S_FIELD_NONEXISTS (un_map v s \<noteq> None), VMap ((un_map v)(s := None)))) A))
      | MEXISTS \<Rightarrow> a_check (HasKey rq \<and> HasValue rq) ''mexists'' r A
          (a_code r (a_query E D_MAP k () (\<lambda>v. (code_or S_FIELD_NONEXISTS (un_map v s \<noteq> None), ())) A))
      | SADD \<Rightarrow> a_check (HasKey rq \<and> HasValues rq) ''sadd'' r A
          (a_reply count_reply r (a_extend k (VSet {}) None (\<lambda>v. (Some (card (set xs - un_set v)), VSet (un_set v \<union> set xs))) A))
      | SDELM \<Rightarrow> a_check (HasKey rq \<and> HasValue rq) ''sdelm'' r A
          (a_code r (a_modify E D_SET k (\<lambda>v. (code_or S_SET_MEMBER_NONEXISTS (s \<in> un_set v), VSet (un_set v - {s}))) A))
      | SEXISTS \<Rightarrow> a_check (HasKey rq \<and> HasValue rq) ''sexists'' r A
          (a_code r (a_query E D_SET k () (\<lambda>v. (code_or S_SET_MEMBER_NONEXISTS (s \<in> un_set v), ())) A))
      | _ \<Rightarrow> spec_common E rt c rq r A)"

definition specified :: "command list" where
  "specified = [STR_ADD, STR_GET, STR_SET, STRLEN, STRAPPEND, LADD, LPREPEND, LPOPFRONT, LPOPBACK, LGETSIZE, LGETALL, LDEL, VWEIGHT,
     MADD, MGET, MSET, MDEL, MEXISTS, SADD, SDELM, SEXISTS, EXPIRE_AT, EXPIRE_AFTER, EXPIREM_AT, EXPIREM_AFTER, PERSIST, EXPIRATION,
     TTL, TYPE_CMD, DEL]"

definition regular :: "request \<Rightarrow> bool" where
  "regular rq = (nul_free (rq_key rq) \<and> (case command_of (rq_command rq) of
      None \<Rightarrow> False
    | Some c \<Rightarrow> c \<in> set specified \<and> (c = MSET \<longrightarrow> 2 \<le> length (rq_values rq))))"

lemma deref_str_refines:
  assumes "refines_by (str_node E k) E res sp" "fst sp = S_OK \<longleftrightarrow> fst (snd sp) \<noteq> None"
  shows "refines E (deref_str res) sp"
  using assms by (cases sp) (auto simp: refines_by_def deref_str_def str_node_def split: option.splits)

lemma a_get_reply: "fst (a_get E k A) = S_OK \<longleftrightarrow> fst (snd (a_get E k A)) \<noteq> None"
  by (auto simp: a_query_def typed_def split: option.splits)

lemma does_execute:
  assumes "\<not> IsSharder (config E)" "db_rel E db A" "nul_free (rq_key rq)" "c \<in> set specified" "c = MSET \<longrightarrow> 2 \<le> length (rq_values rq)"
  shows "does E (Execute_cmd cv E rt c rq (Some r) db) (spec_execute cv E rt c rq r A)"
proof -
  note p = assms(1-3) and q = assms(2,3)
  have m: "drop (min n (length l)) l = drop n l" "take (length l - min n (length l)) l = take (length l - n) l" for n and l :: "string list"
    by (simp_all add: min_def)
  note ref = InsertStr_refines [OF p] SetStr_refines [OF p] StrAppend_refines [OF p] deref_str_refines [OF GetStr_refines [OF q] a_get_reply]
    ListAdd_refines [OF p] ListDel_refines [OF p] MapAdd_refines [OF p] MapGet_refines [OF q] MapSet_refines [OF p] MapDel_refines [OF p]
    MapExists_refines [OF q] SetAdd_refines [OF p] SetDelm_refines [OF p] SetExists_refines [OF q] VsetWeight_refines [OF q]
  note lists = list_update [OF p, of "\<lambda>l. rev (rq_values rq) @ l", folded ListPrepend_def]
    list_update [OF p, of "\<lambda>l. drop (min (unat (rq_count rq)) (length l)) l", folded ListPopFront_def, unfolded m]
    list_update [OF p, of "\<lambda>l. take (length l - min (unat (rq_count rq)) (length l)) l", folded ListPopBack_def, unfolded m]
    list_query [OF q, of None "\<lambda>l. (S_OK, Some (length l))", unfolded fst_conv snd_conv, folded ListGetSize_def]
    list_query [OF q, of "[]" "\<lambda>l. (S_OK, l)", unfolded fst_conv snd_conv, folded ListGetAll_def]
  note defs = Execute_cmd_def spec_execute_def Execute_list_def Execute_vset_def Execute_map_def Execute_set_def map_set_case_def Let_def
  have common: "does E (Execute_common E rt c rq (Some r) db) (spec_common E rt c rq r A)"
    using does_common [OF p, of c] assms(4) by (auto simp: specified_def)
  show ?thesis using assms(4) unfolding specified_def list.set
    using q(1) ref lists common assms(5)
    by (elim insertE emptyE) (simp_all add: defs does_intros assertion_def)
qed

section \<open>Sequences of requests\<close>

text \<open>A request is executed at the time it is received, with a fresh response.\<close>

fun run_requests :: "conv \<Rightarrow> 'c env \<Rightarrow> (nat \<times> request) list \<Rightarrow> 'c kvdb \<Rightarrow> (response list \<times> 'c kvdb) option" where
  "run_requests cv E [] db = Some ([], db)"
| "run_requests cv E ((now, rq) # rqs) db =
     do { (resp, db) \<leftarrow> Execute cv (E\<lparr>cur_ms := now\<rparr>) now rq (Some (MmbpResponse_new 0)) db;
          r \<leftarrow> resp;
          (rs, db) \<leftarrow> run_requests cv E rqs db;
          Some (r # rs, db) }"

fun spec_requests :: "conv \<Rightarrow> 'c env \<Rightarrow> (nat \<times> request) list \<Rightarrow> adb \<Rightarrow> response list \<times> adb" where
  "spec_requests cv E [] A = ([], A)"
| "spec_requests cv E ((now, rq) # rqs) A =
     (let (r, A) = spec_execute cv (E\<lparr>cur_ms := now\<rparr>) now (the (command_of (rq_command rq))) rq (MmbpResponse_new 0) A;
          (rs, A) = spec_requests cv E rqs A in (r # rs, A))"

lemma run_requests_rel:
  assumes "\<not> IsSharder (config E)"
  shows "db_rel E db A \<Longrightarrow> \<forall>x \<in> set rqs. regular (snd x) \<Longrightarrow>
    \<exists>db'. run_requests cv E rqs db = Some (fst (spec_requests cv E rqs A), db') \<and> db_rel E db' (snd (spec_requests cv E rqs A))"
proof (induction rqs arbitrary: db A)
  case (Cons x rqs)
  obtain now rq where x: "x = (now, rq)" by (cases x)
  let ?E = "E\<lparr>cur_ms := now\<rparr>"
  from Cons.prems(2) x obtain c where c: "command_of (rq_command rq) = Some c" "nul_free (rq_key rq)" "c \<in> set specified"
      "c = MSET \<longrightarrow> 2 \<le> length (rq_values rq)"
    by (auto simp: regular_def split: option.splits)
  let ?sp = "spec_execute cv ?E now c rq (MmbpResponse_new 0) A"
  have "does ?E (Execute_cmd cv ?E now c rq (Some (MmbpResponse_new 0)) db) ?sp"
    using does_execute [of ?E db A rq c] assms Cons.prems(1) c by simp
  then obtain db1 where "Execute cv ?E now rq (Some (MmbpResponse_new 0)) db = Some (Some (fst ?sp), db1)" "db_rel E db1 (snd ?sp)"
    using c(1) by (auto simp: does_def Execute_def)
  moreover from Cons.IH [OF this(2)] Cons.prems(2) obtain db2 where "run_requests cv E rqs db1 = Some (fst (spec_requests cv E rqs (snd ?sp)), db2)"
      "db_rel E db2 (snd (spec_requests cv E rqs (snd ?sp)))"
    by auto
  ultimately show ?case using c(1) x by (simp add: split_beta Let_def)
qed simp

text \<open>
  C2. On a server without replacement and shards, every sequence of requests whose commands are among the specified
  ones and whose keys are free of NUL is answered, response by response, as the abstract database answers it, and ends
  in a state that represents the abstract one.
\<close>

theorem requests_refine:
  assumes "\<not> IsSharder (config E)" "db_rel E db A" "\<forall>x \<in> set rqs. regular (snd x)"
  shows "\<exists>db'. run_requests cv E rqs db = Some (fst (spec_requests cv E rqs A), db') \<and> db_rel E db' (snd (spec_requests cv E rqs A))"
  by (rule run_requests_rel [OF assms])

text \<open>A request with the given presence bits, and two of them.\<close>

definition ex_request :: "command \<Rightarrow> 8 word \<Rightarrow> string \<Rightarrow> string \<Rightarrow> request" where
  "ex_request c has k v = \<lparr>rq_has_bits = has, rq_command = command_num c, rq_key = k, rq_kvs = [], rq_values = [], rq_value = v,
     rq_vmembers = [], rq_expire_time = 0, rq_range_left = 0, rq_range_right = 0\<rparr>"

definition ex_conv :: conv where
  "ex_conv = \<lparr>int2double = (\<lambda>_. 0), double2u64 = (\<lambda>_. 0)\<rparr>"

lemma ex_request_simps [simp]:
  "rq_key (ex_request c has k v) = k" "rq_value (ex_request c has k v) = v" "command_of (rq_command (ex_request c has k v)) = Some c"
  "HasKey (ex_request c 3 k v)" "HasValue (ex_request c 3 k v)" "HasKey (ex_request c 1 k v)" "rq_values (ex_request c has k v) = []"
  by (simp_all add: ex_request_def HasKey_def HasValue_def)

lemma ex_regular: "regular (ex_request STR_ADD 3 ''a'' ''x'')" "regular (ex_request STR_GET 1 ''a'' [])"
  by (simp_all add: regular_def specified_def)

theorem requests_refine_witness:
  "\<exists>db. run_requests ex_conv ex_env [(100, ex_request STR_ADD 3 ''a'' ''x''), (100, ex_request STR_GET 1 ''a'' [])] ex_new
     = Some ([SetCode S_OK (MmbpResponse_new 0), SET_OK_VALUE ''x'' (MmbpResponse_new 0)], db)"
proof -
  let ?rqs = "[(100, ex_request STR_ADD 3 ''a'' ''x''), (100, ex_request STR_GET 1 ''a'' [])]"
  have "fst (spec_requests ex_conv ex_env ?rqs ex_adb) = [SetCode S_OK (MmbpResponse_new 0), SET_OK_VALUE ''x'' (MmbpResponse_new 0)]"
    by (simp add: spec_execute_def a_check_def a_reply_def a_new_def a_query_def typed_def expire_key_def expired_def SET_XX_ELSE_CODE_def Let_def)
  moreover have "\<forall>x \<in> set ?rqs. regular (snd x)" using ex_regular by simp
  ultimately show ?thesis using requests_refine [OF _ ex_new_rel, of ?rqs ex_conv] by auto
qed

text \<open>The type tag of what \<^verbatim>\<open>any_data\<close> points to.\<close>

fun tag_of :: "any_data \<Rightarrow> data_type" where
  "tag_of (PString _) = D_STRING"
| "tag_of (PStrList _) = D_STRLIST"
| "tag_of (PVset _) = D_SORTED_SET"
| "tag_of (PMap _) = D_MAP"
| "tag_of (PSet _) = D_SET"

lemma db_rel_tags:
  assumes "db_rel E db A" "e \<in> set (tt_elems (dict db))"
  shows "\<exists>p. any_data (edata e) = Some p \<and> tag_of p = dtype (edata e)"
proof -
  have "dmap db (ekey e) = Some e" using tt_map_Some [OF tt_invD(2) [OF db_relD(1) [OF assms(1)]] assms(2)] .
  then obtain v where "holds (hash_str E) e v" using db_relD(4) [OF assms(1), of "ekey e"] by (auto simp: rel_option_iff split: option.splits)
  then obtain p where "any_data (edata e) = Some p" "aval_of p = v" "dtype (edata e) = aval_type v" by (auto simp: holds_def)
  then show ?thesis by (cases p) auto
qed



section \<open>Wrong answers\<close>

text \<open>
  C40. \<^verbatim>\<open>DEL\<close> tests the status of \<^verbatim>\<open>Delete\<close> as a truth value: deleting a key that is there answers \<^verbatim>\<open>S_NONEXISTS\<close>, and
  deleting one that is not answers \<^verbatim>\<open>S_OK\<close>.
\<close>

theorem del_status_inverted:
  assumes "\<not> IsSharder (config E)" "db_rel E db A" "nul_free (rq_key rq)" "HasKey rq" "command_of (rq_command rq) = Some DEL"
  shows "\<exists>db'. Execute cv E rt rq (Some r) db = Some (Some (SetCode (if vals A (rq_key rq) = None then S_OK else S_NONEXISTS) r), db')
    \<and> db_rel E db' (if vals A (rq_key rq) = None then A else a_remove (rq_key rq) A)"
  using does_execute [OF assms(1-3), of DEL cv rt r] assms(4,5)
  by (simp add: specified_def does_def Execute_def spec_execute_def spec_common_def a_check_def Let_def)

theorem del_status_inverted_witness:
  "\<exists>db. Execute ex_conv ex_env 0 (ex_request DEL 1 ''a'' []) (Some (MmbpResponse_new 0)) ex_new = Some (Some (SetCode S_OK (MmbpResponse_new 0)), db)"
  using del_status_inverted [OF _ ex_new_rel, of "ex_request DEL 1 ''a'' []" ex_conv 0 "MmbpResponse_new 0"] by auto

text \<open>
  \<^verbatim>\<open>MGETS\<close>, a read, falls through into \<^verbatim>\<open>MSET\<close>: asked for two or more fields of a map, it also sets the first of them
  to the name of the second; asked for a single field, it indexes past the end of the values.
\<close>

theorem mgets_writes:
  assumes "\<not> IsSharder (config E)" "db_rel E db A" "nul_free (rq_key rq)" "HasKey rq" "HasValues rq" "command_of (rq_command rq) = Some MGETS"
    "vals A (rq_key rq) = Some (VMap m)" "\<not> expired E (rq_key rq) A"
  shows "(case rq_values rq of f0 # f1 # fs \<Rightarrow>
       \<exists>r' db'. Execute cv E rt rq (Some r) db = Some (Some r', db') \<and> rs_status_code r' = 0 \<and> db_rel E db' (put (rq_key rq) (VMap (m(f0 \<mapsto> f1))) A)
     | _ \<Rightarrow> Execute cv E rt rq (Some r) db = None)"
proof -
  let ?k = "rq_key rq"
  have A: "expire_key E ?k A = A" using assms(8) by (simp add: expire_key_def)
  obtain db0 where x: "CheckExpire E ?k db = Some (False, db0)" using CheckExpire_rel [OF assms(2,3)] assms(8) by auto
  obtain code out db1 where g: "MapGets E ?k (rq_values rq) db = Some (code, out, db1)" "db_rel E db1 A"
    using MapGets_refines [OF assms(2,3), of "rq_values rq"] assms(7) by (auto simp: refines_by_def a_query_def typed_def A)
  have ex: "Execute cv E rt rq (Some r) db = map_set_case E ?k rq (Some (values_reply code out r)) db1"
    using x g(1) assms(4-6) by (simp add: Execute_def Execute_cmd_def Execute_list_def Execute_vset_def Execute_map_def CHECK_INVALID_REQUEST_def
      reply_to_def key_after_expire_def Let_def)
  show ?thesis
  proof (cases "2 \<le> length (rq_values rq)")
    case False
    then have "Execute cv E rt rq (Some r) db = None"
      unfolding ex using assms(4,5) by (simp add: map_set_case_def CHECK_INVALID_REQUEST_def code_if_def assertion_def)
    with False show ?thesis by (auto split: list.splits)
  next
    case True
    then obtain f0 f1 fs where v: "rq_values rq = f0 # f1 # fs" by (cases "rq_values rq"; cases "tl (rq_values rq)") auto
    obtain db2 where "MapSet E ?k f0 f1 db1 = Some (S_OK, (), db2)" "db_rel E db2 (put ?k (VMap (m(f0 \<mapsto> f1))) A)"
      using MapSet_refines [OF assms(1) g(2) assms(3), of f0 f1] assms(7) by (auto simp: refines_by_def a_modify_def typed_def A)
    with v show ?thesis
      unfolding ex using assms(4,5) by (simp add: map_set_case_def CHECK_INVALID_REQUEST_def code_if_def assertion_def SetCode_def)
  qed
qed

theorem mgets_writes_witness:
  "\<exists>db. MapAdd ex_env ''a'' [(''f'', ''1''), (''g'', ''2'')] ex_new = Some (S_OK, Some 2, db)
     \<and> (\<exists>r db'. Execute ex_conv ex_env 0 (ex_request MGETS 9 ''a'' []\<lparr>rq_values := [''f'', ''g'']\<rparr>) (Some (MmbpResponse_new 0)) db = Some (Some r, db')
          \<and> db_rel ex_env db' (ex_adb\<lparr>vals := [''a'' \<mapsto> VMap [''g'' \<mapsto> ''2'', ''f'' \<mapsto> ''g'']]\<rparr>))"
proof -
  let ?kvs = "[(''f'', ''1''), (''g'', ''2'')]" and ?rq = "ex_request MGETS 9 ''a'' []\<lparr>rq_values := [''f'', ''g'']\<rparr>"
  have m: "map_of ?kvs = [''g'' \<mapsto> ''2'', ''f'' \<mapsto> ''1'']" by (auto simp: fun_eq_iff)
  obtain db where db: "MapAdd ex_env ''a'' ?kvs ex_new = Some (S_OK, Some 2, db)"
      "db_rel ex_env db (ex_adb\<lparr>vals := [''a'' \<mapsto> VMap [''g'' \<mapsto> ''2'', ''f'' \<mapsto> ''1'']]\<rparr>)"
    using MapAdd_refines [OF _ ex_new_rel ex_keys(1), of ?kvs] by (auto simp: refines_by_def a_extend_def m card_insert_if simp del: map_of.simps)
  have "HasKey ?rq" "HasValues ?rq" "command_of (rq_command ?rq) = Some MGETS" "rq_key ?rq = ''a''"
    by (simp_all add: ex_request_def HasKey_def HasValues_def)
  with mgets_writes [OF _ db(2), of ?rq "[''g'' \<mapsto> ''2'', ''f'' \<mapsto> ''1'']" ex_conv 0 "MmbpResponse_new 0"] db(1)
  show ?thesis by (auto simp: expired_def)
qed

text \<open>
  A request without a key finds no instance: except for the commands on all instances, \<^verbatim>\<open>DatabaseManager::Execute\<close> then
  calls a member function on a null pointer.
\<close>

theorem manager_without_key:
  assumes "\<not> HasKey rq" "command_of (rq_command rq) \<notin> Some ` {MEM_STAT, KEYALL, DELS, DELALL}"
  shows "Manager_Execute cv E XXH32 ms rq resp m = None"
  using assms by (auto simp: Manager_Execute_def assertion_def Let_def split: option.splits)

theorem manager_without_key_witness:
  "Manager_Execute ex_conv ex_env (\<lambda>_. 0) [] (ex_request SANDTO 8 [] []\<lparr>rq_values := [''c'', ''a'', ''b'']\<rparr>) (Some (MmbpResponse_new 0))
     \<lparr>type_of = LOCAL, instances = [ex_new], recv_time = 0, current_index = 0\<rparr> = None"
  by (rule manager_without_key) (simp_all add: HasKey_def ex_request_def)

section \<open>Instances\<close>

lemma unat_pow2:
  assumes "j < 64"
  shows "unat ((2 :: 64 word) ^ j) = 2 ^ j"
proof -
  have "(2 :: nat) ^ j < 2 ^ 64" using assms by (intro power_strict_increasing) simp_all
  then have "unat (of_nat (2 ^ j) :: 64 word) = 2 ^ j" unfolding unat_of_nat by (intro mod_less) simp
  then show ?thesis by simp
qed

lemma push_pow2: "push_bit 1 ((2 :: 64 word) ^ j) = 2 ^ Suc j"
  by (simp add: push_bit_eq_mult)

lemma round_loop_ok:
  "j + i \<le> 31 \<Longrightarrow> \<exists>k. round_loop i src (2 ^ j) = 2 ^ k \<and> j \<le> k \<and> k \<le> j + i \<and> (k < j + i \<longrightarrow> unat src \<le> 2 ^ k) \<and> (j < k \<longrightarrow> 2 ^ (k - 1) < unat src)"
proof (induction i arbitrary: j)
  case (Suc i)
  have u: "unat ((2 :: 64 word) ^ j) = 2 ^ j" using Suc.prems by (intro unat_pow2) simp
  show ?case
  proof (cases "(2 :: 64 word) ^ j < src")
    case True
    then have l: "2 ^ j < unat src" using u by (simp add: word_less_nat_alt)
    obtain k where k: "round_loop i src (2 ^ Suc j) = 2 ^ k" "Suc j \<le> k" "k \<le> Suc j + i" "k < Suc j + i \<longrightarrow> unat src \<le> 2 ^ k"
        "Suc j < k \<longrightarrow> 2 ^ (k - 1) < unat src"
      using Suc.IH [of "Suc j"] Suc.prems by auto
    have "2 ^ (k - 1) < unat src" using k(2,5) l by (cases "Suc j = k") auto
    moreover have "round_loop (Suc i) src (2 ^ j) = round_loop i src (2 ^ Suc j)"
      using True by (simp only: round_loop.simps push_pow2 if_True)
    ultimately show ?thesis using k by (intro exI [of _ k]) (simp del: round_loop.simps power_Suc)
  next
    case False
    then have "unat src \<le> 2 ^ j" using u by (simp add: word_less_nat_alt)
    with False show ?thesis by (intro exI [of _ j]) simp
  qed
qed auto

lemma xor_eq_0: "x XOR y = 0 \<longleftrightarrow> x = y" for x y :: "64 word"
  by (auto simp: bit_eq_iff bit_simps)

lemma is2_loop_ok: "j + i \<le> 31 \<Longrightarrow> is2_loop i src (2 ^ j) \<longleftrightarrow> (\<exists>k. j \<le> k \<and> k < j + i \<and> src = 2 ^ k)"
proof (induction i arbitrary: j)
  case (Suc i)
  have "is2_loop (Suc i) src (2 ^ j) \<longleftrightarrow> src = 2 ^ j \<or> is2_loop i src (2 ^ Suc j)"
    by (simp only: is2_loop.simps push_pow2 xor_eq_0 split: if_split) blast
  also have "\<dots> \<longleftrightarrow> src = 2 ^ j \<or> (\<exists>k. Suc j \<le> k \<and> k < Suc j + i \<and> src = 2 ^ k)" using Suc.IH [of "Suc j"] Suc.prems by simp
  also have "\<dots> \<longleftrightarrow> (\<exists>k. j \<le> k \<and> k < j + Suc i \<and> src = 2 ^ k)"
  proof (intro iffI; elim disjE exE conjE)
    fix k assume "j \<le> k" "k < j + Suc i" "src = 2 ^ k"
    then show "src = 2 ^ j \<or> (\<exists>k. Suc j \<le> k \<and> k < Suc j + i \<and> src = 2 ^ k)"
      by (cases "k = j") (auto intro!: exI [of _ k])
  next
    fix k assume "Suc j \<le> k" "k < Suc j + i" "src = 2 ^ k"
    then show "\<exists>k. j \<le> k \<and> k < j + Suc i \<and> src = 2 ^ k" by (intro exI [of _ k]) simp
  qed (auto intro!: exI [of _ j])
  finally show ?case .
qed simp

text \<open>The remainder by masking.\<close>

lemma index_mod:
  assumes "length (instances m) = 2 ^ k" "k < 64"
  shows "GetDatabaseInstanceIndex X key m = unat (X key) mod 2 ^ k"
proof -
  have "unat ((ucast (X key) :: 64 word) AND mask k) = unat (ucast (X key) :: 64 word) mod 2 ^ k"
    unfolding take_bit_eq_mask [symmetric] unsigned_take_bit_eq by (rule take_bit_eq_mod)
  moreover have "unat (ucast (X key) :: 64 word) = unat (X key)" 
    by (simp add: unsigned_ucast_eq take_bit_nat_eq_self unsigned_less [THEN less_le_trans])
  moreover have "(of_nat (2 ^ k) - 1 :: 64 word) = mask k" by (simp add: mask_eq_exp_minus_1)
  ultimately show ?thesis using assms by (cases "k = 0") (simp_all add: GetDatabaseInstanceIndex_def)
qed

text \<open>
  C15. A manager for \<open>n\<close> threads, \<open>1 < n \<le> 2 ^ 30\<close>, has the least power of two not below \<open>n\<close> as its number of instances, and
  masking the hash of a key with that number less one is the remainder modulo it, so every key has an instance. Above
  \<open>2 ^ 30\<close> threads \<^verbatim>\<open>Is2Power\<close> rejects the number \<^verbatim>\<open>RoundUpTo2Power\<close> computes and the constructor's assertion fails.
\<close>

theorem manager_instances:
  assumes "\<not> SupportDistribution cf" "1 < thread_num cf" "thread_num cf < 2 ^ 31"
  shows "if thread_num cf \<le> 2 ^ 30
     then \<exists>k m. DatabaseManager_new nc t cf = Some m \<and> length (instances m) = 2 ^ k \<and> thread_num cf \<le> 2 ^ k \<and> 2 ^ (k - 1) < thread_num cf
       \<and> (\<forall>key. GetDatabaseInstanceIndex X key m = unat (X key) mod 2 ^ k \<and> GetDatabaseInstanceIndex X key m < length (instances m))
     else DatabaseManager_new nc t cf = None"
proof -
  let ?w = "word_of_int (thread_num cf) :: 64 word"
  have "uint ?w = thread_num cf" using assms(2,3) by (simp add: uint_word_of_int take_bit_int_eq_self)
  then have u: "unat ?w = nat (thread_num cf)" by (metis unat_eq_nat_uint)
  obtain k where k: "RoundUpTo2Power ?w = 2 ^ k" "k \<le> 31" "k < 31 \<longrightarrow> unat ?w \<le> 2 ^ k" "0 < k \<longrightarrow> 2 ^ (k - 1) < unat ?w"
    using round_loop_ok [of 0 31 ?w] by (auto simp: RoundUpTo2Power_def)
  have k0: "0 < k" using k(3) u assms(2) by (cases k) auto
  then have lo: "2 ^ (k - 1) < thread_num cf" using k(4) u assms(2) by (simp add: zless_nat_eq_int_zless)
  have "Is2Power (2 ^ k) \<longleftrightarrow> (\<exists>i. i < 31 \<and> (2 :: 64 word) ^ k = 2 ^ i)" using is2_loop_ok [of 0 31 "2 ^ k"] by (simp add: Is2Power_def)
  also have "\<dots> \<longleftrightarrow> k < 31"
  proof
    assume "\<exists>i. i < 31 \<and> (2 :: 64 word) ^ k = 2 ^ i"
    then obtain i where i: "i < 31" "(2 :: 64 word) ^ k = 2 ^ i" by blast
    have "k < 64" "i < 64" using i(1) k(2) by simp_all
    then have "(2 :: nat) ^ k = 2 ^ i" using arg_cong [OF i(2), of unat] by (simp only: unat_pow2)
    with i(1) show "k < 31" by simp
  next
    assume "k < 31"
    then show "\<exists>i. i < 31 \<and> (2 :: 64 word) ^ k = 2 ^ i" by (intro exI [of _ k] conjI refl)
  qed
  finally have is2: "Is2Power (2 ^ k) \<longleftrightarrow> k < 31" .
  have ty: "DatabaseManager_new nc t cf = do { assertion (Is2Power (2 ^ k));
      Some \<lparr>type_of = LOCAL_MULTI_THREAD, instances = replicate (2 ^ k) (MmkvDb_new nc cf), recv_time = t, current_index = 0\<rparr> }"
    using assms(1,2) k(1,2) unat_pow2 [of k] by (simp add: DatabaseManager_new_def Let_def)
  have big: "k < 31 \<longleftrightarrow> thread_num cf \<le> 2 ^ 30"
  proof
    assume "k < 31"
    then have "nat (thread_num cf) \<le> 2 ^ k" "(2 :: nat) ^ k \<le> 2 ^ 30" using k(3) u power_increasing [of k 30 "2 :: nat"] by simp_all
    then have "nat (thread_num cf) \<le> 2 ^ 30" by (rule order_trans)
    then show "thread_num cf \<le> 2 ^ 30" by simp
  next
    assume a: "thread_num cf \<le> 2 ^ 30"
    show "k < 31"
    proof (rule ccontr)
      assume "\<not> k < 31"
      with k(2) have "k = 31" by simp
      with lo a show False by simp
    qed
  qed
  show ?thesis
  proof (cases "k < 31")
    case False
    with ty is2 big show ?thesis by (simp add: assertion_def)
  next
    case True
    let ?m = "\<lparr>type_of = LOCAL_MULTI_THREAD, instances = replicate (2 ^ k) (MmkvDb_new nc cf), recv_time = t, current_index = 0\<rparr>"
    have "nat (thread_num cf) \<le> 2 ^ k" using True k(3) u by simp
    then have "thread_num cf \<le> 2 ^ k" by (simp add: nat_le_iff)
    moreover have "GetDatabaseInstanceIndex X key ?m = unat (X key) mod 2 ^ k" for key using True by (intro index_mod) simp_all
    moreover have "DatabaseManager_new nc t cf = Some ?m" using ty is2 True by (simp add: assertion_def)
    ultimately show ?thesis using big True lo by (intro if_P [THEN iffD2] exI [of _ k] exI [of _ ?m] conjI allI) simp_all
  qed
qed

theorem manager_instances_witness:
  "\<exists>m. DatabaseManager_new (\<lambda>_. cache_new 0) 0 (ex_config\<lparr>thread_num := 3\<rparr>) = Some (m :: addr list_cache manager) \<and> length (instances m) = 4"
proof -
  have "\<not> SupportDistribution (ex_config\<lparr>thread_num := 3\<rparr>)" by (simp add: SupportDistribution_def ex_config_def)
  from manager_instances [OF this, of "\<lambda>_. cache_new 0 :: addr list_cache" 0 "\<lambda>_. 0"] obtain k m where
    m: "DatabaseManager_new (\<lambda>_. cache_new 0) 0 (ex_config\<lparr>thread_num := 3\<rparr>) = Some (m :: addr list_cache manager)"
      "length (instances m) = 2 ^ k" "(3 :: int) \<le> 2 ^ k" "(2 :: int) ^ (k - 1) < 3"
    by auto
  have "k = 2"
  proof (cases "k \<le> 2")
    case True
    with m(3) show ?thesis by (cases "k = 0"; cases "k = 1") auto
  next
    case False
    then have "(2 :: int) ^ 2 \<le> 2 ^ (k - 1)" by (intro power_increasing) auto
    with m(4) show ?thesis by simp
  qed
  with m(1,2) show ?thesis by auto
qed

end
