(* ===== verification/ManagerProps.thy ===== *)
theory ManagerProps
  imports StorageProps
begin

text \<open>
  The manager with any number of instances behaves as one database: a request touches only its key, and all requests for
  a key go to the same instance.
\<close>

section \<open>Locality\<close>

text \<open>A specification that depends on, and changes, the key \<open>k\<close> only.\<close>

definition same_at :: "string \<Rightarrow> adb \<Rightarrow> adb \<Rightarrow> bool" where
  "same_at k A B \<longleftrightarrow> vals A k = vals B k \<and> exps A k = exps B k"

definition local3 :: "string \<Rightarrow> (adb \<Rightarrow> status_code \<times> 'r \<times> adb) \<Rightarrow> bool" where
  "local3 k f \<longleftrightarrow> (\<forall>A B. same_at k A B \<longrightarrow> fst (f A) = fst (f B) \<and> fst (snd (f A)) = fst (snd (f B)) \<and> same_at k (snd (snd (f A))) (snd (snd (f B)))
     \<and> (\<forall>j. j \<noteq> k \<longrightarrow> same_at j (snd (snd (f A))) A))"

definition local_at :: "string \<Rightarrow> (adb \<Rightarrow> 'r \<times> adb) \<Rightarrow> bool" where
  "local_at k f \<longleftrightarrow> (\<forall>A B. same_at k A B \<longrightarrow> fst (f A) = fst (f B) \<and> same_at k (snd (f A)) (snd (f B)) \<and> (\<forall>j. j \<noteq> k \<longrightarrow> same_at j (snd (f A)) A))"

lemma expire_key_local:
  "same_at k A B \<Longrightarrow> expired E k A = expired E k B" "same_at k A B \<Longrightarrow> same_at k (expire_key E k A) (expire_key E k B)"
  "j \<noteq> k \<Longrightarrow> same_at j (expire_key E k A) A"
  by (simp_all add: same_at_def expired_def expire_key_def)

lemma typed_local:
  assumes "\<And>v. local3 k (g v)" "\<And>A B. same_at k A B \<Longrightarrow> same_at k (h A) (h B)" "\<And>j A. j \<noteq> k \<Longrightarrow> same_at j (h A) A"
  shows "local3 k (\<lambda>A. typed ty k r (h A) (\<lambda>v. g v A))"
  unfolding local3_def
proof (intro allI impI)
  fix A B assume s: "same_at k A B"
  have v: "vals (h A) k = vals (h B) k" using assms(2) [OF s] by (simp add: same_at_def)
  show "fst (typed ty k r (h A) (\<lambda>v. g v A)) = fst (typed ty k r (h B) (\<lambda>v. g v B))
      \<and> fst (snd (typed ty k r (h A) (\<lambda>v. g v A))) = fst (snd (typed ty k r (h B) (\<lambda>v. g v B)))
      \<and> same_at k (snd (snd (typed ty k r (h A) (\<lambda>v. g v A)))) (snd (snd (typed ty k r (h B) (\<lambda>v. g v B))))
      \<and> (\<forall>j. j \<noteq> k \<longrightarrow> same_at j (snd (snd (typed ty k r (h A) (\<lambda>v. g v A)))) A)"
    using v assms(1) s assms(2) [OF s] assms(3) by (auto simp: typed_def local3_def split: option.splits)
qed

lemma local3_put:
  "local3 k (\<lambda>A. (c, x, put k v (expire_key E k A)))" "local3 k (\<lambda>A. (c, x, expire_key E k A))" "local3 k (\<lambda>A. (c, x, a_remove k A))"
  "local3 k (\<lambda>A. (c, x, put k v A))" "local3 k (\<lambda>A. (c, x, A))"
  by (simp_all add: local3_def same_at_def a_remove_def expired_def expire_key_def)

lemma local3_specs:
  "local3 k (a_new k x)" "local3 k (a_update E ty k g)" "local3 k (a_query E ty k z h)" "local3 k (a_erase ty k)" "local3 k (a_modify E ty k m)"
  "local3 k (a_extend k fresh z p)" "local3 k (a_expire_at E k t)"
proof -
  note e = expire_key_local(2,3)
  show "local3 k (a_update E ty k g)" unfolding a_update_def by (rule typed_local) (rule local3_put e; assumption?)+
  show "local3 k (a_query E ty k z h)" unfolding a_query_def by (rule typed_local) (rule local3_put e; assumption?)+
  show "local3 k (a_modify E ty k m)" unfolding a_modify_def by (rule typed_local) (rule local3_put e; assumption?)+
  show "local3 k (a_erase ty k)" unfolding a_erase_def by (rule typed_local) (rule local3_put | simp add: same_at_def)+
  show "local3 k (a_new k x)" by (auto simp: local3_def same_at_def a_new_def)
  show "local3 k (a_extend k fresh z p)" by (auto simp: local3_def same_at_def a_extend_def Let_def)
  show "local3 k (a_expire_at E k t)" by (auto simp: local3_def same_at_def a_expire_at_def)
qed

lemma local3_a_set: "local3 k (a_set E k s)"
  unfolding local3_def
proof (intro allI impI)
  fix A B assume s: "same_at k A B"
  let ?g = "\<lambda>A. typed D_STRING k () A (\<lambda>v. (S_OK, (), put k (VStr s) A))"
  have "local3 k ?g" by (rule typed_local) (rule local3_put | simp add: same_at_def)+
  then have "fst (?g A) = fst (?g B) \<and> fst (snd (?g A)) = fst (snd (?g B)) \<and> same_at k (snd (snd (?g A))) (snd (snd (?g B)))
      \<and> (\<forall>j. j \<noteq> k \<longrightarrow> same_at j (snd (snd (?g A))) A)"
    using s unfolding local3_def by blast
  then show "fst (a_set E k s A) = fst (a_set E k s B) \<and> fst (snd (a_set E k s A)) = fst (snd (a_set E k s B))
      \<and> same_at k (snd (snd (a_set E k s A))) (snd (snd (a_set E k s B))) \<and> (\<forall>j. j \<noteq> k \<longrightarrow> same_at j (snd (snd (a_set E k s A))) A)"
    using s expire_key_local(1) [OF s, of E] expire_key_local(2) [OF s, of E] expire_key_local(3) [of _ k E A]
    by (simp add: a_set_def same_at_def)
qed

lemma local_at_intros:
  "local3 k f \<Longrightarrow> local_at k (\<lambda>A. a_reply g r (f A))" "local_at k f' \<Longrightarrow> local_at k (\<lambda>A. a_check c msg r A (f' A))"
proof -
  assume f: "local3 k f"
  show "local_at k (\<lambda>A. a_reply g r (f A))" unfolding local_at_def
  proof (intro allI impI)
    fix A B assume "same_at k A B"
    then show "fst (a_reply g r (f A)) = fst (a_reply g r (f B)) \<and> same_at k (snd (a_reply g r (f A))) (snd (a_reply g r (f B)))
        \<and> (\<forall>j. j \<noteq> k \<longrightarrow> same_at j (snd (a_reply g r (f A))) A)"
      using f [unfolded local3_def, rule_format, of A B] by (simp add: a_reply_def)
  qed
next
  assume f: "local_at k f'"
  show "local_at k (\<lambda>A. a_check c msg r A (f' A))"
  proof (cases c)
    case True
    then show ?thesis using f by (simp add: a_check_def)
  next
    case False
    then show ?thesis by (simp add: a_check_def local_at_def same_at_def)
  qed
qed

lemma common_local:
  "local3 k (\<lambda>A. if vals A k = None then (S_NONEXISTS, (), A) else (S_OK, (), A\<lparr>exps := (exps A)(k := None)\<rparr>))"
  "local3 k (\<lambda>A. (if exps A k = None then S_NONEXISTS else S_OK, f (exps A k), A))"
  "local_at k (\<lambda>A. (SetCode (if vals A k = None then S_OK else S_NONEXISTS) r, if vals A k = None then A else a_remove k A))"
  "local_at k (\<lambda>A. (case vals (expire_key E k A) k of None \<Rightarrow> SetCode S_NONEXISTS r | Some v \<Rightarrow> SET_OK_VALUE (GetDataTypeString (aval_type v)) r, expire_key E k A))"
  by (simp_all add: local3_def local_at_def same_at_def a_remove_def expire_key_def expired_def)

lemma spec_execute_local:
  assumes "c \<in> set specified"
  shows "local_at (rq_key rq) (spec_execute cv E rt c rq r)"
proof -
  note l = local_at_intros local3_specs local3_a_set common_local(1,3,4) common_local(2) [of _ "\<lambda>x. x"]
    common_local(2) [of _ "map_option (\<lambda>t. t - cur_ms E)"]
  have e: "local_at (rq_key rq) (\<lambda>A. spec_execute cv E rt c rq r A)" using assms unfolding specified_def list.set
    by (elim insertE emptyE) (simp_all add: spec_execute_def spec_common_def Let_def l)
  then show ?thesis by simp
qed

section \<open>The manager as one database\<close>

text \<open>
  Each instance represents a database of the keys that are its own, and together they are the database \<open>A\<close>; the record of
  logged deletions in \<open>A\<close> is left open, since the instances share one log.
\<close>

abbreviation at_index :: "(string \<Rightarrow> 32 word) \<Rightarrow> 'c manager \<Rightarrow> string \<Rightarrow> nat" where
  "at_index X m k \<equiv> GetDatabaseInstanceIndex X k m"

definition man_rel :: "'c env \<Rightarrow> (string \<Rightarrow> 32 word) \<Rightarrow> 'c manager \<Rightarrow> adb \<Rightarrow> bool" where
  "man_rel E X m A \<longleftrightarrow> type_of m \<noteq> DISTRIBUTED \<and> (\<forall>k. at_index X m k < length (instances m))
     \<and> (\<exists>B. (\<forall>i < length (instances m). db_rel E (instances m ! i) (B i))
          \<and> (\<forall>k. same_at k A (B (at_index X m k))) \<and> (\<forall>i k. i \<noteq> at_index X m k \<longrightarrow> vals (B i) k = None))"

lemma man_rel_exps: "man_rel E X m A \<Longrightarrow> vals A k = None \<Longrightarrow> exps A k = None"
  unfolding man_rel_def same_at_def using db_relD(7) by (metis not_None_eq)

lemma index_cong: "length (instances m) = length (instances m') \<Longrightarrow> at_index X m k = at_index X m' k"
  by (simp add: GetDatabaseInstanceIndex_def)

lemma man_rel_E [simp]: "man_rel (E\<lparr>cur_ms := t\<rparr>) X m A = man_rel E X m A"
  by (simp add: man_rel_def)

lemma man_rel_cong: "type_of m = type_of m' \<Longrightarrow> instances m = instances m' \<Longrightarrow> man_rel E X m A = man_rel E X m' A"
  using index_cong [of m m' X] by (simp add: man_rel_def)

text \<open>A step of the instance of \<open>k\<close> that is local to \<open>k\<close> is the same step of the whole.\<close>

lemma man_rel_step:
  assumes m: "man_rel E X m A" and f: "local_at k f"
    and step: "\<And>db B. db_rel E db B \<Longrightarrow> \<exists>db'. g db = Some (h (fst (f B)), db') \<and> db_rel E db' (snd (f B))"
  shows "\<exists>m'. on_instance (at_index X m k) g m = Some (h (fst (f A)), m') \<and> man_rel E X m' (snd (f A))"
proof -
  let ?i = "at_index X m k"
  from m obtain B where B: "\<forall>i < length (instances m). db_rel E (instances m ! i) (B i)" "\<forall>k. same_at k A (B (at_index X m k))"
      "\<forall>i k. i \<noteq> at_index X m k \<longrightarrow> vals (B i) k = None" and i: "\<forall>k. at_index X m k < length (instances m)"
    by (auto simp: man_rel_def)
  from step B(1) i obtain db' where db': "g (instances m ! ?i) = Some (h (fst (f (B ?i))), db')" "db_rel E db' (snd (f (B ?i)))" by blast
  have s: "same_at k A (B ?i)" using B(2) by blast
  note fA = f [unfolded local_at_def, rule_format, OF s]
    and fB = f [unfolded local_at_def, rule_format, of "B ?i" "B ?i"]
  let ?m = "m\<lparr>instances := (instances m)[?i := db']\<rparr>" and ?B = "B(?i := snd (f (B ?i)))"
  have ix: "at_index X ?m j = at_index X m j" for j by (rule index_cong) simp
  have "same_at j (snd (f A)) (?B (at_index X m j))" for j
    using fA fB B(2) s by (cases "j = k") (auto simp: same_at_def)
  moreover have "vals (?B n) j = None" if "n \<noteq> at_index X m j" for n j
    using that fB B(3) by (cases "j = k") (auto simp: same_at_def)
  moreover have "db_rel E (instances ?m ! n) (?B n)" if "n < length (instances ?m)" for n
    using that B(1) db'(2) by (auto simp: nth_list_update)
  ultimately have "man_rel E X ?m (snd (f A))" using m ix i unfolding man_rel_def by (auto intro!: exI [of _ ?B])
  then show ?thesis using db'(1) i fA by (simp add: on_instance_def assertion_def)
qed

lemma manager_step:
  assumes "\<not> IsSharder (config E)" "man_rel E X m A" "regular rq" "HasKey rq" "command_of (rq_command rq) = Some c"
  shows "\<exists>m'. Manager_Execute cv E X ms rq (Some r) m = Some (Some (fst (spec_execute cv E (recv_time m) c rq r A)), m')
    \<and> man_rel E X m' (snd (spec_execute cv E (recv_time m) c rq r A))"
proof -
  from assms(3,5) have c: "nul_free (rq_key rq)" "c \<in> set specified" "c = MSET \<longrightarrow> 2 \<le> length (rq_values rq)" by (auto simp: regular_def)
  have d: "Manager_Execute cv E X ms rq (Some r) m = on_instance (at_index X m (rq_key rq)) (Execute cv E (recv_time m) rq (Some r)) m"
    using c(2) assms(2,4,5) by (auto simp: Manager_Execute_def assertion_def Let_def GetCommandType_def man_rel_def specified_def)
  show ?thesis unfolding d
  proof (rule man_rel_step [where h = Some, OF assms(2) spec_execute_local [OF c(2)]])
    fix db B assume "db_rel E db B"
    from does_execute [OF assms(1) this c] show "\<exists>db'. Execute cv E (recv_time m) rq (Some r) db
        = Some (Some (fst (spec_execute cv E (recv_time m) c rq r B)), db') \<and> db_rel E db' (snd (spec_execute cv E (recv_time m) c rq r B))"
      using assms(5) by (simp add: does_def Execute_def)
  qed
qed

text \<open>Executing a sequence of requests, each at its time and with a fresh response.\<close>

fun run_manager :: "conv \<Rightarrow> 'c env \<Rightarrow> (string \<Rightarrow> 32 word) \<Rightarrow> string \<Rightarrow> (nat \<times> request) list \<Rightarrow> 'c manager \<Rightarrow> (response list \<times> 'c manager) option" where
  "run_manager cv E X ms [] m = Some ([], m)"
| "run_manager cv E X ms ((now, rq) # rqs) m =
     do { (resp, m) \<leftarrow> Manager_Execute cv (E\<lparr>cur_ms := now\<rparr>) X ms rq (Some (MmbpResponse_new 0)) (SetRecvTime now m);
          r \<leftarrow> resp;
          (rs, m) \<leftarrow> run_manager cv E X ms rqs m;
          Some (r # rs, m) }"

lemma run_manager_rel:
  assumes "\<not> IsSharder (config E)"
  shows "man_rel E X m A \<Longrightarrow> \<forall>x \<in> set rqs. regular (snd x) \<and> HasKey (snd x) \<Longrightarrow>
    \<exists>m'. run_manager cv E X ms rqs m = Some (fst (spec_requests cv E rqs A), m') \<and> man_rel E X m' (snd (spec_requests cv E rqs A))"
proof (induction rqs arbitrary: m A)
  case (Cons x rqs)
  obtain now rq where x: "x = (now, rq)" by (cases x)
  let ?E = "E\<lparr>cur_ms := now\<rparr>" and ?m = "SetRecvTime now m"
  from Cons.prems(2) x obtain c where c: "command_of (rq_command rq) = Some c" "regular rq" "HasKey rq"
    by (auto simp: regular_def split: option.splits)
  let ?sp = "spec_execute cv ?E now c rq (MmbpResponse_new 0) A"
  have "man_rel ?E X ?m A" using Cons.prems(1) man_rel_cong [of ?m m] by (simp add: SetRecvTime_def)
  from manager_step [OF _ this c(2,3,1), of cv ms "MmbpResponse_new 0"] assms obtain m1 where
    "Manager_Execute cv ?E X ms rq (Some (MmbpResponse_new 0)) ?m = Some (Some (fst ?sp), m1)" "man_rel E X m1 (snd ?sp)"
    by (auto simp: SetRecvTime_def)
  moreover from Cons.IH [OF this(2)] Cons.prems(2) obtain m2 where "run_manager cv E X ms rqs m1 = Some (fst (spec_requests cv E rqs (snd ?sp)), m2)"
      "man_rel E X m2 (snd (spec_requests cv E rqs (snd ?sp)))"
    by auto
  ultimately show ?case using c(1) x by (simp add: split_beta Let_def)
qed simp

abbreviation empty_adb :: adb where
  "empty_adb \<equiv> \<lparr>vals = Map.empty, exps = Map.empty, alog = []\<rparr>"

lemma new_manager_rel:
  assumes "\<not> SupportDistribution cf" "replace_policy cf = RP_NONE" "DatabaseManager_new nc t cf = Some m"
  shows "man_rel E X m empty_adb"
proof -
  obtain k where k: "RoundUpTo2Power (word_of_int (thread_num cf)) = 2 ^ k" "k \<le> 31"
    using round_loop_ok [of 0 31 "word_of_int (thread_num cf)"] by (auto simp: RoundUpTo2Power_def)
  have "\<exists>j \<le> 31. type_of m \<noteq> DISTRIBUTED \<and> instances m = replicate (2 ^ j) (MmkvDb_new nc cf)"
  proof (cases "thread_num cf = 1")
    case True
    then show ?thesis using assms(1,3) by (auto simp: DatabaseManager_new_def Let_def assertion_def split: if_splits intro!: exI [of _ 0])
  next
    case False
    then show ?thesis using assms(1,3) k unat_pow2 [of k]
      by (auto simp: DatabaseManager_new_def Let_def assertion_def split: if_splits intro!: exI [of _ k])
  qed
  then obtain j where j: "j \<le> 31" "type_of m \<noteq> DISTRIBUTED" "instances m = replicate (2 ^ j) (MmkvDb_new nc cf)" by blast
  then have "at_index X m key < length (instances m)" for key using index_mod [of m j X key] by simp
  then show ?thesis using j new_rel [OF assms(2), of E nc] by (auto simp: man_rel_def same_at_def intro!: exI [of _ "\<lambda>_. empty_adb"])
qed

text \<open>
  C3. Whatever the number of its instances, a new manager answers every sequence of regular requests with keys, response
  by response, as one abstract database does, and its instances together go on representing that database.
\<close>

theorem manager_refines:
  assumes "\<not> IsSharder (config E)" "\<not> SupportDistribution cf" "replace_policy cf = RP_NONE" "DatabaseManager_new nc t cf = Some m"
    "\<forall>x \<in> set rqs. regular (snd x) \<and> HasKey (snd x)"
  shows "\<exists>m'. run_manager cv E X ms rqs m = Some (fst (spec_requests cv E rqs empty_adb), m') \<and> man_rel E X m' (snd (spec_requests cv E rqs empty_adb))"
  by (rule run_manager_rel [OF assms(1) new_manager_rel [OF assms(2-4)] assms(5)])

text \<open>Three threads, hence four instances; the hash puts \<open>a\<close> and \<open>b\<close> into different ones.\<close>

abbreviation ex_hash :: "string \<Rightarrow> 32 word" where
  "ex_hash key \<equiv> (if key = ''a'' then 1 else 0)"

lemma ex_rounded: "RoundUpTo2Power 3 = 4" "Is2Power 4"
  using round_loop.simps(2) [of 30 3 1] round_loop.simps(2) [of 29 3 2] round_loop.simps(2) [of 28 3 4]
    is2_loop.simps(2) [of 30 4 1] is2_loop.simps(2) [of 29 4 2] is2_loop.simps(2) [of 28 4 4]
  by (simp_all add: RoundUpTo2Power_def Is2Power_def)

lemma ex_manager:
  obtains m :: "addr list_cache manager" where "DatabaseManager_new (\<lambda>_. cache_new 0) 0 (ex_config\<lparr>thread_num := 3\<rparr>) = Some m"
    "man_rel ex_env ex_hash m empty_adb"
proof -
  have c: "\<not> SupportDistribution (ex_config\<lparr>thread_num := 3\<rparr>)" by (simp add: SupportDistribution_def ex_config_def)
  have "DatabaseManager_new (\<lambda>_. cache_new 0) 0 (ex_config\<lparr>thread_num := 3\<rparr>) \<noteq> (None :: addr list_cache manager option)"
    using c ex_rounded by (simp add: DatabaseManager_new_def Let_def assertion_def)
  then obtain m :: "addr list_cache manager" where m: "DatabaseManager_new (\<lambda>_. cache_new 0) 0 (ex_config\<lparr>thread_num := 3\<rparr>) = Some m" by auto
  from that [OF m new_manager_rel [OF c _ m]] show thesis by (simp add: ex_config_def)
qed

theorem manager_refines_witness:
  "\<exists>m m'. DatabaseManager_new (\<lambda>_. cache_new 0 :: addr list_cache) 0 (ex_config\<lparr>thread_num := 3\<rparr>) = Some m
     \<and> run_manager ex_conv ex_env ex_hash [] [(100, ex_request STR_ADD 3 ''a'' ''x''), (100, ex_request STR_GET 1 ''a'' [])] m
         = Some ([SetCode S_OK (MmbpResponse_new 0), SET_OK_VALUE ''x'' (MmbpResponse_new 0)], m')"
proof -
  let ?rqs = "[(100, ex_request STR_ADD 3 ''a'' ''x''), (100, ex_request STR_GET 1 ''a'' [])]"
  have "fst (spec_requests ex_conv ex_env ?rqs empty_adb) = [SetCode S_OK (MmbpResponse_new 0), SET_OK_VALUE ''x'' (MmbpResponse_new 0)]"
    by (simp add: spec_execute_def a_check_def a_reply_def a_new_def a_query_def typed_def expire_key_def expired_def SET_XX_ELSE_CODE_def Let_def)
  moreover have "\<forall>x \<in> set ?rqs. regular (snd x) \<and> HasKey (snd x)" using ex_regular by simp
  moreover have "\<not> SupportDistribution (ex_config\<lparr>thread_num := 3\<rparr>)" "replace_policy (ex_config\<lparr>thread_num := 3\<rparr>) = RP_NONE"
    by (simp_all add: SupportDistribution_def ex_config_def)
  ultimately have *: "\<exists>m'. run_manager ex_conv ex_env ex_hash [] ?rqs m = Some ([SetCode S_OK (MmbpResponse_new 0), SET_OK_VALUE ''x'' (MmbpResponse_new 0)], m')"
    if "DatabaseManager_new (\<lambda>_. cache_new 0 :: addr list_cache) 0 (ex_config\<lparr>thread_num := 3\<rparr>) = Some m" for m
    using manager_refines [OF _ _ _ that, of ex_env ?rqs ex_conv ex_hash "[]"] by auto
  obtain m where "DatabaseManager_new (\<lambda>_. cache_new 0 :: addr list_cache) 0 (ex_config\<lparr>thread_num := 3\<rparr>) = Some m" by (rule ex_manager)
  with * show ?thesis by blast
qed

section \<open>All keys\<close>

lemma GetAllKeys_rel:
  assumes "db_rel E db A"
  shows "GetAllKeys db = Some (map ekey (tt_elems (dict db)))" "distinct (map ekey (tt_elems (dict db)))" "set (map ekey (tt_elems (dict db))) = dom (vals A)"
proof -
  let ?ks = "map ekey (tt_elems (dict db))"
  show "GetAllKeys db = Some ?ks" by (simp add: GetAllKeys_def range_for_tree_elems)
  show d: "distinct ?ks" using tt_invD(2) [OF db_relD(1) [OF assms]] by simp
  show "set ?ks = dom (vals A)"
  proof (intro set_eqI)
    fix k
    have "k \<in> set ?ks \<longleftrightarrow> dmap db k \<noteq> None"
    proof
      assume "k \<in> set ?ks"
      then show "dmap db k \<noteq> None" using tt_map_Some [OF d] by auto
    next
      assume "dmap db k \<noteq> None"
      then show "k \<in> set ?ks" using keyed_map_SomeD [of ekey "tt_elems (dict db)" k] by (force simp: tt_map_def)
    qed
    then show "k \<in> set ?ks \<longleftrightarrow> k \<in> dom (vals A)" using db_relD(4) [OF assms, of k] by (auto simp: rel_option_iff split: option.splits)
  qed
qed

lemma key_loop_all:
  "(\<And>db. db \<in> set dbs \<Longrightarrow> GetAllKeys db = Some (ks db)) \<Longrightarrow> key_loop dbs keys = Some (keys @ concat (map ks dbs))"
  by (induction dbs arbitrary: keys) auto

lemma distinct_concat_nth:
  assumes "\<And>i. i < length xs \<Longrightarrow> distinct (f (xs ! i)) \<and> (\<forall>k \<in> set (f (xs ! i)). own k = i)"
  shows "distinct (concat (map f xs))"
  using assms
proof (induction xs rule: rev_induct)
  case (snoc x xs)
  have IH: "distinct (concat (map f xs))" using snoc.prems by (intro snoc.IH) (metis length_append_singleton less_Suc_eq nth_append)
  have x: "distinct (f x)" "\<forall>k \<in> set (f x). own k = length xs" using snoc.prems [of "length xs"] by auto
  have "own k < length xs" if "y \<in> set xs" "k \<in> set (f y)" for y k
  proof -
    from that obtain i where "i < length xs" "xs ! i = y" by (auto simp: in_set_conv_nth)
    with snoc.prems [of i] that show ?thesis by (auto simp: nth_append)
  qed
  with IH x show ?case by fastforce
qed simp

lemma keyall_rel:
  assumes "man_rel E X m A"
  shows "\<exists>ks. key_loop (instances m) keys = Some (keys @ ks) \<and> distinct ks \<and> set ks = dom (vals A)"
proof -
  from assms obtain B where B: "\<forall>i < length (instances m). db_rel E (instances m ! i) (B i)" "\<forall>k. same_at k A (B (at_index X m k))"
      "\<forall>i k. i \<noteq> at_index X m k \<longrightarrow> vals (B i) k = None" and i: "\<forall>k. at_index X m k < length (instances m)"
    by (auto simp: man_rel_def)
  let ?f = "\<lambda>db. map ekey (tt_elems (dict db))"
  have g: "set (?f (instances m ! n)) = dom (vals (B n))" if "n < length (instances m)" for n using GetAllKeys_rel(3) B(1) that by blast
  have "key_loop (instances m) keys = Some (keys @ concat (map ?f (instances m)))"
    by (rule key_loop_all) (use GetAllKeys_rel(1) B(1) in \<open>metis in_set_conv_nth\<close>)
  moreover have "distinct (concat (map ?f (instances m)))"
  proof (rule distinct_concat_nth [where own = "at_index X m"])
    fix n assume n: "n < length (instances m)"
    have "at_index X m k = n" if "k \<in> dom (vals (B n))" for k using that B(3) by (metis domIff)
    then show "distinct (?f (instances m ! n)) \<and> (\<forall>k \<in> set (?f (instances m ! n)). at_index X m k = n)"
      using GetAllKeys_rel(2) [OF B(1) [rule_format, OF n]] g [OF n] by blast
  qed
  moreover have "set (concat (map ?f (instances m))) = dom (vals A)"
  proof (intro set_eqI)
    fix k
    have "k \<in> set (concat (map ?f (instances m))) \<longleftrightarrow> (\<exists>db \<in> set (instances m). k \<in> set (?f db))" by auto
    also have "\<dots> \<longleftrightarrow> (\<exists>n < length (instances m). k \<in> set (?f (instances m ! n)))" by (metis in_set_conv_nth)
    also have "\<dots> \<longleftrightarrow> (\<exists>n < length (instances m). k \<in> dom (vals (B n)))" using g by blast
    also have "\<dots> \<longleftrightarrow> k \<in> dom (vals (B (at_index X m k)))" using i B(3) by (metis domIff)
    also have "\<dots> \<longleftrightarrow> k \<in> dom (vals A)" using B(2) by (simp add: same_at_def domIff)
    finally show "k \<in> set (concat (map ?f (instances m))) \<longleftrightarrow> k \<in> dom (vals A)" .
  qed
  ultimately show ?thesis by blast
qed

lemma a_delete_local: "local_at k (\<lambda>A. (fst (a_delete k A), snd (snd (a_delete k A))))"
  by (simp add: local_at_def same_at_def a_delete_def a_remove_def)

lemma restrict_step: "(f(k := None)) |` (- S) = f |` (- insert k S)"
  by (auto simp: restrict_map_def fun_eq_iff)

lemma dels_rel:
  assumes "\<not> IsSharder (config E)"
  shows "man_rel E X m A \<Longrightarrow> \<forall>k \<in> set ks. nul_free k \<Longrightarrow>
    \<exists>m'. dels_loop E X ks n m = Some (n + (length ks - card (set ks \<inter> dom (vals A))), m')
      \<and> man_rel E X m' (A\<lparr>vals := vals A |` (- set ks), exps := exps A |` (- set ks)\<rparr>)"
proof (induction ks arbitrary: n m A)
  case Nil
  then show ?case by simp
next
  case (Cons k ks)
  let ?A = "snd (snd (a_delete k A))" and ?c = "fst (a_delete k A)"
  let ?S = "insert k (set ks) \<inter> dom (vals A)" and ?T = "set ks \<inter> dom (vals ?A)"
  have k: "nul_free k" using Cons.prems(2) by simp
  have "\<exists>m1. on_instance (at_index X m k) (\<lambda>db. do { (code, _, db) \<leftarrow> Delete E k db; Some (code, db) }) m = Some (?c, m1) \<and> man_rel E X m1 ?A"
    using man_rel_step [OF Cons.prems(1) a_delete_local, of "\<lambda>db. do { (code, _, db) \<leftarrow> Delete E k db; Some (code, db) }" "\<lambda>x. x"]
      Delete_refines [OF assms _ k] by (fastforce simp: refines_by_def)
  then obtain m1 where m1: "on_instance (at_index X m k) (\<lambda>db. do { (code, _, db) \<leftarrow> Delete E k db; Some (code, db) }) m = Some (?c, m1)"
      "man_rel E X m1 ?A" by blast
  have A: "vals ?A = (vals A)(k := None)" "exps A k = None \<Longrightarrow> vals A k = None \<Longrightarrow> exps ?A = (exps A)(k := None)"
    "vals A k \<noteq> None \<Longrightarrow> exps ?A = (exps A)(k := None)"
    by (auto simp: a_delete_def a_remove_def)
  have e: "exps A k = None" if "vals A k = None" using man_rel_exps [OF Cons.prems(1)] that by blast
  have x: "exps ?A = (exps A)(k := None)" by (cases "vals A k = None") (use A(2,3) e in simp_all)
  have T: "?T = (set ks \<inter> dom (vals A)) - {k}" using A(1) by auto
  have S: "?S = (if vals A k = None then ?T else insert k ?T)" unfolding T by auto
  have "card ?T \<le> length ks" by (metis Int_lower1 List.finite_set card_length card_mono le_trans)
  then have n: "n + (if code_num ?c \<noteq> 0 then 1 else 0) + (length ks - card ?T) = n + (Suc (length ks) - card ?S)"
    unfolding S using card_insert_disjoint [of ?T k] A(1) by (cases "vals A k") (simp_all add: a_delete_def domIff)
  from Cons.IH [OF m1(2), of "n + (if code_num ?c \<noteq> 0 then 1 else 0)"] Cons.prems(2) obtain m2 where
    "dels_loop E X ks (n + (if code_num ?c \<noteq> 0 then 1 else 0)) m1 = Some (n + (Suc (length ks) - card ?S), m2)"
    "man_rel E X m2 (?A\<lparr>vals := vals ?A |` (- set ks), exps := exps ?A |` (- set ks)\<rparr>)"
    using n by auto
  moreover have "man_rel E X m2 (?A\<lparr>vals := vals ?A |` (- set ks), exps := exps ?A |` (- set ks)\<rparr>)
      = man_rel E X m2 (A\<lparr>vals := vals A |` (- set (k # ks)), exps := exps A |` (- set (k # ks))\<rparr>)"
    unfolding A(1) x restrict_step by (simp add: man_rel_def same_at_def)
  ultimately show ?case using m1(1) by simp
qed

text \<open>
  C23. The commands on all instances: \<^verbatim>\<open>KEYALL\<close> answers with every key exactly once, in whichever instance it is, and \<^verbatim>\<open>DELS\<close>
  removes the given keys with their expirations; the count it answers is that of the keys it did not find.
\<close>

theorem manager_all_keys:
  assumes "\<not> IsSharder (config E)" "man_rel E X m A" "command_of (rq_command rq) = Some c" "\<forall>k \<in> set (rq_values rq). nul_free k"
  shows "(c = KEYALL \<longrightarrow> (\<exists>ks. Manager_Execute cv E X ms rq (Some r) m = Some (Some (SetCode S_OK (SetValues (r\<lparr>rs_values := rs_values r @ ks\<rparr>))), m)
        \<and> distinct ks \<and> set ks = dom (vals A)))
    \<and> (c = DELS \<longrightarrow> (\<exists>m'. Manager_Execute cv E X ms rq (Some r) m
            = Some (Some (SET_OK_COUNT (of_nat (length (rq_values rq) - card (set (rq_values rq) \<inter> dom (vals A)))) r), m')
        \<and> man_rel E X m' (A\<lparr>vals := vals A |` (- set (rq_values rq)), exps := exps A |` (- set (rq_values rq))\<rparr>)))"
proof (intro conjI impI)
  assume c: "c = KEYALL"
  obtain ks where "key_loop (instances m) (rs_values r) = Some (rs_values r @ ks)" "distinct ks" "set ks = dom (vals A)"
    using keyall_rel [OF assms(2)] by blast
  with assms(3) c show "\<exists>ks. Manager_Execute cv E X ms rq (Some r) m = Some (Some (SetCode S_OK (SetValues (r\<lparr>rs_values := rs_values r @ ks\<rparr>))), m)
      \<and> distinct ks \<and> set ks = dom (vals A)"
    by (auto simp: Manager_Execute_def GetCommandType_def assertion_def)
next
  assume c: "c = DELS"
  obtain m' where "dels_loop E X (rq_values rq) 0 m = Some (0 + (length (rq_values rq) - card (set (rq_values rq) \<inter> dom (vals A))), m')"
      "man_rel E X m' (A\<lparr>vals := vals A |` (- set (rq_values rq)), exps := exps A |` (- set (rq_values rq))\<rparr>)"
    using dels_rel [OF assms(1,2,4)] by blast
  with assms(3) c show "\<exists>m'. Manager_Execute cv E X ms rq (Some r) m
          = Some (Some (SET_OK_COUNT (of_nat (length (rq_values rq) - card (set (rq_values rq) \<inter> dom (vals A)))) r), m')
      \<and> man_rel E X m' (A\<lparr>vals := vals A |` (- set (rq_values rq)), exps := exps A |` (- set (rq_values rq))\<rparr>)"
    by (auto simp: Manager_Execute_def GetCommandType_def assertion_def)
qed

theorem manager_all_keys_witness:
  "\<exists>m m' m''. DatabaseManager_new (\<lambda>_. cache_new 0 :: addr list_cache) 0 (ex_config\<lparr>thread_num := 3\<rparr>) = Some m
     \<and> run_manager ex_conv ex_env ex_hash [] [(100, ex_request STR_ADD 3 ''a'' ''x'')] m = Some ([SetCode S_OK (MmbpResponse_new 0)], m')
     \<and> Manager_Execute ex_conv ex_env ex_hash [] (ex_request DELS 8 [] []\<lparr>rq_values := [''a'', ''b'']\<rparr>) (Some (MmbpResponse_new 0)) m'
         = Some (Some (SET_OK_COUNT 1 (MmbpResponse_new 0)), m'')"
proof -
  let ?rq = "ex_request DELS 8 [] []\<lparr>rq_values := [''a'', ''b'']\<rparr>" and ?A = "empty_adb\<lparr>vals := [''a'' \<mapsto> VStr ''x'']\<rparr>"
  obtain m :: "addr list_cache manager" where m: "DatabaseManager_new (\<lambda>_. cache_new 0) 0 (ex_config\<lparr>thread_num := 3\<rparr>) = Some m"
    "man_rel ex_env ex_hash m empty_adb" by (rule ex_manager)
  have sp: "spec_requests ex_conv ex_env [(100, ex_request STR_ADD 3 ''a'' ''x'')] empty_adb = ([SetCode S_OK (MmbpResponse_new 0)], ?A)"
    by (simp add: spec_execute_def a_check_def a_reply_def a_new_def Let_def)
  obtain m' where m': "run_manager ex_conv ex_env ex_hash [] [(100, ex_request STR_ADD 3 ''a'' ''x'')] m = Some ([SetCode S_OK (MmbpResponse_new 0)], m')"
      "man_rel ex_env ex_hash m' ?A"
    using run_manager_rel [OF _ m(2), of "[(100, ex_request STR_ADD 3 ''a'' ''x'')]" ex_conv "[]"] ex_regular(1) unfolding sp by auto
  have "command_of (rq_command ?rq) = Some DELS" by (simp add: ex_request_def)
  moreover have "{''a'', ''b''} \<inter> dom (vals ?A) = {''a''}" by auto
  ultimately have "\<exists>m''. Manager_Execute ex_conv ex_env ex_hash [] ?rq (Some (MmbpResponse_new 0)) m' = Some (Some (SET_OK_COUNT 1 (MmbpResponse_new 0)), m'')"
    using manager_all_keys [OF _ m'(2), of ?rq DELS ex_conv "[]" "MmbpResponse_new 0"] by auto
  with m(1) m'(1) show ?thesis by blast
qed

end
