(* ===== verification/ServerProps.thy ===== *)
theory ServerProps
  imports Server ProtocolProps ManagerProps
begin

text \<open>
  The server from bytes to bytes, the order of the request log, and what is lost on the way to the log and back.
\<close>

section \<open>The order of the log\<close>

text \<open>Everything appended so far, and the steps of the two threads that share the log.\<close>

definition log_contents :: "request_log \<Rightarrow> string" where
  "log_contents lg = log_file lg @ concat (blks lg) @ cur_blk lg"

datatype log_step = Appends string | Round

fun appended :: "log_step list \<Rightarrow> string" where
  "appended [] = []"
| "appended (Appends d # xs) = d @ appended xs"
| "appended (Round # xs) = appended xs"

fun run_log :: "log_step list \<Rightarrow> request_log \<Rightarrow> request_log option" where
  "run_log [] lg = Some lg"
| "run_log (Appends d # xs) lg = do { lg \<leftarrow> RequestLog_Append d lg; run_log xs lg }"
| "run_log (Round # xs) lg = run_log xs (RequestLog_round lg)"

lemma Append_contents:
  assumes "length (cur_blk lg) \<le> BUFFER_SIZE" "length d \<le> BUFFER_SIZE"
  shows "\<exists>lg'. RequestLog_Append d lg = Some lg' \<and> length (cur_blk lg') \<le> BUFFER_SIZE \<and> log_contents lg' = log_contents lg @ d"
  using assms by (auto simp: RequestLog_Append_def log_contents_def Let_def assertion_def)

lemma round_contents: "log_contents (RequestLog_round lg) = log_contents lg" "cur_blk (RequestLog_round lg) = []"
    "log_file (RequestLog_round lg) = log_contents lg"
  by (simp_all add: RequestLog_round_def log_contents_def)

lemma run_log_contents:
  "\<forall>d. Appends d \<in> set xs \<longrightarrow> length d \<le> BUFFER_SIZE \<Longrightarrow> length (cur_blk lg) \<le> BUFFER_SIZE \<Longrightarrow>
    \<exists>lg'. run_log xs lg = Some lg' \<and> length (cur_blk lg') \<le> BUFFER_SIZE \<and> log_contents lg' = log_contents lg @ appended xs"
proof (induction xs arbitrary: lg rule: appended.induct)
  case (2 d xs)
  then have "length d \<le> BUFFER_SIZE" by simp
  from Append_contents [OF "2.prems"(2) this] obtain lg1 where "RequestLog_Append d lg = Some lg1" "length (cur_blk lg1) \<le> BUFFER_SIZE"
      "log_contents lg1 = log_contents lg @ d" by blast
  with "2.IH" [of lg1] "2.prems"(1) show ?case by auto
next
  case (3 xs)
  from "3.IH" [of "RequestLog_round lg"] "3.prems"(1) show ?case by (simp add: round_contents)
qed simp

text \<open>
  C17. Whatever the interleaving of appends and rounds of the background thread, no append of at most a block fails, nothing
  is lost, doubled or reordered, and after a last round the file holds exactly what was appended, in order. A larger append
  can overflow the block it is split into.
\<close>

theorem log_keeps_order:
  assumes "\<forall>d. Appends d \<in> set xs \<longrightarrow> length d \<le> BUFFER_SIZE"
  shows "(\<exists>lg. run_log (xs @ [Round]) RequestLog_new = Some lg \<and> log_file lg = appended xs \<and> blks lg = [] \<and> cur_blk lg = [])
    \<and> (2 * BUFFER_SIZE < length d \<longrightarrow> run_log (xs @ [Appends d]) RequestLog_new = None)"
proof -
  have app: "run_log (xs @ ys) lg = do { lg \<leftarrow> run_log xs lg; run_log ys lg }" for xs ys lg
    by (induction xs arbitrary: lg rule: appended.induct) (simp_all split: Option.bind_split)
  obtain lg where lg: "run_log xs RequestLog_new = Some lg" "length (cur_blk lg) \<le> BUFFER_SIZE" "log_contents lg = appended xs"
    using run_log_contents [OF assms, of RequestLog_new] by (auto simp: RequestLog_new_def log_contents_def)
  have "RequestLog_Append d lg = None" if "2 * BUFFER_SIZE < length d"
    using that lg(2) by (auto simp: RequestLog_Append_def Let_def assertion_def)
  with lg show ?thesis using round_contents(3) [of lg] by (simp add: app) (simp add: RequestLog_round_def)
qed

theorem log_keeps_order_witness:
  "\<exists>lg. run_log [Appends ''ab'', Round, Appends ''c'', Round] RequestLog_new = Some lg \<and> log_file lg = ''abc''"
  using log_keeps_order [of "[Appends ''ab'', Round, Appends ''c'']", THEN conjunct1] by (auto simp: BUFFER_SIZE_def)

section \<open>What is not logged\<close>

text \<open>
  What \<^verbatim>\<open>LogRequestToFile\<close> meets on the wire: integers below 128 take one byte as variable-length integers, and the two
  bytes it looks at are a number in network byte order.
\<close>

definition small_ints :: "wire \<Rightarrow> bool" where
  "small_ints K \<longleftrightarrow> (\<forall>w. unat w < 128 \<longrightarrow> encode16 K w = [char_of (unat w)]) \<and> (\<forall>w. encode8 K w \<noteq> [])
     \<and> (\<forall>x y. unat (host16 K [x, y]) = of_char x * 256 + of_char y)"

lemma command_of_large: "128 \<le> unat w \<Longrightarrow> command_of w = None"
  by (simp add: command_of_def)

lemma unlogged:
  assumes "small_ints K" "command_of (rq_command rq) = Some c" "c \<noteq> STR_ADD"
  shows "GetCommandType (host16 K (take 2 (Request_SerializeTo K cv rq @ s))) \<noteq> CT_WRITE \<and> 2 \<le> length (Request_SerializeTo K cv rq @ s)"
proof -
  let ?n = "unat (rq_command rq)"
  have "commands ! 0 = STR_ADD" by (simp add: commands_def)
  moreover have c: "?n < 71" "c = commands ! ?n" using assms(2) by (auto simp: command_of_def split: if_splits)
  ultimately have n: "?n < 128" "?n \<noteq> 0" using assms(3) by (linarith, metis)
  obtain y ys where y: "encode8 K (rq_has_bits rq) = y # ys" using assms(1) by (metis small_ints_def neq_Nil_conv)
  then obtain zs where z: "Request_SerializeTo K cv rq @ s = char_of ?n # y # zs"
    using assms(1) n(1) by (simp add: Request_SerializeTo_def small_ints_def)
  have "unat (host16 K [char_of ?n, y]) = ?n * 256 + of_char y" using assms(1) n(1) by (simp add: small_ints_def)
  then have "command_of (host16 K [char_of ?n, y]) = None" using n(2) by (intro command_of_large) simp
  then show ?thesis using z by (simp add: GetCommandType_def)
qed

text \<open>
  C18. \<^verbatim>\<open>LogRequestToFile\<close> takes the command from the first two bytes as a fixed-width integer, but it is sent with variable
  length: no request other than \<^verbatim>\<open>STR_ADD\<close> is ever logged, so all other writes are lost when the server is restarted.
\<close>

theorem requests_not_logged:
  assumes "small_ints K" "command_of (rq_command rq) = Some c" "c \<noteq> STR_ADD"
  shows "LogRequestToFile K cf rt (Request_SerializeTo K cv rq @ s) n lg = Some (Request_SerializeTo K cv rq @ s, lg)"
  using unlogged [OF assms, of cv s] by (simp add: LogRequestToFile_def assertion_def Let_def)

lemma ex_small_ints: "small_ints ex_wire"
proof -
  have "leb n = [char_of n]" if "n < 128" for n using that by (simp add: leb.simps [of n])
  moreover have "leb n \<noteq> []" for n by (simp add: leb.simps [of n])
  moreover have "unat (of_nat (unbe [x, y]) :: 16 word) = of_char x * 256 + of_char y" for x y
  proof -
    have "of_char x < (256 :: nat)" "of_char y < (256 :: nat)" by simp_all
    then have "of_char x * 256 + of_char y < (65536 :: nat)" by linarith
    then have "of_char x * 256 + of_char y < (2 :: nat) ^ 16" by simp
    then show ?thesis by (simp add: unbe_def unsigned_of_nat take_bit_nat_eq_self del: of_nat_add of_nat_mult)
  qed
  ultimately show ?thesis by (simp add: small_ints_def ex_wire_def)
qed

theorem requests_not_logged_witness:
  "LogRequestToFile ex_wire ex_config 0 (Request_SerializeTo ex_wire ex_cv (ex_request DEL 1 ''a'' [])) 4 RequestLog_new
     = Some (Request_SerializeTo ex_wire ex_cv (ex_request DEL 1 ''a'' []), RequestLog_new)"
  using requests_not_logged [OF ex_small_ints, of "ex_request DEL 1 ''a'' []" DEL ex_config 0 ex_cv "[]" 4 RequestLog_new] by simp

section \<open>From bytes to bytes\<close>

text \<open>What the server makes of a sent request, and the responses the specification prescribes for a series of them.\<close>

definition arrives :: "64 word \<Rightarrow> request \<Rightarrow> request" where
  "arrives mem rq = received 0 0 rq (MmbpRequest_new mem mem mem)"

fun spec_serve :: "conv \<Rightarrow> 'c env \<Rightarrow> nat \<Rightarrow> 64 word \<Rightarrow> request list \<Rightarrow> adb \<Rightarrow> response list \<times> adb" where
  "spec_serve cv E now mem [] A = ([], A)"
| "spec_serve cv E now mem (rq # rqs) A =
     (let (r, A) = spec_execute cv E now (the (command_of (rq_command rq))) (arrives mem rq) (MmbpResponse_new mem) A;
          (rs, A) = spec_serve cv E now mem rqs A in (r # rs, A))"

definition servable :: "conv \<Rightarrow> 64 word \<Rightarrow> request \<Rightarrow> bool" where
  "servable cv mem rq \<longleftrightarrow> fits cv rq \<and> \<not> sends_range rq \<and> HasKey rq \<and> regular (arrives mem rq)"

text \<open>A server that neither logs requests nor is a shard.\<close>

definition plain :: "'c env \<Rightarrow> 'c server \<Rightarrow> bool" where
  "plain E sv \<longleftrightarrow> log_method (config E) = LM_NONE \<and> shard_controller_endpoint (config E) = [] \<and> sv_endpoint sv = []"

lemma plain_env: "plain E sv \<Longrightarrow> sv_env E sv = E" "plain E sv \<Longrightarrow> \<not> IsSharder (config E)"
  by (simp_all add: plain_def sv_env_def IsSharder_def)

lemma arrives_simps [simp]: "rq_command (arrives mem rq) = rq_command rq" "HasKey (arrives mem rq) = HasKey rq"
proof -
  have "rq_has_bits (arrives mem rq) = rq_has_bits rq" "rq_command (arrives mem rq) = rq_command rq"
    by (simp_all add: arrives_def received_def received_payload_def Let_def)
  then show "rq_command (arrives mem rq) = rq_command rq" "HasKey (arrives mem rq) = HasKey rq" by (simp_all add: HasKey_def)
qed

lemma callback_serves:
  fixes K :: wire and now :: nat
  assumes "wire_ok K" "plain E sv" "man_rel E X (sv_manager sv) A" "servable cv mem rq"
  defines "sp \<equiv> spec_execute cv E now (the (command_of (rq_command rq))) (arrives mem rq) (MmbpResponse_new mem) A"
  shows "\<exists>sv'. (\<forall>s n. message_callback K cv E X ms ip mem now (Request_SerializeTo K cv rq @ s) n sv = Some (sv', s))
    \<and> plain E sv' \<and> man_rel E X (sv_manager sv') (snd sp) \<and> sv_sent sv' = sv_sent sv @ [Codec_SerializeTo K X (Response_SerializeTo K cv (fst sp))]"
proof -
  from assms(4) have s: "fits cv rq" "\<not> sends_range rq" "HasKey (arrives mem rq)" "regular (arrives mem rq)" by (simp_all add: servable_def)
  from s(4) obtain c where c: "command_of (rq_command rq) = Some c" "c \<in> set specified" by (auto simp: regular_def split: option.splits)
  let ?m = "SetRecvTime now (sv_manager sv)"
  have m: "man_rel E X ?m A" using assms(3) man_rel_cong [of ?m "sv_manager sv"] by (simp add: SetRecvTime_def)
  have t: "recv_time ?m = now" by (simp add: SetRecvTime_def)
  obtain m' where m': "Manager_Execute cv E X ms (arrives mem rq) (Some (MmbpResponse_new mem)) ?m = Some (Some (fst sp), m')" "man_rel E X m' (snd sp)"
    using manager_step [OF plain_env(2) [OF assms(2)] m s(4,3), of c cv ms "MmbpResponse_new mem"] c(1) t by (auto simp: sp_def)
  have p: "Request_ParseFrom K cv (MmbpRequest_new mem mem mem) (Request_SerializeTo K cv rq @ b) = Some (arrives mem rq, b)" for b
    unfolding arrives_def by (rule Request_ParseFrom_ok [OF assms(1) s(1)]) (use s(2) in \<open>simp_all add: empty_containers_def MmbpRequest_new_def\<close>)
  have n: "c \<noteq> SHARD_JOIN" "c \<noteq> SHARD_LEAVE" using c(2) by (auto simp: specified_def)
  have l: "log_method (config E) \<noteq> LM_REQUEST" using assms(2) by (simp add: plain_def)
  let ?sv = "sv\<lparr>sv_manager := m', sv_log := sv_log sv, sv_sent := sv_sent sv @ [Codec_SerializeTo K X (Response_SerializeTo K cv (fst sp))]\<rparr>"
  have "message_callback K cv E X ms ip mem now (Request_SerializeTo K cv rq @ b) k sv = Some (?sv, b)" for b k
    using n l p [of b] m'(1) c(1) by (simp add: message_callback_def plain_env(1) [OF assms(2)] Let_def del: bind_Some_iff)
  then show ?thesis using m'(2) assms(2) by (intro exI [of _ ?sv]) (simp add: plain_def)
qed

text \<open>What the callback makes of a message, as a function.\<close>

abbreviation serve_step :: "wire \<Rightarrow> conv \<Rightarrow> 'c env \<Rightarrow> (string \<Rightarrow> 32 word) \<Rightarrow> string \<Rightarrow> (string \<Rightarrow> 16 word \<Rightarrow> string) \<Rightarrow> 64 word \<Rightarrow> nat \<Rightarrow> string \<Rightarrow> 'c server \<Rightarrow> 'c server" where
  "serve_step K cv E X ms ip mem now msg sv \<equiv> fst (the (message_callback K cv E X ms ip mem now msg (length msg) sv))"

lemma serve_fold:
  assumes "wire_ok K"
  shows "\<forall>rq \<in> set rqs. servable cv mem rq \<Longrightarrow> plain E sv \<Longrightarrow> man_rel E X (sv_manager sv) A \<Longrightarrow>
    (let sv' = fold (serve_step K cv E X ms ip mem now) (map (Request_SerializeTo K cv) rqs) sv; sp = spec_serve cv E now mem rqs A in
     man_rel E X (sv_manager sv') (snd sp) \<and> sv_sent sv' = sv_sent sv @ map (\<lambda>r. Codec_SerializeTo K X (Response_SerializeTo K cv r)) (fst sp))"
proof (induction rqs arbitrary: sv A)
  case (Cons rq rqs)
  let ?sp = "spec_execute cv E now (the (command_of (rq_command rq))) (arrives mem rq) (MmbpResponse_new mem) A"
  from callback_serves [OF assms Cons.prems(2,3), of cv mem rq ms ip now] Cons.prems(1) obtain sv' where sv':
      "\<And>s n. message_callback K cv E X ms ip mem now (Request_SerializeTo K cv rq @ s) n sv = Some (sv', s)"
      "plain E sv'" "man_rel E X (sv_manager sv') (snd ?sp)" "sv_sent sv' = sv_sent sv @ [Codec_SerializeTo K X (Response_SerializeTo K cv (fst ?sp))]"
    by auto
  have "serve_step K cv E X ms ip mem now (Request_SerializeTo K cv rq) sv = sv'" using sv'(1) [of "[]"] by simp
  then show ?case using Cons.IH [OF _ sv'(2,3)] Cons.prems(1) sv'(4) by (simp add: Let_def split_beta)
qed simp

lemma serve_handles:
  assumes "wire_ok K" "servable cv mem rq"
  shows "handles (\<lambda>sv. plain E sv \<and> (\<exists>A. man_rel E X (sv_manager sv) A)) (message_callback K cv E X ms ip mem now)
    (serve_step K cv E X ms ip mem now) (Request_SerializeTo K cv rq)"
  unfolding handles_def
proof (intro allI impI)
  fix s sv assume g: "plain E sv \<and> (\<exists>A. man_rel E X (sv_manager sv) A)"
  then obtain A where "plain E sv" "man_rel E X (sv_manager sv) A" by blast
  from callback_serves [OF assms(1) this assms(2), of ms ip now] obtain sv' A' where sv':
      "\<And>s n. message_callback K cv E X ms ip mem now (Request_SerializeTo K cv rq @ s) n sv = Some (sv', s)"
      "plain E sv'" "man_rel E X (sv_manager sv') A'" by blast
  have "serve_step K cv E X ms ip mem now (Request_SerializeTo K cv rq) sv = sv'" using sv'(1) [of "[]"] by simp
  then show "message_callback K cv E X ms ip mem now (Request_SerializeTo K cv rq @ s) (length (Request_SerializeTo K cv rq)) sv
      = Some (serve_step K cv E X ms ip mem now (Request_SerializeTo K cv rq) sv, s)
    \<and> plain E (serve_step K cv E X ms ip mem now (Request_SerializeTo K cv rq) sv)
    \<and> (\<exists>A. man_rel E X (sv_manager (serve_step K cv E X ms ip mem now (Request_SerializeTo K cv rq) sv)) A)"
    using sv' by auto
qed

text \<open>
  C1. The server from bytes to bytes: whatever the pieces in which the frames of a series of requests arrive, the server
  takes them all without error and sends, frame by frame and in order, the responses that the one abstract database gives
  to these requests; its instances then represent the resulting database.
\<close>

theorem server_serves:
  assumes "wire_ok K" "concat cs = frames K X (map (Request_SerializeTo K cv) rqs)" "0 < mx" "mx \<le> MAX_SIZE - 1"
    "\<forall>rq \<in> set rqs. servable cv mem rq \<and> length (Codec_SerializeTo K X (Request_SerializeTo K cv rq)) \<le> mx"
    "\<forall>c \<in> set cs. length c + mx \<le> MAX_SIZE" "plain E sv" "man_rel E X (sv_manager sv) A"
  shows "\<exists>sv'. feed K X (message_callback K cv E X ms ip mem now) sv [] cs = Some (sv', [], E_NOERROR)
    \<and> sv_sent sv' = sv_sent sv @ map (\<lambda>r. Codec_SerializeTo K X (Response_SerializeTo K cv r)) (fst (spec_serve cv E now mem rqs A))
    \<and> man_rel E X (sv_manager sv') (snd (spec_serve cv E now mem rqs A))"
proof -
  let ?ms = "map (Request_SerializeTo K cv) rqs" and ?sv = "fold (serve_step K cv E X ms ip mem now) (map (Request_SerializeTo K cv) rqs) sv"
  let ?good = "\<lambda>sv. plain E sv \<and> (\<exists>A. man_rel E X (sv_manager sv) A)"
  have h: "\<forall>m \<in> set ?ms. handles ?good (message_callback K cv E X ms ip mem now) (serve_step K cv E X ms ip mem now) m \<and> length (Codec_SerializeTo K X m) \<le> mx"
    using serve_handles [OF assms(1), of cv mem _ E X ms ip now] assms(5) by auto
  have "feed K X (message_callback K cv E X ms ip mem now) sv [] cs = Some (?sv, [], E_NOERROR)"
  proof (rule feed_frames [OF assms(1,3) h _ assms(4,6)])
    show "case ?ms of [] \<Rightarrow> [] = [] | m # _ \<Rightarrow> strict_prefix [] (Codec_SerializeTo K X m)"
      using frame_nonempty [OF assms(1), of X "hd ?ms"] by (cases rqs) (simp_all add: strict_prefix_def)
  qed (use assms(2,3,7,8) in auto)
  then show ?thesis using serve_fold [OF assms(1) _ assms(7,8), of rqs cv mem ms ip now] assms(5) by (simp add: Let_def)
qed

text \<open>One request, cut after its first byte, to a server with four instances.\<close>

abbreviation ex_add :: request where
  "ex_add \<equiv> ex_request STR_ADD 3 ''a'' ''x''"

lemma ex_add_has: "HasKey ex_add" "HasValue ex_add" "\<not> HasExpireTime ex_add" "rq_has_bits ex_add = 3" "rq_command ex_add = 0"
  by (simp_all add: ex_request_def has_defs command_num_def commands_def)

lemma ex_add_arrives: "arrives 0 ex_add = ex_add"
  by (simp add: arrives_def received_def received_payload_def ex_add_has Let_def) (simp add: ex_request_def MmbpRequest_new_def command_num_def commands_def)

lemma ex_add_servable: "servable ex_cv 0 ex_add"
  by (simp add: servable_def ex_add_arrives ex_regular(1) fits_def sends_range_def ex_add_has)

lemma ex_add_frame: "length (Codec_SerializeTo ex_wire X (Request_SerializeTo ex_wire ex_cv ex_add)) = 15"
  by (simp add: Codec_SerializeTo_def MMBP_TAG_def Request_SerializeTo_def ex_add_has SerializeStr_def ex_wire_def length_leb Let_def)

theorem server_serves_witness:
  "\<exists>m f sv'. f = Codec_SerializeTo ex_wire ex_hash (Request_SerializeTo ex_wire ex_cv ex_add) \<and>
     feed ex_wire ex_hash (message_callback ex_wire ex_cv ex_env ex_hash [] (\<lambda>h p. h) 0 100)
       \<lparr>sv_manager = m :: addr list_cache manager, sv_log = RequestLog_new, sv_sent = [], sv_ctler = None, sv_endpoint = []\<rparr> [] [take 1 f, drop 1 f]
       = Some (sv', [], E_NOERROR)
     \<and> sv_sent sv' = [Codec_SerializeTo ex_wire ex_hash (Response_SerializeTo ex_wire ex_cv (SetCode S_OK (MmbpResponse_new 0)))]"
proof -
  let ?f = "Codec_SerializeTo ex_wire ex_hash (Request_SerializeTo ex_wire ex_cv ex_add)"
  obtain m :: "addr list_cache manager" where m: "DatabaseManager_new (\<lambda>_. cache_new 0) 0 (ex_config\<lparr>thread_num := 3\<rparr>) = Some m"
    "man_rel ex_env ex_hash m empty_adb" by (rule ex_manager)
  let ?sv = "\<lparr>sv_manager = m, sv_log = RequestLog_new, sv_sent = [], sv_ctler = None, sv_endpoint = []\<rparr>"
  have r: "fst (spec_serve ex_cv ex_env 100 0 [ex_add] empty_adb) = [SetCode S_OK (MmbpResponse_new 0)]"
    by (simp add: ex_add_arrives spec_execute_def a_check_def a_reply_def a_new_def Let_def)
  have p: "plain ex_env ?sv" by (simp add: plain_def ex_env_def ex_config_def)
  have f: "\<forall>rq \<in> set [ex_add]. servable ex_cv 0 rq \<and> length (Codec_SerializeTo ex_wire ex_hash (Request_SerializeTo ex_wire ex_cv rq)) \<le> 20"
    using ex_add_servable ex_add_frame [of ex_hash] by simp
  have c: "concat [take 1 ?f, drop 1 ?f] = frames ex_wire ex_hash (map (Request_SerializeTo ex_wire ex_cv) [ex_add])" by simp
  have l: "\<forall>c \<in> set [take 1 ?f, drop 1 ?f]. length c + 20 \<le> MAX_SIZE" using ex_add_frame [of ex_hash] by (simp add: MAX_SIZE_def)
  have "(0 :: nat) < 20" "20 \<le> MAX_SIZE - 1" by (simp_all add: MAX_SIZE_def)
  from server_serves [OF ex_wire_ok c this f l p, of empty_adb "[]" "\<lambda>h p. h" 100] m(2) show ?thesis
    unfolding r by (auto simp del: feed.simps)
qed

section \<open>Recovery\<close>

text \<open>An entry of the log, as \<^verbatim>\<open>LogRequestToFile\<close> and \<^verbatim>\<open>AppendDel\<close> write it.\<close>

definition log_entry :: "wire \<Rightarrow> conv \<Rightarrow> request \<Rightarrow> string" where
  "log_entry K cv rq = append32 K (of_nat (length (Request_SerializeTo K cv rq))) @ Request_SerializeTo K cv rq"

text \<open>Values parsed into a vector that still holds those of an earlier request are appended to them, element by element.\<close>

lemma values_loop_appends:
  assumes "wire_ok K"
  shows "length old = length vs \<Longrightarrow> \<forall>v \<in> set vs. length v < 2 ^ 32 \<Longrightarrow>
    values_loop K old (concat (map (\<lambda>v. encode32 K (of_nat (length v)) @ v) vs) @ t) = Some (map2 (@) old vs, t)"
  by (induction old vs rule: list_induct2) (simp_all add: parse_append_32 [OF assms])

lemma ParseValues_appends:
  "wire_ok K \<Longrightarrow> length vs < 2 ^ 32 \<Longrightarrow> \<forall>v \<in> set vs. length v < 2 ^ 32 \<Longrightarrow>
    ParseValues K old (SerializeValues K vs @ t) = Some (map2 (@) (resize (length vs) [] old) vs, t)"
  by (simp add: ParseValues_def SerializeValues_def parse_ints unat_len values_loop_appends resize_def)

definition dels :: "string list \<Rightarrow> request" where
  "dels ks = (MmbpRequest_new 0 0 0)\<lparr>rq_has_bits := 8, rq_command := command_num DELS, rq_values := ks\<rparr>"

lemma dels_has: "rq_has_bits m = 8 \<Longrightarrow> \<not> HasKey m \<and> \<not> HasValue m \<and> HasValues m \<and> \<not> HasExpireTime m"
  by (simp add: has_defs)

lemma Request_ParseFrom_dels:
  assumes "wire_ok K" "length ks < 2 ^ 32" "\<forall>k \<in> set ks. length k < 2 ^ 32"
  shows "Request_ParseFrom K cv m (Request_SerializeTo K cv (dels ks) @ s)
    = Some (m\<lparr>rq_command := command_num DELS, rq_has_bits := 8, rq_values := map2 (@) (resize (length ks) [] (rq_values m)) ks\<rparr>, s)"
proof -
  have "rq_has_bits (dels ks) = 8" by (simp add: dels_def)
  note d = dels_has [OF this]
  have "Request_SerializeTo K cv (dels ks) @ s = encode16 K (command_num DELS) @ encode8 K 8 @ SerializeValues K ks @ s"
    using d by (simp add: Request_SerializeTo_def) (simp add: dels_def)
  then show ?thesis
    by (simp add: Request_ParseFrom_def request_key_def request_payload_def request_time_def parse_ints [OF assms(1)]
        ParseValues_appends [OF assms] dels_has del: bind_Some_iff)
qed

lemma map2_empty: "map2 (@) (replicate (length ks) []) ks = ks"
  by (induction ks) simp_all

lemma dels_size:
  assumes "wire_ok K" "ks \<noteq> []"
  shows "4 \<le> length (Request_SerializeTo K cv (dels ks))"
proof -
  have "rq_has_bits (dels ks) = 8" by (simp add: dels_def)
  note d = dels_has [OF this]
  have n: "0 < length (encode8 K a)" "0 < length (encode16 K b)" "0 < length (encode32 K c)" for a b c
    using encode_nonempty [OF assms(1)] reads_nonempty [OF wire_okD(3) [OF assms(1)], of 0 1 c] by simp_all
  obtain k ks' where ks: "ks = k # ks'" using assms(2) by (cases ks) auto
  have "length (Request_SerializeTo K cv (dels ks)) \<ge> length (encode16 K (rq_command (dels ks))) + length (encode8 K (rq_has_bits (dels ks)))
      + length (encode32 K (of_nat (length ks))) + length (encode32 K (of_nat (length k)))"
    using d ks by (simp add: Request_SerializeTo_def SerializeValues_def) (simp add: dels_def)
  with n(1) [of "rq_has_bits (dels ks)"] n(2) [of "rq_command (dels ks)"] n(3) [of "of_nat (length ks)"] n(3) [of "of_nat (length k)"]
  show ?thesis by linarith
qed

lemma replay_dels:
  assumes K: "wire_ok K" and ks: "ks \<noteq> []" "length ks < 2 ^ 32" "\<forall>k \<in> set ks. length k < 2 ^ 32" "length (Request_SerializeTo K cv (dels ks)) < 2 ^ 32"
    and E: "\<not> IsSharder (config E)" "man_rel E X m A" and left: "\<And>rq. command_of (rq_command rq) = Some DELS \<Longrightarrow> left rq = rq"
    and old: "\<forall>k \<in> set (map2 (@) (resize (length ks) [] (rq_values rq)) ks). nul_free k"
  shows "\<exists>m'. replay K cv E X ms left rq (log_entry K cv (dels ks) @ s) m
      = replay K cv E X ms left (rq\<lparr>rq_command := command_num DELS, rq_has_bits := 8, rq_values := map2 (@) (resize (length ks) [] (rq_values rq)) ks\<rparr>) s m'
    \<and> man_rel E X m' (A\<lparr>vals := vals A |` (- set (map2 (@) (resize (length ks) [] (rq_values rq)) ks)),
        exps := exps A |` (- set (map2 (@) (resize (length ks) [] (rq_values rq)) ks))\<rparr>)"
proof -
  let ?ks = "map2 (@) (resize (length ks) [] (rq_values rq)) ks"
  let ?rq = "rq\<lparr>rq_command := command_num DELS, rq_has_bits := 8, rq_values := ?ks\<rparr>"
  have c: "command_of (command_num DELS) = Some DELS" by (simp add: command_of_def command_num_def commands_def)
  obtain m' where m': "dels_loop E X ?ks 0 m = Some (0 + (length ?ks - card (set ?ks \<inter> dom (vals A))), m')"
      "man_rel E X m' (A\<lparr>vals := vals A |` (- set ?ks), exps := exps A |` (- set ?ks)\<rparr>)"
    using dels_rel [OF E old] by blast
  have "rq_has_bits ?rq = 8" by simp
  note d = dels_has [OF this]
  have x: "Manager_Execute cv E X ms ?rq None m = Some (None, m')"
    using m'(1) c d by (simp add: Manager_Execute_def assertion_def del: bind_Some_iff)
  have w: "GetCommandType (command_num DELS) = CT_WRITE" by (simp add: GetCommandType_def c write_commands_def)
  let ?z = "Request_SerializeTo K cv (dels ks)"
  have l: "4 \<le> length ?z" "unat (of_nat (length ?z) :: 32 word) = length ?z" "\<not> length ?z + length s < length ?z - 4"
    using dels_size [OF K ks(1)] ks(4) by (simp_all add: unsigned_of_nat take_bit_nat_eq_self)
  have a: "length (append32 K u) = 4" "host32 K (append32 K u) = u" for u using wire_okD(7,8) [OF K] by blast+
  have "replay K cv E X ms left rq (log_entry K cv (dels ks) @ s) m = replay K cv E X ms left (left ?rq) s m'"
    using l x w Request_ParseFrom_dels [OF K ks(2,3), of cv rq s]
    by (subst replay.simps) (simp add: log_entry_def a Let_def assertion_def del: bind_Some_iff)
  with m'(2) left [of ?rq] c show ?thesis by auto
qed

text \<open>
  C19. Recovery parses all entries into one request object without resetting it: after \<^verbatim>\<open>DELS\<close> of \<open>ks\<close>, a logged \<^verbatim>\<open>DELS\<close> of
  \<open>ks'\<close> is executed with the values appended to the old ones, element by element. The keys removed are not those of the log.
\<close>

theorem recovery_mixes_entries:
  assumes "wire_ok K" "\<not> IsSharder (config E)" "man_rel E X m A" "\<And>rq. command_of (rq_command rq) = Some DELS \<Longrightarrow> left rq = rq"
    "ks \<noteq> []" "length ks < 2 ^ 32" "\<forall>k \<in> set ks. length k < 2 ^ 32 \<and> nul_free k" "length (Request_SerializeTo K cv (dels ks)) < 2 ^ 32"
    "length ks' = length ks" "\<forall>k \<in> set ks'. length k < 2 ^ 32 \<and> nul_free k" "length (Request_SerializeTo K cv (dels ks')) < 2 ^ 32"
  shows "\<exists>m'. ParseFromRequest K cv E X ms left (MmbpRequest_new e l r) [] [log_entry K cv (dels ks) @ log_entry K cv (dels ks'), []] m = Some m'
    \<and> man_rel E X m' (A\<lparr>vals := vals A |` (- (set ks \<union> set (map2 (@) ks ks'))), exps := exps A |` (- (set ks \<union> set (map2 (@) ks ks')))\<rparr>)"
proof -
  let ?rq = "MmbpRequest_new e l r" and ?ks = "map2 (@) ks ks'"
  have r1: "map2 (@) (resize (length ks) [] (rq_values ?rq)) ks = ks"
    by (simp add: resize_def MmbpRequest_new_def map2_empty)
  let ?rq1 = "?rq\<lparr>rq_command := command_num DELS, rq_has_bits := 8, rq_values := ks\<rparr>"
  have r2: "map2 (@) (resize (length ks') [] (rq_values ?rq1)) ks' = ?ks" using assms(9) by (simp add: resize_def)
  obtain m1 where m1: "replay K cv E X ms left ?rq (log_entry K cv (dels ks) @ log_entry K cv (dels ks')) m = replay K cv E X ms left ?rq1 (log_entry K cv (dels ks')) m1"
      "man_rel E X m1 (A\<lparr>vals := vals A |` (- set ks), exps := exps A |` (- set ks)\<rparr>)"
    using replay_dels [OF assms(1,5,6) _ assms(8,2,3,4), of ?rq ms "log_entry K cv (dels ks')"] assms(7) unfolding r1 by auto
  have "ks' \<noteq> []" "length ks' < 2 ^ 32" using assms(5,6,9) by auto
  moreover have "\<forall>k \<in> set ?ks. nul_free k"
    using assms(7,10) by (auto simp: set_zip) 
  ultimately obtain m2 where m2: "replay K cv E X ms left ?rq1 (log_entry K cv (dels ks')) m1 = replay K cv E X ms left (?rq1\<lparr>rq_values := ?ks\<rparr>) [] m2"
      "man_rel E X m2 (A\<lparr>vals := vals A |` (- set ks) |` (- set ?ks), exps := exps A |` (- set ks) |` (- set ?ks)\<rparr>)"
    using replay_dels [OF assms(1) _ _ _ assms(11,2) m1(2) assms(4), of ?rq1 ms "[]"] assms(10) unfolding r2 by auto
  have "- set ks \<inter> - set ?ks = - (set ks \<union> set ?ks)" by blast
  then have "man_rel E X m2 (A\<lparr>vals := vals A |` (- (set ks \<union> set ?ks)), exps := exps A |` (- (set ks \<union> set ?ks))\<rparr>)" using m2(2) by simp
  moreover have "replay K cv E X ms left (?rq1\<lparr>rq_values := ?ks\<rparr>) [] m2 = Some (?rq1\<lparr>rq_values := ?ks\<rparr>, [], m2)" by (simp add: replay.simps)
  ultimately show ?thesis using m1(1) m2(1) by (simp add: replay.simps [of _ _ _ _ _ _ _ "[]"])
qed

lemma ex_dels_size: "length (Request_SerializeTo ex_wire ex_cv (dels [[c]])) = 5"
proof -
  have "rq_has_bits (dels [[c]]) = 8" by (simp add: dels_def)
  note d = dels_has [OF this]
  have "unat (command_num DELS) < 128" by (simp add: command_num_def commands_def)
  then show ?thesis using d by (simp add: Request_SerializeTo_def SerializeValues_def ex_wire_def) (simp add: dels_def length_leb)
qed

text \<open>The log says that \<open>a\<close>, then \<open>b\<close> was deleted; after recovery \<open>b\<close> is still there.\<close>

theorem recovery_mixes_entries_witness:
  "\<exists>m m'. man_rel ex_env ex_hash (m :: addr list_cache manager) (empty_adb\<lparr>vals := [''b'' \<mapsto> VStr ''x'']\<rparr>)
     \<and> ParseFromRequest ex_wire ex_cv ex_env ex_hash [] (\<lambda>rq. rq) (MmbpRequest_new 0 0 0) []
         [log_entry ex_wire ex_cv (dels [''a'']) @ log_entry ex_wire ex_cv (dels [''b'']), []] m = Some m'
     \<and> man_rel ex_env ex_hash m' (empty_adb\<lparr>vals := [''b'' \<mapsto> VStr ''x'']\<rparr>)"
proof -
  let ?A = "empty_adb\<lparr>vals := [''b'' \<mapsto> VStr ''x'']\<rparr>" and ?rqs = "[(100, ex_request STR_ADD 3 ''b'' ''x'')]"
  obtain m0 :: "addr list_cache manager" where m0: "DatabaseManager_new (\<lambda>_. cache_new 0) 0 (ex_config\<lparr>thread_num := 3\<rparr>) = Some m0"
    "man_rel ex_env ex_hash m0 empty_adb" by (rule ex_manager)
  have sp: "spec_requests ex_conv ex_env ?rqs empty_adb = ([SetCode S_OK (MmbpResponse_new 0)], ?A)"
    by (simp add: spec_execute_def a_check_def a_reply_def a_new_def Let_def)
  have "regular (ex_request STR_ADD 3 ''b'' ''x'')" by (simp add: regular_def specified_def)
  then obtain m where m: "man_rel ex_env ex_hash m ?A"
    using run_manager_rel [OF _ m0(2), of ?rqs ex_conv "[]"] unfolding sp by auto
  have "?A\<lparr>vals := vals ?A |` (- (set [''a''] \<union> set (map2 (@) [''a''] [''b'']))), exps := exps ?A |` (- (set [''a''] \<union> set (map2 (@) [''a''] [''b''])))\<rparr> = ?A"
    by (simp add: restrict_map_def fun_eq_iff)
  with recovery_mixes_entries [OF ex_wire_ok _ m, of "\<lambda>rq. rq" "[''a'']" ex_cv "[''b'']" "[]" 0 0 0] m show ?thesis
    by (auto simp: ex_dels_size simp del: ParseFromRequest.simps)
qed

end
