(* ===== verification/Client.thy ===== *)
theory Client
  imports Protocol
begin

text \<open>
  The command line client: the tokenizer (\<^verbatim>\<open>util/tokenizer.h\<close>), names and formats of commands
  (\<^verbatim>\<open>protocol/command.cc\<close>, \<^verbatim>\<open>client/information.cc\<close>), and the translation of a line into a request
  (\<^verbatim>\<open>client/translator.cc\<close>).
\<close>

section \<open>The tokenizer\<close>

text \<open>
  The searches of the string view library are parameters; a position past the text (\<^verbatim>\<open>npos\<close>) is \<open>None\<close>, and
  \<^verbatim>\<open>npos + 1\<close> is 0.
\<close>

record view =
  find_first_not_of :: "string \<Rightarrow> char \<Rightarrow> nat \<Rightarrow> nat option"
  find_char :: "string \<Rightarrow> char \<Rightarrow> nat \<Rightarrow> nat option"
  substr_range :: "string \<Rightarrow> nat option \<Rightarrow> nat option \<Rightarrow> string"

record token_iterator =
  start :: "nat option"
  end_pos :: "nat option"

definition after :: "nat option \<Rightarrow> nat" where
  "after p = (case p of None \<Rightarrow> 0 | Some i \<Rightarrow> i + 1)"

definition Tokenizer_begin :: "view \<Rightarrow> string \<Rightarrow> char \<Rightarrow> token_iterator" where
  "Tokenizer_begin V text deli =
     (let s = find_first_not_of V text CHR '' '' 0 in \<lparr>start = s, end_pos = find_char V text deli (after s)\<rparr>)"

definition Token_value :: "view \<Rightarrow> string \<Rightarrow> token_iterator \<Rightarrow> string" where
  "Token_value V text it = substr_range V text (start it) (end_pos it)"

definition Token_Increment :: "view \<Rightarrow> string \<Rightarrow> char \<Rightarrow> token_iterator \<Rightarrow> token_iterator" where
  "Token_Increment V text deli it =
     (let s = (if end_pos it \<noteq> None then find_first_not_of V text deli (after (end_pos it)) else None) in
      \<lparr>start = s, end_pos = (if s \<noteq> None then find_char V text deli (after s) else None)\<rparr>)"

text \<open>What an iterator yields until it equals \<^verbatim>\<open>end()\<close>, with a bound on the number of steps.\<close>

fun tokens_from :: "nat \<Rightarrow> view \<Rightarrow> string \<Rightarrow> char \<Rightarrow> token_iterator \<Rightarrow> string list option" where
  "tokens_from 0 V text deli it = None"
| "tokens_from (Suc n) V text deli it =
     (if start it = None then Some []
      else map_option ((#) (Token_value V text it)) (tokens_from n V text deli (Token_Increment V text deli it)))"

definition tokens :: "view \<Rightarrow> string \<Rightarrow> string list option" where
  "tokens V text = tokens_from (length text + 1) V text CHR '' '' (Tokenizer_begin V text CHR '' '')"

section \<open>Numbers\<close>

text \<open>\<^verbatim>\<open>strtoull\<close> and \<^verbatim>\<open>strtol\<close> with base 10: the value and whether any character was converted.\<close>

definition is_space :: "char \<Rightarrow> bool" where
  "is_space c \<longleftrightarrow> of_char c = (32 :: nat) \<or> (9 \<le> (of_char c :: nat) \<and> (of_char c :: nat) \<le> 13)"

definition is_digit :: "char \<Rightarrow> bool" where
  "is_digit c \<longleftrightarrow> 48 \<le> (of_char c :: nat) \<and> (of_char c :: nat) \<le> 57"

definition digits_value :: "string \<Rightarrow> nat" where
  "digits_value ds = foldl (\<lambda>n c. n * 10 + (of_char c - 48)) 0 ds"

text \<open>Sign and leading digits.\<close>

definition scan_number :: "string \<Rightarrow> bool \<times> string" where
  "scan_number buf =
     (let s = dropWhile is_space buf in
      case s of
        [] \<Rightarrow> (False, [])
      | c # cs \<Rightarrow> if c = CHR ''-'' then (True, takeWhile is_digit cs)
                  else if c = CHR ''+'' then (False, takeWhile is_digit cs)
                  else (False, takeWhile is_digit s))"

definition strtoull :: "string \<Rightarrow> 64 word \<times> bool" where
  "strtoull buf = (case scan_number buf of (neg, ds) \<Rightarrow>
     (if 2 ^ 64 \<le> digits_value ds then - 1 else if neg then - of_nat (digits_value ds) else of_nat (digits_value ds), ds \<noteq> []))"

definition strtol :: "string \<Rightarrow> 64 word \<times> bool" where
  "strtol buf = (case scan_number buf of (neg, ds) \<Rightarrow>
     (if neg then (if 2 ^ 63 < digits_value ds then 2 ^ 63 else - of_nat (digits_value ds))
      else (if 2 ^ 63 \<le> digits_value ds then 2 ^ 63 - 1 else of_nat (digits_value ds)), ds \<noteq> []))"

section \<open>Commands\<close>

definition command_strings :: "string list" where
  "command_strings = [''STRADD'', ''STRDEL'', ''STRGET'', ''STRSET'', ''STRLEN'', ''STRAPPEND'', ''STRPOPBACK'', ''LADD'', ''LAPPEND'', ''LPREPEND'',
     ''LGETSIZE'', ''LGETALL'', ''LGETRANGE'', ''LPOPFRONT'', ''LPOPBACK'', ''LDEL'', ''VADD'', ''VDELM'', ''VDELMRANGE'', ''VDELMRANGEBYWEIGHT'',
     ''VSIZE'', ''VSIZEBYWEIGHT'', ''VWEIGHT'', ''VORDER'', ''VRORDER'', ''VRANGE'', ''VALL'', ''VRANGEBYWEIGHT'', ''VRRANGE'', ''VRRANGEBYWEIGHT'',
     ''MADD'', ''MSET'', ''MGET'', ''MGETS'', ''MDEL'', ''MALL'', ''MFIELDS'', ''MVALUES'', ''MSIZE'', ''MEXISTS'', ''SADD'', ''SDELM'', ''SSIZE'',
     ''SALL'', ''SEXISTS'', ''SAND'', ''SANDTO'', ''SSUB'', ''SSUBTO'', ''SOR'', ''SORTO'', ''SANDSIZE'', ''SSUBSIZE'', ''SORSIZE'', ''SRANDDELM'',
     ''MEMORYSTAT'', ''EXPIREAT'', ''EXPIREAFTER'', ''EXPIREMAT'', ''EXPIREMAFTER'', ''PERSIST'', ''EXPIRATION'', ''TTL'', ''DEL'', ''RENAME'',
     ''TYPE'', ''KEYALL'', ''DELS'', ''DELALL'', ''SHARD_JOIN'', ''SHARD_LEAVE'']"

text \<open>The map from names to commands, filled in the order of the commands; \<^verbatim>\<open>COMMAND_NUM\<close> is \<open>None\<close>.\<close>

definition GetCommand :: "string \<Rightarrow> command option" where
  "GetCommand s = map_of (rev (zip command_strings commands)) s"

datatype command_format = F_ONLY_KEY | F_VALUE | F_VALUES | F_COUNT | F_RANGE | F_DRANGE | F_VSET_MEMBERS | F_MAP_VALUES | F_FIELD_VALUE
  | F_SET_OP | F_SET_OP_TO | F_EXPIRE | F_NONE | F_MUL_KEYS | F_INVALID

definition GetCommandFormat :: "command \<Rightarrow> command_format" where
  "GetCommandFormat c =
     (if c \<in> set [MEM_STAT, KEYALL, DELALL, SHARD_LEAVE] then F_NONE
      else if c \<in> set [STR_ADD, STR_SET, STRAPPEND] then F_VALUE
      else if c \<in> set [MEXISTS, MDEL, MGET] then F_VALUE
      else if c = MGETS then F_VALUES
      else if c = MSET then F_FIELD_VALUE
      else if c \<in> set [SAND, SOR, SSUB, SANDSIZE, SORSIZE, SSUBSIZE] then F_SET_OP
      else if c \<in> set [SANDTO, SORTO, SSUBTO] then F_SET_OP_TO
      else if c = SADD then F_VALUES
      else if c \<in> set [STR_GET, STR_DEL, STRLEN, LGETALL, LGETSIZE, LDEL, VSIZE, VALL, DEL, TYPE_CMD, MALL, MSIZE, MFIELDS, MVALUES, SALL, SSIZE,
          SRANDDELM, PERSIST, EXPIRATION, TTL] then F_ONLY_KEY
      else if c \<in> set [LADD, LAPPEND, LPREPEND] then F_VALUES
      else if c \<in> set [STRPOPBACK, LPOPBACK, LPOPFRONT] then F_COUNT
      else if c = SHARD_JOIN then F_COUNT
      else if c = LGETRANGE then F_RANGE
      else if c = VADD then F_VSET_MEMBERS
      else if c = MADD then F_MAP_VALUES
      else if c \<in> set [VDELM, VWEIGHT, VORDER, VRORDER, SDELM, SEXISTS] then F_VALUE
      else if c \<in> set [VDELMRANGE, VRANGE, VRRANGE] then F_RANGE
      else if c \<in> set [VDELMRANGEBYWEIGHT, VRANGEBYWEIGHT, VRRANGEBYWEIGHT, VSIZEBYWEIGHT] then F_DRANGE
      else if c = RENAME then F_VALUE
      else if c \<in> set [EXPIRE_AT, EXPIREM_AT] then F_EXPIRE
      else if c \<in> set [EXPIRE_AFTER, EXPIREM_AFTER] then F_EXPIRE
      else if c = DELS then F_MUL_KEYS
      else F_INVALID)"

section \<open>The translator\<close>

text \<open>
  The translator walks the tokens forward: its position is the list of the tokens from \<^verbatim>\<open>token_iter\<close> on, which is empty
  at \<^verbatim>\<open>end()\<close> and stays so. \<open>Inl\<close> is an error code; a token that overruns the buffer it is copied to, and a command
  without format, give no result.
\<close>

datatype translate_error = E_SYNTAX_ERROR | E_NO_COMMAND

type_synonym 'a translated = "(translate_error + 'a) option"

definition ok_then :: "'a translated \<Rightarrow> ('a \<Rightarrow> 'b translated) \<Rightarrow> 'b translated" where
  "ok_then m f = (case m of None \<Rightarrow> None | Some (Inl e) \<Rightarrow> Some (Inl e) | Some (Inr x) \<Rightarrow> f x)"

definition SYNTAX_ERROR_ROUTINE :: "string list \<Rightarrow> unit translated" where
  "SYNTAX_ERROR_ROUTINE ts = Some (if ts = [] then Inl E_SYNTAX_ERROR else Inr ())"

definition SYNTAX_ERROR_ROUTINE_END :: "string list \<Rightarrow> unit translated" where
  "SYNTAX_ERROR_ROUTINE_END ts = Some (if ts \<noteq> [] then Inl E_SYNTAX_ERROR else Inr ())"

definition rq_set_bit :: "nat \<Rightarrow> request \<Rightarrow> request" where
  "rq_set_bit i rq = rq\<lparr>rq_has_bits := set_bit i (rq_has_bits rq)\<rparr>"

definition SET_KEY :: "request \<times> string list \<Rightarrow> (request \<times> string list) translated" where
  "SET_KEY p = (case p of (rq, ts) \<Rightarrow> ok_then (SYNTAX_ERROR_ROUTINE ts) (\<lambda>_. Some (Inr ((rq_set_bit 0 rq)\<lparr>rq_key := hd ts\<rparr>, tl ts))))"

definition SET_VALUE :: "request \<times> string list \<Rightarrow> (request \<times> string list) translated" where
  "SET_VALUE p = (case p of (rq, ts) \<Rightarrow> ok_then (SYNTAX_ERROR_ROUTINE ts) (\<lambda>_. Some (Inr ((rq_set_bit 1 rq)\<lparr>rq_value := hd ts\<rparr>, tl ts))))"

definition SET_VALUES :: "request \<times> string list \<Rightarrow> (request \<times> string list) translated" where
  "SET_VALUES p = (case p of (rq, ts) \<Rightarrow> ok_then (SYNTAX_ERROR_ROUTINE ts) (\<lambda>_. Some (Inr ((rq_set_bit 3 rq)\<lparr>rq_values := ts\<rparr>, []))))"

definition SET_INTEGER :: "string list \<Rightarrow> (64 word \<times> string list) translated" where
  "SET_INTEGER ts = ok_then (SYNTAX_ERROR_ROUTINE ts) (\<lambda>_.
     if 64 \<le> length (hd ts) then None
     else case strtoull (hd ts) of (v, conv) \<Rightarrow> if v = 0 \<and> \<not> conv then Some (Inl E_SYNTAX_ERROR) else Some (Inr (v, tl ts)))"

text \<open>The same for a 32-bit variable, which is narrowed before it is tested.\<close>

definition SET_INTEGER32 :: "string list \<Rightarrow> (32 word \<times> string list) translated" where
  "SET_INTEGER32 ts = ok_then (SYNTAX_ERROR_ROUTINE ts) (\<lambda>_.
     if 64 \<le> length (hd ts) then None
     else case strtoull (hd ts) of (v, conv) \<Rightarrow> if (ucast v :: 32 word) = 0 \<and> \<not> conv then Some (Inl E_SYNTAX_ERROR) else Some (Inr (ucast v, tl ts)))"

definition SET_SIGN_INTEGER :: "string list \<Rightarrow> (64 word \<times> string list) translated" where
  "SET_SIGN_INTEGER ts = ok_then (SYNTAX_ERROR_ROUTINE ts) (\<lambda>_.
     if 64 \<le> length (hd ts) then None
     else case strtol (hd ts) of (v, conv) \<Rightarrow> if v = 0 \<and> \<not> conv then Some (Inl E_SYNTAX_ERROR) else Some (Inr (v, tl ts)))"

text \<open>\<open>strtod\<close>, a parameter, returns the number and whether anything was converted.\<close>

definition SET_DOUBLE :: "(string \<Rightarrow> real \<times> bool) \<Rightarrow> string list \<Rightarrow> (real \<times> string list) translated" where
  "SET_DOUBLE strtod ts =
     (if ts = [] \<or> 128 \<le> length (hd ts) then None
      else case strtod (hd ts) of (v, conv) \<Rightarrow> if v = 0 \<and> \<not> conv then Some (Inl E_SYNTAX_ERROR) else Some (Inr (v, tl ts)))"

text \<open>The loops of \<^verbatim>\<open>F_VSET_MEMBERS\<close> and \<^verbatim>\<open>F_MAP_VALUES\<close> begin with an increment.\<close>

fun vset_members_loop :: "nat \<Rightarrow> (string \<Rightarrow> real \<times> bool) \<Rightarrow> string list \<Rightarrow> (real \<times> string) list \<Rightarrow> (real \<times> string) list translated" where
  "vset_members_loop 0 strtod ts vms = None"
| "vset_members_loop (Suc n) strtod ts vms =
     (if tl ts = [] then Some (Inr vms)
      else ok_then (SET_DOUBLE strtod (tl ts)) (\<lambda>(w, ts).
           ok_then (SYNTAX_ERROR_ROUTINE ts) (\<lambda>_. vset_members_loop n strtod ts (vms @ [(w, hd ts)]))))"

fun map_values_loop :: "nat \<Rightarrow> string list \<Rightarrow> (string \<times> string) list \<Rightarrow> (string \<times> string) list translated" where
  "map_values_loop 0 ts kvs = None"
| "map_values_loop (Suc n) ts kvs =
     (if tl ts = [] then Some (Inr kvs)
      else ok_then (SYNTAX_ERROR_ROUTINE (tl ts)) (\<lambda>_. map_values_loop n (tl ts) (kvs @ [(hd (tl ts), hd (tl ts))])))"

definition SetWeightRange :: "conv \<Rightarrow> real \<Rightarrow> real \<Rightarrow> request \<Rightarrow> request" where
  "SetWeightRange cv l r rq = (rq_set_bit 6 rq)\<lparr>rq_range_left := double2u64 cv l, rq_range_right := double2u64 cv r\<rparr>"

definition translate :: "conv \<Rightarrow> (string \<Rightarrow> real \<times> bool) \<Rightarrow> request \<Rightarrow> command_format \<Rightarrow> string list \<Rightarrow> request translated" where
  "translate cv strtod rq fmt ts =
     (let finish = (\<lambda>(rq, ts). ok_then (SYNTAX_ERROR_ROUTINE_END ts) (\<lambda>_. Some (Inr rq))) in
      case fmt of
        F_NONE \<Rightarrow> if ts \<noteq> [] then Some (Inl E_SYNTAX_ERROR) else Some (Inr rq)
      | F_VALUE \<Rightarrow> ok_then (SET_KEY (rq, ts)) (\<lambda>p. ok_then (SET_VALUE p) finish)
      | F_ONLY_KEY \<Rightarrow> ok_then (SET_KEY (rq, ts)) finish
      | F_VALUES \<Rightarrow> ok_then (SET_KEY (rq, ts)) (\<lambda>p. ok_then (SET_VALUES p) (\<lambda>(rq, _). Some (Inr rq)))
      | F_SET_OP \<Rightarrow> ok_then (SET_KEY (rq, ts)) (\<lambda>p. ok_then (SET_VALUE p) finish)
      | F_SET_OP_TO \<Rightarrow> ok_then (SET_VALUES (rq, ts)) (\<lambda>(rq, _).
          if 3 < length (rq_values rq) then Some (Inl E_SYNTAX_ERROR) else Some (Inr rq))
      | F_FIELD_VALUE \<Rightarrow> ok_then (SET_KEY (rq, ts)) (\<lambda>(rq, ts).
          ok_then (SYNTAX_ERROR_ROUTINE ts) (\<lambda>_.
          ok_then (SYNTAX_ERROR_ROUTINE ts) (\<lambda>_.
          finish (rq_set_bit 3 (rq\<lparr>rq_values := rq_values rq @ [hd ts, hd ts]\<rparr>), ts))))
      | F_RANGE \<Rightarrow> ok_then (SET_KEY (rq, ts)) (\<lambda>(rq, ts).
          ok_then (SET_SIGN_INTEGER ts) (\<lambda>(l, ts).
          ok_then (SET_SIGN_INTEGER ts) (\<lambda>(r, ts).
          finish (rq_set_bit 6 (rq\<lparr>rq_range_left := l, rq_range_right := r\<rparr>), ts))))
      | F_COUNT \<Rightarrow> ok_then (SET_KEY (rq, ts)) (\<lambda>(rq, ts).
          ok_then (SET_INTEGER32 ts) (\<lambda>(n, ts). finish (set_rq_count n (rq_set_bit 5 rq), ts)))
      | F_VSET_MEMBERS \<Rightarrow> ok_then (SET_KEY (rq, ts)) (\<lambda>(rq, ts).
          ok_then (vset_members_loop (length ts + 1) strtod ts (rq_vmembers rq)) (\<lambda>vms. Some (Inr (rq_set_bit 7 (rq\<lparr>rq_vmembers := vms\<rparr>)))))
      | F_DRANGE \<Rightarrow> ok_then (SET_KEY (rq, ts)) (\<lambda>(rq, ts).
          ok_then (SYNTAX_ERROR_ROUTINE ts) (\<lambda>_. ok_then (SET_DOUBLE strtod ts) (\<lambda>(l, ts).
          ok_then (SYNTAX_ERROR_ROUTINE ts) (\<lambda>_. ok_then (SET_DOUBLE strtod ts) (\<lambda>(r, ts).
          finish (SetWeightRange cv l r rq, ts))))))
      | F_MAP_VALUES \<Rightarrow> ok_then (SET_KEY (rq, ts)) (\<lambda>(rq, ts).
          ok_then (map_values_loop (length ts + 1) ts (rq_kvs rq)) (\<lambda>kvs. Some (Inr (rq_set_bit 4 (rq\<lparr>rq_kvs := kvs\<rparr>)))))
      | F_EXPIRE \<Rightarrow> ok_then (SET_KEY (rq, ts)) (\<lambda>(rq, ts).
          ok_then (SET_INTEGER ts) (\<lambda>(t, ts). finish (rq_set_bit 2 (rq\<lparr>rq_expire_time := t\<rparr>), ts)))
      | F_MUL_KEYS \<Rightarrow> ok_then (SET_VALUES (rq, ts)) (\<lambda>(rq, _). Some (Inr rq))
      | F_INVALID \<Rightarrow> None)"

definition Translator_Parse :: "view \<Rightarrow> conv \<Rightarrow> (string \<Rightarrow> real \<times> bool) \<Rightarrow> request \<Rightarrow> command \<Rightarrow> string \<Rightarrow> request translated" where
  "Translator_Parse V cv strtod rq c statement =
     do { ts \<leftarrow> tokens V statement; translate cv strtod (rq\<lparr>rq_command := command_num c\<rparr>) (GetCommandFormat c) ts }"

text \<open>
  \<^verbatim>\<open>MmkvCommandProcess\<close> of a client without configuration server: the request for a line whose first word, in upper case,
  is \<open>cmd\<close>; \<open>Inl E_NO_COMMAND\<close> stands for the message that the command is invalid.
\<close>

definition MmkvCommandProcess :: "view \<Rightarrow> conv \<Rightarrow> (string \<Rightarrow> real \<times> bool) \<Rightarrow> request \<Rightarrow> string \<Rightarrow> string \<Rightarrow> request translated" where
  "MmkvCommandProcess V cv strtod rq cmd line = (case GetCommand cmd of
      None \<Rightarrow> Some (Inl E_NO_COMMAND)
    | Some c \<Rightarrow> Translator_Parse V cv strtod rq c (drop (length cmd) line))"

end
