(* ===== verification/ClientProps.thy ===== *)
theory ClientProps
  imports Client
begin

text \<open>
  The client turns a line into the request its words describe, for the formats whose cases advance over their tokens; the
  others reject or misread every line.
\<close>

section \<open>Words\<close>

definition first_from :: "(char \<Rightarrow> bool) \<Rightarrow> string \<Rightarrow> nat \<Rightarrow> nat option" where
  "first_from P t p = (let i = p + length (takeWhile (\<lambda>x. \<not> P x) (drop p t)) in if i < length t then Some i else None)"

text \<open>What the tokenizer relies on: the searches return the first position from \<open>p\<close> on, the range the characters between.\<close>

definition view_ok :: "view \<Rightarrow> bool" where
  "view_ok V \<longleftrightarrow> (\<forall>t c p. find_first_not_of V t c p = first_from (\<lambda>x. x \<noteq> c) t p) \<and> (\<forall>t c p. find_char V t c p = first_from (\<lambda>x. x = c) t p)
     \<and> (\<forall>t i e. substr_range V t (Some i) e = drop i (case e of None \<Rightarrow> t | Some j \<Rightarrow> take j t))"

function words :: "string \<Rightarrow> string list" where
  "words t = (let s = dropWhile (\<lambda>x. x = CHR '' '') t in
     if s = [] then [] else takeWhile (\<lambda>x. x \<noteq> CHR '' '') s # words (dropWhile (\<lambda>x. x \<noteq> CHR '' '') s))"
  by auto
termination
proof (relation "measure length")
  fix t s :: string
  assume s: "s = dropWhile (\<lambda>x. x = CHR '' '') t" "s \<noteq> []"
  then have "hd s \<noteq> CHR '' ''" using hd_dropWhile [of "\<lambda>x. x = CHR '' ''" t] by auto
  with s(2) have "dropWhile (\<lambda>x. x \<noteq> CHR '' '') s = dropWhile (\<lambda>x. x \<noteq> CHR '' '') (tl s)" by (cases s) simp_all
  then have "length (dropWhile (\<lambda>x. x \<noteq> CHR '' '') s) \<le> length (tl s)" using length_dropWhile_le [of _ "tl s"] by simp
  also have "\<dots> < length s" using s(2) by (cases s) simp_all
  also have "\<dots> \<le> length t" by (simp add: s(1) length_dropWhile_le)
  finally show "(dropWhile (\<lambda>x. x \<noteq> CHR '' '') s, t) \<in> measure length" by simp
qed simp

declare words.simps [simp del]

lemma words_Nil [simp]: "words [] = []"
  by (simp add: words.simps)

lemma words_space [simp]: "words (CHR '' '' # t) = words t"
  unfolding words.simps [of "CHR '' '' # t"] words.simps [of t] by simp

lemma first_from_None: "first_from P t p = None \<Longrightarrow> \<forall>x \<in> set (drop p t). \<not> P x"
proof -
  assume "first_from P t p = None"
  then have "length (drop p t) \<le> length (takeWhile (\<lambda>x. \<not> P x) (drop p t))" by (simp add: first_from_def Let_def split: if_splits)
  then have "takeWhile (\<lambda>x. \<not> P x) (drop p t) = drop p t"
    by (metis append_eq_conv_conj antisym length_takeWhile_le takeWhile_eq_take take_all_iff order_refl)
  then show ?thesis by (simp add: takeWhile_eq_all_conv)
qed

lemma first_from_Some:
  assumes "first_from P t p = Some i"
  shows "p \<le> i" "i < length t" "P (t ! i)" "dropWhile (\<lambda>x. \<not> P x) (drop p t) = drop i t" "takeWhile (\<lambda>x. \<not> P x) (drop p t) = take (i - p) (drop p t)"
proof -
  have i: "i = p + length (takeWhile (\<lambda>x. \<not> P x) (drop p t))" "i < length t"
    using assms by (auto simp: first_from_def Let_def split: if_splits)
  then show "p \<le> i" "i < length t" by simp_all
  show d: "dropWhile (\<lambda>x. \<not> P x) (drop p t) = drop i t" unfolding i(1) dropWhile_eq_drop by (simp add: add.commute)
  show "takeWhile (\<lambda>x. \<not> P x) (drop p t) = take (i - p) (drop p t)" using takeWhile_eq_take [of "\<lambda>x. \<not> P x" "drop p t"] i(1) by simp
  have "drop i t \<noteq> []" using i(2) by simp
  then have "\<not> \<not> P (hd (drop i t))" using hd_dropWhile [of "\<lambda>x. \<not> P x" "drop p t"] d by metis
  then show "P (t ! i)" using i(2) by (simp add: hd_drop_conv_nth)
qed

lemma tokens_from_words:
  assumes "view_ok V"
  shows "start it = first_from (\<lambda>x. x \<noteq> CHR '' '') t p \<Longrightarrow> (start it \<noteq> None \<longrightarrow> end_pos it = first_from (\<lambda>x. x = CHR '' '') t (after (start it))) \<Longrightarrow>
    length t - p < n \<Longrightarrow> p \<le> length t + 1 \<Longrightarrow> tokens_from n V t CHR '' '' it = Some (words (drop p t))"
proof (induction n arbitrary: it p)
  case (Suc n)
  show ?case
  proof (cases "start it")
    case None
    then have "\<forall>x \<in> set (drop p t). x = CHR '' ''" using first_from_None [of "\<lambda>x. x \<noteq> CHR '' ''" t p] Suc.prems(1) by simp
    then have "dropWhile (\<lambda>x. x = CHR '' '') (drop p t) = []" by (simp add: dropWhile_eq_Nil_conv)
    with None show ?thesis by (simp add: words.simps [of "drop p t"])
  next
    case (Some i)
    note i = first_from_Some [OF Suc.prems(1) [symmetric, unfolded Some]]
    have di: "drop i t = t ! i # drop (i + 1) t" using i(2) by (simp add: Cons_nth_drop_Suc)
    have e: "end_pos it = first_from (\<lambda>x. x = CHR '' '') t (i + 1)" using Suc.prems(2) Some by (simp add: after_def)
    have w: "words (drop p t) = takeWhile (\<lambda>x. x \<noteq> CHR '' '') (drop i t) # words (dropWhile (\<lambda>x. x \<noteq> CHR '' '') (drop i t))"
      using i(4) di by (simp add: words.simps [of "drop p t"])
    show ?thesis
    proof (cases "end_pos it")
      case None
      then have a: "\<forall>x \<in> set (drop i t). x \<noteq> CHR '' ''" using first_from_None [of "\<lambda>x. x = CHR '' ''" t "i + 1"] e i(3) di by auto
      have "tokens_from n V t CHR '' '' (Token_Increment V t CHR '' '' it) = Some []"
        using None Suc.prems(3) i(1,2) by (cases n) (simp_all add: Token_Increment_def)
      moreover have "takeWhile (\<lambda>x. x \<noteq> CHR '' '') (drop i t) = drop i t" "dropWhile (\<lambda>x. x \<noteq> CHR '' '') (drop i t) = []"
        unfolding takeWhile_eq_all_conv dropWhile_eq_Nil_conv by (fact a)+
      then have "words (drop p t) = [drop i t]" by (simp only: w words_Nil)
      ultimately show ?thesis using Some None assms by (simp add: Token_value_def view_ok_def)
    next
      case (Some j)
      note j = first_from_Some [OF e [symmetric, unfolded Some]]
      have dj: "dropWhile (\<lambda>x. x \<noteq> CHR '' '') (drop i t) = drop j t" "takeWhile (\<lambda>x. x \<noteq> CHR '' '') (drop i t) = drop i (take j t)"
        using j(1,4,5) i(3) unfolding di by (simp_all add: drop_take di Suc_diff_Suc [symmetric] take_Cons')
      have "drop j t = CHR '' '' # drop (j + 1) t" using j(2,3) by (simp add: Cons_nth_drop_Suc [symmetric])
      then have wj: "words (drop j t) = words (drop (j + 1) t)" by simp
      have "tokens_from n V t CHR '' '' (Token_Increment V t CHR '' '' it) = Some (words (drop (j + 1) t))"
        using assms Some Suc.prems(3) i(1,2) j(1,2) by (intro Suc.IH) (auto simp: Token_Increment_def view_ok_def after_def Let_def)
      then show ?thesis using \<open>start it = Some i\<close> Some assms by (simp add: Token_value_def view_ok_def w dj wj)
    qed
  qed
qed simp

lemma tokens_words: "view_ok V \<Longrightarrow> tokens V t = Some (words t)"
  using tokens_from_words [of V "Tokenizer_begin V t CHR '' ''" t 0 "length t + 1"]
  by (simp add: tokens_def Tokenizer_begin_def view_ok_def Let_def)

section \<open>Decimal numbers\<close>

fun decimal :: "nat \<Rightarrow> string" where
  "decimal n = (if n < 10 then [char_of (48 + n)] else decimal (n div 10) @ [char_of (48 + n mod 10)])"

declare decimal.simps [simp del]

lemma digit_char: "d < 10 \<Longrightarrow> of_char (char_of (48 + d) :: char) = 48 + d" for d :: nat
  by simp

lemma decimal_digits: "\<forall>c \<in> set (decimal n). is_digit c"
proof (induction n rule: decimal.induct)
  case (1 n)
  then show ?case using digit_char [of n] digit_char [of "n mod 10"] by (auto simp: decimal.simps [of n] is_digit_def)
qed

lemma decimal_value: "digits_value (decimal n) = n"
proof (induction n rule: decimal.induct)
  case (1 n)
  then show ?case using digit_char [of n] digit_char [of "n mod 10"] by (auto simp: decimal.simps [of n] digits_value_def)
qed

lemma length_decimal: "n < 10 ^ k \<Longrightarrow> 0 < k \<Longrightarrow> length (decimal n) \<le> k"
proof (induction k arbitrary: n)
  case (Suc k)
  show ?case
  proof (cases "n < 10")
    case True
    then show ?thesis by (simp add: decimal.simps [of n])
  next
    case False
    then have "n div 10 < 10 ^ k" "0 < k" using Suc.prems by (auto simp: div_less_iff_less_mult mult.commute intro: gr0I)
    with False Suc.IH [of "n div 10"] show ?thesis by (simp add: decimal.simps [of n])
  qed
qed simp

lemma scan_decimal: "scan_number (decimal n) = (False, decimal n)"
proof -
  obtain c cs where c: "decimal n = c # cs" by (cases "decimal n") (auto simp: decimal.simps [of n] split: if_splits)
  have d: "is_digit c" using decimal_digits [of n] by (simp add: c)
  then have "\<not> is_space c" "c \<noteq> CHR ''-''" "c \<noteq> CHR ''+''" by (auto simp: is_digit_def is_space_def)
  moreover have "takeWhile is_digit (decimal n) = decimal n" using decimal_digits [of n] by simp
  ultimately show ?thesis using c by (simp add: scan_number_def)
qed

lemma decimal_nonempty [simp]: "decimal n \<noteq> []"
  by (simp add: decimal.simps [of n])

lemma strtoull_decimal: "n < 2 ^ 64 \<Longrightarrow> strtoull (decimal n) = (of_nat n, True)"
  by (simp add: strtoull_def scan_decimal decimal_value)

lemma strtol_decimal: "n < 2 ^ 63 \<Longrightarrow> strtol (decimal n) = (of_nat n, True)"
  by (simp add: strtol_def scan_decimal decimal_value)

lemma length_decimal_64: "n < 2 ^ 64 \<Longrightarrow> length (decimal n) < 64"
  using length_decimal [of n 20] by simp

section \<open>Requests of a line\<close>

lemma ok_then_simps [simp]: "ok_then (Some (Inr x)) f = f x" "ok_then (Some (Inl e)) f = Some (Inl e)" "ok_then None f = None"
  by (simp_all add: ok_then_def)

lemma syntax_simps [simp]:
  "SYNTAX_ERROR_ROUTINE [] = Some (Inl E_SYNTAX_ERROR)" "SYNTAX_ERROR_ROUTINE (t # ts) = Some (Inr ())"
  "SYNTAX_ERROR_ROUTINE_END [] = Some (Inr ())" "SYNTAX_ERROR_ROUTINE_END (t # ts) = Some (Inl E_SYNTAX_ERROR)"
  by (simp_all add: SYNTAX_ERROR_ROUTINE_def SYNTAX_ERROR_ROUTINE_END_def)

lemma translated_cases:
  obtains "r = None" | e where "r = Some (Inl e)" | x where "r = Some (Inr x)"
  by (cases r rule: option.exhaust) (metis sum.exhaust)+

text \<open>The request that the words after a command describe, for each format that the translator follows.\<close>

fun described :: "command_format \<Rightarrow> string list \<Rightarrow> request \<Rightarrow> request option" where
  "described F_NONE [] rq = Some rq"
| "described F_ONLY_KEY [k] rq = Some ((rq_set_bit 0 rq)\<lparr>rq_key := k\<rparr>)"
| "described F_VALUE [k, v] rq = Some ((rq_set_bit 1 (rq_set_bit 0 rq))\<lparr>rq_key := k, rq_value := v\<rparr>)"
| "described F_SET_OP [k, v] rq = Some ((rq_set_bit 1 (rq_set_bit 0 rq))\<lparr>rq_key := k, rq_value := v\<rparr>)"
| "described F_VALUES (k # v # vs) rq = Some ((rq_set_bit 3 (rq_set_bit 0 rq))\<lparr>rq_key := k, rq_values := v # vs\<rparr>)"
| "described F_SET_OP_TO (v # vs) rq = (if length vs \<le> 2 then Some ((rq_set_bit 3 rq)\<lparr>rq_values := v # vs\<rparr>) else None)"
| "described F_MUL_KEYS (v # vs) rq = Some ((rq_set_bit 3 rq)\<lparr>rq_values := v # vs\<rparr>)"
| "described _ _ rq = None"

lemma translate_described:
  assumes "fmt \<in> {F_NONE, F_ONLY_KEY, F_VALUE, F_SET_OP, F_VALUES, F_SET_OP_TO, F_MUL_KEYS}"
  shows "translate cv strtod rq fmt ts = Some (case described fmt ts rq of None \<Rightarrow> Inl E_SYNTAX_ERROR | Some rq \<Rightarrow> Inr rq)"
proof -
  consider "ts = []" | a where "ts = [a]" | a b where "ts = [a, b]" | a b c r where "ts = a # b # c # r"
    by (cases ts; cases "tl ts"; cases "tl (tl ts)") simp_all
  then show ?thesis using assms
    by cases (elim insertE emptyE; simp add: translate_def SET_KEY_def SET_VALUE_def SET_VALUES_def rq_set_bit_def)+
qed

lemma Process_words:
  assumes "view_ok V" "GetCommand name = Some c"
  shows "MmkvCommandProcess V cv strtod rq name (name @ args)
    = translate cv strtod (rq\<lparr>rq_command := command_num c\<rparr>) (GetCommandFormat c) (words args)"
  using assms by (simp add: MmkvCommandProcess_def Translator_Parse_def tokens_words)

lemma ucast_of_nat_32: "n < 2 ^ 32 \<Longrightarrow> (ucast (of_nat n :: 64 word) :: 32 word) = of_nat n"
  by (simp add: unsigned_of_nat take_bit_nat_eq_self)

lemma translate_numbers:
  "n < 2 ^ 32 \<Longrightarrow> translate cv strtod rq F_COUNT [k, decimal n] = Some (Inr (set_rq_count (of_nat n) (rq_set_bit 5 ((rq_set_bit 0 rq)\<lparr>rq_key := k\<rparr>))))"
  "t < 2 ^ 64 \<Longrightarrow> translate cv strtod rq F_EXPIRE [k, decimal t] = Some (Inr (rq_set_bit 2 ((rq_set_bit 0 rq)\<lparr>rq_key := k, rq_expire_time := of_nat t\<rparr>)))"
  "l < 2 ^ 63 \<Longrightarrow> r < 2 ^ 63 \<Longrightarrow> translate cv strtod rq F_RANGE [k, decimal l, decimal r]
     = Some (Inr (rq_set_bit 6 ((rq_set_bit 0 rq)\<lparr>rq_key := k, rq_range_left := of_nat l, rq_range_right := of_nat r\<rparr>)))"
  using length_decimal_64 [of n] length_decimal_64 [of t] length_decimal_64 [of l] length_decimal_64 [of r]
  by (simp_all add: translate_def SET_KEY_def SET_INTEGER32_def SET_INTEGER_def SET_SIGN_INTEGER_def strtoull_decimal strtol_decimal ucast_of_nat_32)

text \<open>
  C6. A line that begins with the name of a command is split into its words, however many blanks separate them, and
  translated into the request they describe: exactly one key, a key and a value, a key and values, keys, or nothing, and a
  key with decimal numbers for counts, expirations and ranges; for the formats without numbers any other words are a
  syntax error.
\<close>

theorem line_to_request:
  assumes "view_ok V" "GetCommand name = Some c"
  shows "(GetCommandFormat c \<in> {F_NONE, F_ONLY_KEY, F_VALUE, F_SET_OP, F_VALUES, F_SET_OP_TO, F_MUL_KEYS} \<longrightarrow>
      MmkvCommandProcess V cv strtod rq name (name @ args)
        = Some (case described (GetCommandFormat c) (words args) (rq\<lparr>rq_command := command_num c\<rparr>) of None \<Rightarrow> Inl E_SYNTAX_ERROR | Some rq \<Rightarrow> Inr rq))
    \<and> (GetCommandFormat c = F_COUNT \<and> words args = [k, decimal n] \<and> n < 2 ^ 32 \<longrightarrow>
      MmkvCommandProcess V cv strtod rq name (name @ args)
        = Some (Inr (set_rq_count (of_nat n) (rq_set_bit 5 ((rq_set_bit 0 rq)\<lparr>rq_command := command_num c, rq_key := k\<rparr>)))))
    \<and> (GetCommandFormat c = F_EXPIRE \<and> words args = [k, decimal t] \<and> t < 2 ^ 64 \<longrightarrow>
      MmkvCommandProcess V cv strtod rq name (name @ args)
        = Some (Inr (rq_set_bit 2 ((rq_set_bit 0 rq)\<lparr>rq_command := command_num c, rq_key := k, rq_expire_time := of_nat t\<rparr>))))
    \<and> (GetCommandFormat c = F_RANGE \<and> words args = [k, decimal l, decimal r] \<and> l < 2 ^ 63 \<and> r < 2 ^ 63 \<longrightarrow>
      MmkvCommandProcess V cv strtod rq name (name @ args)
        = Some (Inr (rq_set_bit 6 ((rq_set_bit 0 rq)\<lparr>rq_command := command_num c, rq_key := k, rq_range_left := of_nat l, rq_range_right := of_nat r\<rparr>))))"
  using translate_described [of "GetCommandFormat c"] translate_numbers
  by (simp add: Process_words [OF assms] rq_set_bit_def)

text \<open>The searches as the library documents them.\<close>

definition ex_view :: view where
  "ex_view = \<lparr>find_first_not_of = \<lambda>t c. first_from (\<lambda>x. x \<noteq> c) t, find_char = \<lambda>t c. first_from (\<lambda>x. x = c) t,
     substr_range = \<lambda>t i e. (case i of None \<Rightarrow> [] | Some i \<Rightarrow> drop i (case e of None \<Rightarrow> t | Some j \<Rightarrow> take j t))\<rparr>"

lemma ex_view_ok: "view_ok ex_view"
  by (simp add: view_ok_def ex_view_def)

lemma ex_words: "words ''key   v1 '' = [''key'', ''v1'']"
  by (simp add: words.simps [of "CHR ''k'' # _"] words.simps [of "CHR ''v'' # _"])

theorem line_to_request_witness:
  "MmkvCommandProcess ex_view \<lparr>int2double = \<lambda>_. 0, double2u64 = \<lambda>_. 0\<rparr> (\<lambda>_. (0, False)) (MmbpRequest_new 0 0 0) ''STRADD'' ''STRADD  key   v1 ''
     = Some (Inr ((MmbpRequest_new 0 0 0)\<lparr>rq_command := 0, rq_has_bits := 3, rq_key := ''key'', rq_value := ''v1''\<rparr>))"
proof -
  have "GetCommand ''STRADD'' = Some STR_ADD" by (simp add: GetCommand_def command_strings_def commands_def)
  moreover have "GetCommandFormat STR_ADD = F_VALUE" by (simp add: GetCommandFormat_def)
  moreover have "command_num STR_ADD = 0" by (simp add: command_num_def commands_def)
  ultimately show ?thesis
    using line_to_request [OF ex_view_ok, of "''STRADD''" STR_ADD "\<lparr>int2double = \<lambda>_. 0, double2u64 = \<lambda>_. 0\<rparr>" "\<lambda>_. (0, False)" "MmbpRequest_new 0 0 0"
        "''  key   v1 ''", THEN conjunct1]
    by (simp add: ex_words rq_set_bit_def MmbpRequest_new_def set_bit_eq_or)
qed

section \<open>Formats that are misread\<close>

lemma vset_loop_odd: "even (length ts) \<Longrightarrow> ts \<noteq> [] \<Longrightarrow> vset_members_loop n strtod ts vms \<noteq> Some (Inr r)"
proof (induction n arbitrary: ts vms)
  case (Suc n)
  obtain a b cs where ts: "ts = a # b # cs" "even (length cs)" using Suc.prems by (cases ts; cases "tl ts") auto
  show ?case
  proof (cases cs)
    case Nil
    then show ?thesis by (auto simp: ts SET_DOUBLE_def split: prod.splits)
  next
    case (Cons c ds)
    with ts(2) have "vset_members_loop n strtod cs vms' \<noteq> Some (Inr r)" for vms' by (intro Suc.IH) auto
    then show ?thesis by (auto simp: ts Cons SET_DOUBLE_def split: prod.splits)
  qed
qed simp

lemma map_loop: "length ts < n \<Longrightarrow> map_values_loop n ts kvs = Some (Inr (kvs @ map (\<lambda>v. (v, v)) (tl ts)))"
proof (induction n arbitrary: ts kvs)
  case (Suc n)
  show ?case
  proof (cases "tl ts")
    case (Cons v vs)
    with Suc.prems have "length (v # vs) < n" by (cases ts) auto
    from Suc.IH [OF this] Cons show ?thesis by simp
  qed simp
qed simp

text \<open>
  C24. Three commands cannot be typed: \<^verbatim>\<open>MSET\<close> is a syntax error whatever follows it, \<^verbatim>\<open>VADD\<close> is never accepted with a key and
  pairs of weight and member, and \<^verbatim>\<open>MADD\<close> drops the first word after the key and takes each other one as both field and
  value.
\<close>

theorem formats_misread:
  assumes "view_ok V" "words args = k # ws"
  shows "MmkvCommandProcess V cv strtod rq ''MSET'' (''MSET'' @ args) = Some (Inl E_SYNTAX_ERROR)
    \<and> (ws \<noteq> [] \<and> even (length ws) \<longrightarrow> MmkvCommandProcess V cv strtod rq ''VADD'' (''VADD'' @ args) \<noteq> Some (Inr rq'))
    \<and> MmkvCommandProcess V cv strtod rq ''MADD'' (''MADD'' @ args)
      = Some (Inr (rq_set_bit 4 ((rq_set_bit 0 rq)\<lparr>rq_command := command_num MADD, rq_key := k, rq_kvs := rq_kvs rq @ map (\<lambda>v. (v, v)) (tl ws)\<rparr>)))"
proof -
  have c: "GetCommand ''MSET'' = Some MSET" "GetCommand ''VADD'' = Some VADD" "GetCommand ''MADD'' = Some MADD"
    by (simp_all add: GetCommand_def command_strings_def commands_def)
  have f: "GetCommandFormat MSET = F_FIELD_VALUE" "GetCommandFormat VADD = F_VSET_MEMBERS" "GetCommandFormat MADD = F_MAP_VALUES"
    by (simp_all add: GetCommandFormat_def)
  have "MmkvCommandProcess V cv strtod rq ''MSET'' (''MSET'' @ args) = Some (Inl E_SYNTAX_ERROR)"
    unfolding Process_words [OF assms(1) c(1)] assms(2) f by (cases ws) (simp_all add: translate_def SET_KEY_def)
  moreover have "ok_then (vset_members_loop (length ws + 1) strtod ws v) g \<noteq> Some (Inr rq')" if "ws \<noteq> []" "even (length ws)" for v g
    using vset_loop_odd [OF that(2,1), of "length ws + 1" strtod v]
    by (cases "vset_members_loop (length ws + 1) strtod ws v" rule: translated_cases) (simp_all del: vset_members_loop.simps)
  then have "ws \<noteq> [] \<and> even (length ws) \<longrightarrow> MmkvCommandProcess V cv strtod rq ''VADD'' (''VADD'' @ args) \<noteq> Some (Inr rq')"
    unfolding Process_words [OF assms(1) c(2)] assms(2) f by (simp add: translate_def SET_KEY_def del: vset_members_loop.simps)
  moreover have "MmkvCommandProcess V cv strtod rq ''MADD'' (''MADD'' @ args)
      = Some (Inr (rq_set_bit 4 ((rq_set_bit 0 rq)\<lparr>rq_command := command_num MADD, rq_key := k, rq_kvs := rq_kvs rq @ map (\<lambda>v. (v, v)) (tl ws)\<rparr>)))"
    unfolding Process_words [OF assms(1) c(3)] assms(2) f
    by (simp add: translate_def SET_KEY_def map_loop rq_set_bit_def del: map_values_loop.simps)
  ultimately show ?thesis by blast
qed

theorem formats_misread_witness:
  "MmkvCommandProcess ex_view \<lparr>int2double = \<lambda>_. 0, double2u64 = \<lambda>_. 0\<rparr> (\<lambda>_. (0, False)) (MmbpRequest_new 0 0 0) ''MADD'' ''MADD m f v''
     = Some (Inr ((MmbpRequest_new 0 0 0)\<lparr>rq_command := command_num MADD, rq_has_bits := 17, rq_key := ''m'', rq_kvs := [(''v'', ''v'')]\<rparr>))"
proof -
  have "words '' m f v'' = ''m'' # [''f'', ''v'']"
    by (simp add: words.simps [of "CHR ''m'' # _"] words.simps [of "CHR ''f'' # _"] words.simps [of "CHR ''v'' # _"])
  from formats_misread [OF ex_view_ok this, of "\<lparr>int2double = \<lambda>_. 0, double2u64 = \<lambda>_. 0\<rparr>" "\<lambda>_. (0, False)" "MmbpRequest_new 0 0 0" undefined]
  show ?thesis by (simp add: rq_set_bit_def MmbpRequest_new_def set_bit_eq_or)
qed

end
