(* ===== verification/Tracker.thy ===== *)
theory Tracker
  imports Blist
begin

text \<open>
  The shard controller: the sessions of the nodes (\<^verbatim>\<open>tracker/shard_controller_session.cc\<close>) and the state they share
  (\<^verbatim>\<open>tracker/shard_controller_server.cc\<close>). A failed assertion and a loop that does not end have no result (\<open>None\<close>).
\<close>

section \<open>Configurations\<close>

type_synonym node_id = "64 word"

record node_conf =
  nc_host :: string
  nc_port :: "32 word"
  nc_mmkvd_port :: "32 word"
  nc_shard_ids :: "nat list"

text \<open>
  The entries of \<^verbatim>\<open>node_conf_map\<close> in the order in which it is iterated. Protocol buffers promise no order, and a copy may have
  another one: \<open>ord\<close> below is the order of the copy.
\<close>

type_synonym configuration = "(node_id \<times> node_conf) list"

definition INVALID_NODE_ID :: node_id where "INVALID_NODE_ID = - 1"

definition emplace :: "'k \<Rightarrow> 'v \<Rightarrow> ('k \<times> 'v) list \<Rightarrow> ('k \<times> 'v) list" where
  "emplace k v m = (if map_of m k = None then m @ [(k, v)] else m)"

datatype conf_state = CONF_STATE_JOIN_NODE | CONF_STATE_LEAVE_NODE

record pending_conf =
  pc_conf :: configuration
  pc_state :: conf_state
  pc_node_id :: node_id

section \<open>Messages\<close>

datatype ctl_operation = CONTROL_OP_ADD_NODE | CONTROL_OP_LEAVE_NODE | CONTROL_OP_ADD_NODE_COMPLETE | CONTROL_OP_LEAVE_NODE_COMPLETE
  | CONTROL_OP_QUERY_NODE_INFO

datatype ctl_status = CONTROL_STATUS_OK | CONTROL_STATUS_WAIT | CONTROL_STATUS_HB | CONTROL_STATUS_NODE_HAS_ADDED | CONTROL_STATUS_NODE_FULL
  | CONTROL_STATUS_NODE_NON_EXISTS | CONTROL_STATUS_INVALID_MSG | CONTROL_STATUS_CONF_CHANGE

record ctl_request =
  cr_operation :: ctl_operation
  cr_node_id :: node_id
  cr_sharder_port :: "32 word"
  cr_mmkvd_port :: "32 word"
  cr_shard_ids :: "nat list"

record node_info =
  ni_node_id :: node_id
  ni_port :: "32 word"
  ni_host :: string
  ni_shard_ids :: "nat list"
  ni_is_push :: bool

record ctl_response =
  cs_status :: ctl_status
  cs_node_id :: "node_id option"
  cs_node_infos :: "node_info list"
  cs_shard_num :: "nat option"

definition MakeControllerResponse :: "ctl_status \<Rightarrow> ctl_response" where
  "MakeControllerResponse s = \<lparr>cs_status = s, cs_node_id = None, cs_node_infos = [], cs_shard_num = None\<rparr>"

section \<open>The controller\<close>

text \<open>
  Connections are numbers; \<open>ct_session\<close> is the \<^verbatim>\<open>node_id_\<close> of a connection's session, a 32-bit integer that is not initialised.
  \<open>ct_sent\<close>, \<open>ct_closed\<close> and \<open>ct_synced\<close> record what is sent to the nodes, which connections are shut down, and the
  configurations handed to the configuration server. \<^verbatim>\<open>node_session_map\<close> is never filled and left out.
\<close>

record ctler =
  ct_config :: configuration
  ct_pending :: "pending_conf list"
  ct_conns :: "conf_state \<times> node_id \<Rightarrow> nat option"
  ct_shard_num :: nat
  ct_session :: "nat \<Rightarrow> 32 word"
  ct_sent :: "(nat \<times> ctl_response) list"
  ct_closed :: "nat list"
  ct_synced :: "configuration list"

definition GetRecentConf :: "ctler \<Rightarrow> configuration" where
  "GetRecentConf st = (case ct_pending st of [] \<Rightarrow> ct_config st | p # _ \<Rightarrow> pc_conf p)"

definition PushPendingConf :: "pending_conf \<Rightarrow> ctler \<Rightarrow> ctler" where
  "PushPendingConf p st = st\<lparr>ct_pending := ct_pending st @ [p]\<rparr>"

definition PopPendingConf :: "ctler \<Rightarrow> ctler" where
  "PopPendingConf st = st\<lparr>ct_pending := tl (ct_pending st)\<rparr>"

definition UpdateConfig :: "configuration \<Rightarrow> ctler \<Rightarrow> ctler" where
  "UpdateConfig conf st = st\<lparr>ct_config := conf, ct_synced := ct_synced st @ [conf]\<rparr>"

definition ctl_send :: "nat \<Rightarrow> ctl_response \<Rightarrow> ctler \<Rightarrow> ctler" where
  "ctl_send conn r st = st\<lparr>ct_sent := ct_sent st @ [(conn, r)]\<rparr>"

definition ShutdownWrite :: "nat \<Rightarrow> ctler \<Rightarrow> ctler" where
  "ShutdownWrite conn st = st\<lparr>ct_closed := conn # ct_closed st\<rparr>"

text \<open>\<open>draws\<close> are the numbers the random engine gives; running out of them stands for a loop that goes on.\<close>

fun generate_loop :: "node_id \<Rightarrow> configuration \<Rightarrow> node_id list \<Rightarrow> node_id option" where
  "generate_loop pre_id conf [] = None"
| "generate_loop pre_id conf (x # draws) =
     (if x = pre_id then generate_loop pre_id conf draws
      else if map_of conf x = None then Some x
      else generate_loop x conf draws)"

definition GenerateNodeId :: "node_id list \<Rightarrow> ctler \<Rightarrow> node_id option" where
  "GenerateNodeId draws st = generate_loop (- 1) (GetRecentConf st) draws"

section \<open>Joining\<close>

text \<open>The loop over the old nodes: what is left of them, the shards taken away, and what the response says of it.\<close>

fun steal :: "nat \<Rightarrow> nat \<Rightarrow> configuration \<Rightarrow> (configuration \<times> nat list \<times> node_info list) option" where
  "steal at_least extra [] = Some ([], [], [])"
| "steal at_least extra ((i, c) # cs) =
     do { let size = length (nc_shard_ids c);
          assertion (at_least \<le> size);
          if 0 < extra \<and> size = at_least
          then do { (cs, ids, infos) \<leftarrow> steal at_least extra cs; Some ((i, c) # cs, ids, infos) }
          else do {
            let diff = size - at_least - (if 0 < extra then 1 else 0);
            let moved = rev (drop (size - diff) (nc_shard_ids c));
            let info = \<lparr>ni_node_id = i, ni_port = nc_port c, ni_host = nc_host c, ni_shard_ids = moved, ni_is_push = False\<rparr>;
            (cs, ids, infos) \<leftarrow> steal at_least (extra - 1) cs;
            Some ((i, c\<lparr>nc_shard_ids := take (size - diff) (nc_shard_ids c)\<rparr>) # cs, moved @ ids, info # infos) } }"

definition Join :: "node_id list \<Rightarrow> (configuration \<Rightarrow> configuration) \<Rightarrow> string \<Rightarrow> nat \<Rightarrow> ctl_request \<Rightarrow> ctler \<Rightarrow> ctler option" where
  "Join draws ord host conn req st =
     (if cr_node_id req \<noteq> INVALID_NODE_ID then
        Some (ShutdownWrite conn
          (if map_of (GetRecentConf st) (cr_node_id req) \<noteq> None
           then ctl_send conn (MakeControllerResponse CONTROL_STATUS_NODE_HAS_ADDED) st else st))
      else let conf = GetRecentConf st; n = ct_shard_num st; new_node_num = length conf + 1 in
        if n < new_node_num then Some (ShutdownWrite conn (ctl_send conn (MakeControllerResponse CONTROL_STATUS_NODE_FULL) st))
        else do {
          peer \<leftarrow> GenerateNodeId draws st;
          (conf, ids, infos) \<leftarrow>
            (if new_node_num = 1 then Some (ord conf, [0..<n], [])
             else steal (n div new_node_num) (n mod new_node_num) (ord conf));
          let new = \<lparr>nc_host = host, nc_port = cr_sharder_port req, nc_mmkvd_port = cr_mmkvd_port req, nc_shard_ids = ids\<rparr>;
          let p = \<lparr>pc_conf = emplace peer new conf, pc_state = CONF_STATE_JOIN_NODE, pc_node_id = peer\<rparr>;
          let st = PushPendingConf p st;
          let st = st\<lparr>ct_session := (ct_session st)(conn := ucast (cr_node_id req))\<rparr>;
          Some (ctl_send conn \<lparr>cs_status = CONTROL_STATUS_OK, cs_node_id = Some peer, cs_node_infos = infos, cs_shard_num = Some n\<rparr> st) })"

section \<open>Leaving\<close>

text \<open>The loop over the nodes that stay; it ends when all shards are given away.\<close>

fun spread :: "nat \<Rightarrow> nat \<Rightarrow> nat list \<Rightarrow> configuration \<Rightarrow> (configuration \<times> node_info list) option" where
  "spread at_least extra removed [] = Some ([], [])"
| "spread at_least extra removed ((i, c) # cs) =
     do { let size = length (nc_shard_ids c);
          assertion (size < at_least);
          let diff = at_least - size + (if 0 < extra then 1 else 0);
          let given = take diff removed;
          let c' = c\<lparr>nc_shard_ids := nc_shard_ids c @ given\<rparr>;
          let info = \<lparr>ni_node_id = i, ni_port = nc_port c, ni_host = nc_host c, ni_shard_ids = given, ni_is_push = True\<rparr>;
          if drop diff removed = [] then Some ((i, c') # cs, [info])
          else do { (cs, infos) \<leftarrow> spread at_least (extra - 1) (drop diff removed) cs; Some ((i, c') # cs, info # infos) } }"

text \<open>When the last node leaves, the configuration is pushed as it is.\<close>

definition Leave :: "(configuration \<Rightarrow> configuration) \<Rightarrow> nat \<Rightarrow> ctl_request \<Rightarrow> ctler \<Rightarrow> ctler option" where
  "Leave ord conn req st =
     (let peer = cr_node_id req; conf = GetRecentConf st in
      if peer = INVALID_NODE_ID then Some (ctl_send conn (MakeControllerResponse CONTROL_STATUS_NODE_NON_EXISTS) st)
      else case map_of conf peer of
        None \<Rightarrow> Some (ctl_send conn (MakeControllerResponse CONTROL_STATUS_NODE_NON_EXISTS) st)
      | Some c \<Rightarrow> do {
          assertion (ucast (ct_session st conn) = peer);
          let removed = nc_shard_ids c;
          let new_node_num = length conf - 1;
          (conf, infos) \<leftarrow>
            (if 0 < new_node_num
             then spread (length removed div new_node_num) (length removed mod new_node_num) removed (filter (\<lambda>x. fst x \<noteq> peer) (ord conf))
             else Some (ord conf, []));
          let st = PushPendingConf \<lparr>pc_conf = conf, pc_state = CONF_STATE_LEAVE_NODE, pc_node_id = peer\<rparr> st;
          Some (ctl_send conn \<lparr>cs_status = CONTROL_STATUS_OK, cs_node_id = Some peer, cs_node_infos = infos, cs_shard_num = None\<rparr> st) })"

section \<open>Completion\<close>

text \<open>
  \<^verbatim>\<open>CheckPendingConfSessionAndResponse\<close>; \<open>alive\<close> tells which connections are still up. The loop looks at the front of the queue
  again after each configuration it takes off, also when that was the last.
\<close>

function CheckPending :: "(nat \<Rightarrow> bool) \<Rightarrow> ctler \<Rightarrow> ctler option" where
  "CheckPending alive st = (case ct_pending st of
      [] \<Rightarrow> None
    | p # ps \<Rightarrow> (case ct_conns st (pc_state p, pc_node_id p) of
          None \<Rightarrow> Some st
        | Some conn \<Rightarrow>
            CheckPending alive (PopPendingConf
              (if alive conn then UpdateConfig (pc_conf p) (ctl_send conn (MakeControllerResponse CONTROL_STATUS_CONF_CHANGE) st)
               else st\<lparr>ct_conns := (ct_conns st)((pc_state p, pc_node_id p) := None)\<rparr>))))"
  by pat_completeness auto
termination
  by (relation "measure (\<lambda>(alive, st). length (ct_pending st))") (auto simp: PopPendingConf_def UpdateConfig_def ctl_send_def)

declare CheckPending.simps [simp del]

definition ControllorOperationComplete :: "(nat \<Rightarrow> bool) \<Rightarrow> nat \<Rightarrow> ctl_request \<Rightarrow> conf_state \<Rightarrow> ctler \<Rightarrow> ctler option" where
  "ControllorOperationComplete alive conn req cst st = (case ct_pending st of
      [] \<Rightarrow> None
    | p # ps \<Rightarrow>
        if pc_node_id p = cr_node_id req \<and> pc_state p = cst then
          do { let st = PopPendingConf (UpdateConfig (pc_conf p) st);
               st \<leftarrow> (if ct_pending st \<noteq> [] then CheckPending alive st else Some st);
               Some (ctl_send conn (MakeControllerResponse CONTROL_STATUS_CONF_CHANGE) st) }
        else
          let k = (cst, cr_node_id req);
              st = (if ct_conns st k = None then st\<lparr>ct_conns := (ct_conns st)(k \<mapsto> conn)\<rparr> else st) in
          Some (ctl_send conn (MakeControllerResponse CONTROL_STATUS_WAIT) st))"

section \<open>Queries\<close>

text \<open>The nodes that hold a shard, and the answer; the shards of a node are moved into its first entry.\<close>

definition holders :: "configuration \<Rightarrow> nat \<Rightarrow> (node_id \<times> node_conf) list" where
  "holders conf q = filter (\<lambda>x. q \<in> set (nc_shard_ids (snd x))) conf"

fun query_infos :: "(node_id \<Rightarrow> nat list) \<Rightarrow> (node_id \<times> node_conf) list \<Rightarrow> node_info list" where
  "query_infos m [] = []"
| "query_infos m ((i, c) # xs) =
     \<lparr>ni_node_id = i, ni_port = nc_port c, ni_host = nc_host c, ni_shard_ids = m i, ni_is_push = True\<rparr> # query_infos (m(i := [])) xs"

definition QueryNodeInfo :: "nat \<Rightarrow> ctl_request \<Rightarrow> ctler \<Rightarrow> ctler option" where
  "QueryNodeInfo conn req st =
     (if cr_node_id req \<noteq> ucast (ct_session st conn) then Some (ShutdownWrite conn st)
      else do {
        let qs = cr_shard_ids req;
        let found = concat (map (holders (GetRecentConf st)) qs);
        assertion (length found = length qs);
        let m = (\<lambda>i. map snd (filter (\<lambda>x. fst x = i) (zip (map fst found) qs)));
        Some (ctl_send conn ((MakeControllerResponse CONTROL_STATUS_OK)\<lparr>cs_node_infos := query_infos m found\<rparr>) st) })"

section \<open>The message callback\<close>

text \<open>A query falls through to the default case, which shuts the connection down.\<close>

definition ctl_message :: "node_id list \<Rightarrow> (configuration \<Rightarrow> configuration) \<Rightarrow> (nat \<Rightarrow> string) \<Rightarrow> (nat \<Rightarrow> bool) \<Rightarrow> nat \<Rightarrow> ctl_request \<Rightarrow> ctler \<Rightarrow> ctler option" where
  "ctl_message draws ord peer_ip alive conn req st = (case cr_operation req of
      CONTROL_OP_ADD_NODE \<Rightarrow> Join draws ord (peer_ip conn) conn req st
    | CONTROL_OP_LEAVE_NODE \<Rightarrow> Leave ord conn req st
    | CONTROL_OP_ADD_NODE_COMPLETE \<Rightarrow> ControllorOperationComplete alive conn req CONF_STATE_JOIN_NODE st
    | CONTROL_OP_LEAVE_NODE_COMPLETE \<Rightarrow> ControllorOperationComplete alive conn req CONF_STATE_LEAVE_NODE st
    | CONTROL_OP_QUERY_NODE_INFO \<Rightarrow> map_option (ShutdownWrite conn) (QueryNodeInfo conn req st))"

end
