(* ===== verification/TrackerProps.thy ===== *)
theory TrackerProps
  imports Tracker "HOL-Library.Sublist"
begin

text \<open>
  The distribution of the shards over the nodes: what joining keeps, and what goes wrong when several nodes join at once
  and when a node leaves.
\<close>

section \<open>Balanced configurations\<close>

abbreviation shard_size :: "node_id \<times> node_conf \<Rightarrow> nat" where
  "shard_size x \<equiv> length (nc_shard_ids (snd x))"

abbreviation all_shards :: "configuration \<Rightarrow> nat list" where
  "all_shards conf \<equiv> concat (map (\<lambda>x. nc_shard_ids (snd x)) conf)"

text \<open>Every shard belongs to exactly one node, and the sizes of the nodes differ by at most one.\<close>

definition balanced :: "nat \<Rightarrow> configuration \<Rightarrow> bool" where
  "balanced n conf \<longleftrightarrow> distinct (map fst conf) \<and> mset (all_shards conf) = mset [0..<n]
     \<and> (\<forall>x \<in> set conf. shard_size x \<in> {n div length conf, n div length conf + 1})"

abbreviation larger :: "nat \<Rightarrow> configuration \<Rightarrow> nat" where
  "larger a conf \<equiv> length (filter (\<lambda>x. a < shard_size x) conf)"

lemma sizes_sum: "\<forall>x \<in> set conf. shard_size x \<in> {q, q + 1} \<Longrightarrow> length (all_shards conf) = length conf * q + larger q conf"
  by (induction conf) auto

lemma all_shards_sum: "mset (all_shards conf) = (\<Sum>x \<in># mset conf. mset (nc_shard_ids (snd x)))"
  by (induction conf) auto

lemma balanced_mset:
  assumes "mset conf' = mset conf"
  shows "balanced n conf' = balanced n conf"
proof -
  have "mset (map fst conf') = mset (map fst conf)" using assms by simp
  then have "distinct (map fst conf') = distinct (map fst conf)" by (rule mset_eq_imp_distinct_iff)
  then show ?thesis unfolding balanced_def all_shards_sum assms mset_eq_setD [OF assms] mset_eq_length [OF assms] by simp
qed

section \<open>Joining\<close>

lemma steal_ok:
  "\<forall>x \<in> set conf. a \<le> shard_size x \<Longrightarrow> e \<le> larger a conf \<Longrightarrow>
   \<exists>conf' ids infos. steal a e conf = Some (conf', ids, infos) \<and> map fst conf' = map fst conf
     \<and> mset ids + mset (all_shards conf') = mset (all_shards conf) \<and> length (all_shards conf') = length conf * a + e
     \<and> (\<forall>x \<in> set conf'. shard_size x \<in> {a, a + 1}) \<and> concat (map ni_shard_ids infos) = ids
     \<and> list_all2 (\<lambda>x y. prefix (nc_shard_ids (snd y)) (nc_shard_ids (snd x))) conf conf'"
proof (induction conf arbitrary: e)
  case (Cons x conf)
  obtain i c where x: "x = (i, c)" by (cases x)
  let ?size = "length (nc_shard_ids c)"
  have a: "a \<le> ?size" using Cons.prems(1) x by simp
  show ?case
  proof (cases "0 < e \<and> ?size = a")
    case True
    then have "e \<le> larger a conf" using Cons.prems(2) x by simp
    with Cons.IH Cons.prems(1) obtain conf' ids infos where IH: "steal a e conf = Some (conf', ids, infos)" "map fst conf' = map fst conf"
      "mset ids + mset (all_shards conf') = mset (all_shards conf)" "length (all_shards conf') = length conf * a + e"
      "\<forall>x \<in> set conf'. shard_size x \<in> {a, a + 1}" "concat (map ni_shard_ids infos) = ids"
      "list_all2 (\<lambda>x y. prefix (nc_shard_ids (snd y)) (nc_shard_ids (snd x))) conf conf'" by fastforce
    show ?thesis using IH x True a by (simp add: assertion_def Let_def add.left_commute)
  next
    case False
    let ?diff = "?size - a - (if 0 < e then 1 else 0)"
    let ?c = "c\<lparr>nc_shard_ids := take (?size - ?diff) (nc_shard_ids c)\<rparr>"
    have "e - 1 \<le> larger a conf" using Cons.prems(2) x False by (auto split: if_splits)
    with Cons.IH Cons.prems(1) obtain conf' ids infos where IH: "steal a (e - 1) conf = Some (conf', ids, infos)" "map fst conf' = map fst conf"
      "mset ids + mset (all_shards conf') = mset (all_shards conf)" "length (all_shards conf') = length conf * a + (e - 1)"
      "\<forall>x \<in> set conf'. shard_size x \<in> {a, a + 1}" "concat (map ni_shard_ids infos) = ids"
      "list_all2 (\<lambda>x y. prefix (nc_shard_ids (snd y)) (nc_shard_ids (snd x))) conf conf'" by fastforce
    have k: "?size - ?diff = (if 0 < e then a + 1 else a)" "?size - ?diff \<le> ?size" using False a by auto
    have m: "mset (drop k (nc_shard_ids c)) + mset (take k (nc_shard_ids c)) = mset (nc_shard_ids c)" for k
      by (metis append_take_drop_id mset_append union_commute)
    have p: "prefix (take k (nc_shard_ids c)) (nc_shard_ids c)" for k by (rule take_is_prefix)
    have s: "steal a e (x # conf) = Some ((i, ?c) # conf', rev (drop (?size - ?diff) (nc_shard_ids c)) @ ids,
        \<lparr>ni_node_id = i, ni_port = nc_port c, ni_host = nc_host c, ni_shard_ids = rev (drop (?size - ?diff) (nc_shard_ids c)), ni_is_push = False\<rparr> # infos)"
      using IH(1) x False a by (auto simp: assertion_def Let_def simp del: bind_Some_iff)
    have t: "mset (rev (drop (?size - ?diff) (nc_shard_ids c)) @ ids) + mset (all_shards ((i, ?c) # conf')) = mset (all_shards (x # conf))"
    proof -
      have "mset (rev (drop (?size - ?diff) (nc_shard_ids c)) @ ids) + mset (all_shards ((i, ?c) # conf'))
          = (mset (drop (?size - ?diff) (nc_shard_ids c)) + mset (take (?size - ?diff) (nc_shard_ids c))) + (mset ids + mset (all_shards conf'))"
        by (simp add: add.assoc add.left_commute)
      then show ?thesis unfolding m IH(3) x by simp
    qed
    have l: "length (all_shards ((i, ?c) # conf')) = length (x # conf) * a + e" "shard_size (i, ?c) \<in> {a, a + 1}"
      using IH(4) k by (simp_all add: min_def)
    show ?thesis by (intro exI conjI, rule s) (use IH(2,5,6,7) x t l p in \<open>simp_all del: take_is_prefix\<close>)
  qed
qed simp

text \<open>A balanced configuration has enough nodes that can keep one shard more than the others.\<close>

lemma balanced_larger:
  assumes "balanced n conf" "conf \<noteq> []"
  defines "a \<equiv> n div (length conf + 1)"
  shows "\<forall>x \<in> set conf. a \<le> shard_size x" "n mod (length conf + 1) \<le> larger a conf"
proof -
  let ?k = "length conf" and ?q = "n div length conf"
  have k: "0 < ?k" using assms(2) by simp
  have aq: "a \<le> ?q" unfolding a_def using k by (intro div_le_mono2) simp_all
  have s: "shard_size x \<in> {?q, ?q + 1}" if "x \<in> set conf" for x using assms(1) that by (simp add: balanced_def)
  then show "\<forall>x \<in> set conf. a \<le> shard_size x" using aq by fastforce
  have n: "n = length (all_shards conf)" using assms(1) unfolding balanced_def by (metis diff_zero length_upt size_mset)
  have e: "n = (?k + 1) * a + n mod (?k + 1)" unfolding a_def by (metis mult_div_mod_eq)
  show "n mod (?k + 1) \<le> larger a conf"
  proof (cases "a = ?q")
    case True
    have "n = ?k * a + larger a conf" using sizes_sum [of conf a] s n True by simp
    then show ?thesis using e by simp
  next
    case False
    then have "a < ?q" using aq by simp
    then have "filter (\<lambda>x. a < shard_size x) conf = conf" using s by (intro filter_True) fastforce
    then show ?thesis using mod_less_divisor [of "?k + 1" n] by simp
  qed
qed

lemma generate_loop_fresh: "generate_loop pre conf draws = Some i \<Longrightarrow> map_of conf i = None"
  by (induction pre conf draws rule: generate_loop.induct) (auto split: if_splits)

lemma map_of_None_mset: "mset xs = mset ys \<Longrightarrow> map_of xs k = None \<longleftrightarrow> map_of ys k = None"
  by (metis map_of_eq_None_iff mset_eq_setD)

text \<open>The configuration a joining node gets, without the administration around it.\<close>

lemma redistribute:
  assumes "balanced n conf \<or> conf = []" "length conf < n"
  shows "\<exists>conf' ids infos.
      (if length conf + 1 = 1 then Some (conf, [0..<n], []) else steal (n div (length conf + 1)) (n mod (length conf + 1)) conf) = Some (conf', ids, infos)
    \<and> map fst conf' = map fst conf \<and> (\<forall>i c. i \<notin> fst ` set conf \<longrightarrow> nc_shard_ids c = ids \<longrightarrow> balanced n (conf' @ [(i, c)]))
    \<and> (conf \<noteq> [] \<longrightarrow> concat (map ni_shard_ids infos) = ids)
    \<and> list_all2 (\<lambda>x y. prefix (nc_shard_ids (snd y)) (nc_shard_ids (snd x))) conf conf'"
proof (cases "conf = []")
  case True
  then show ?thesis using assms(2) by (simp add: balanced_def)
next
  case False
  let ?k = "length conf + 1"
  let ?a = "n div ?k" and ?e = "n mod ?k"
  have b: "balanced n conf" using False assms(1) by simp
  from steal_ok [OF balanced_larger [OF b False]] obtain conf' ids infos where st: "steal ?a ?e conf = Some (conf', ids, infos)"
      "map fst conf' = map fst conf" "mset ids + mset (all_shards conf') = mset (all_shards conf)"
      "length (all_shards conf') = length conf * ?a + ?e" "\<forall>x \<in> set conf'. shard_size x \<in> {?a, ?a + 1}" "concat (map ni_shard_ids infos) = ids"
      "list_all2 (\<lambda>x y. prefix (nc_shard_ids (snd y)) (nc_shard_ids (snd x))) conf conf'" by blast
  have m: "mset (all_shards conf) = mset [0..<n]" "distinct (map fst conf)" using b by (simp_all add: balanced_def)
  have "length ids + length (all_shards conf') = n" using st(3) m(1) by (metis diff_zero length_upt size_mset size_union)
  moreover have "n = ?k * ?a + ?e" by (metis mult_div_mod_eq)
  ultimately have ids: "length ids = ?a" using st(4) by simp
  have l: "length conf' = length conf" using st(2) by (metis length_map)
  have "balanced n (conf' @ [(i, c)])" if "i \<notin> fst ` set conf" "nc_shard_ids c = ids" for i c
  proof -
    have "i \<notin> fst ` set conf'" using that(1) st(2) by (metis list.set_map)
    moreover have "distinct (map fst conf')" using m(2) st(2) by simp
    moreover have "mset (all_shards (conf' @ [(i, c)])) = mset [0..<n]" using st(3) m(1) that(2) by (simp add: union_commute)
    ultimately show ?thesis using st(5) ids that(2) l by (simp add: balanced_def)
  qed
  then show ?thesis using False st by simp
qed

text \<open>What a successful join pushes and answers.\<close>

definition joined :: "nat \<Rightarrow> configuration \<Rightarrow> node_id \<Rightarrow> pending_conf \<Rightarrow> node_info list \<Rightarrow> bool" where
  "joined n conf peer p infos \<longleftrightarrow> pc_node_id p = peer \<and> pc_state p = CONF_STATE_JOIN_NODE \<and> balanced n (pc_conf p)
     \<and> fst ` set (pc_conf p) = insert peer (fst ` set conf)
     \<and> (\<exists>c. map_of (pc_conf p) peer = Some c \<and> (conf \<noteq> [] \<longrightarrow> concat (map ni_shard_ids infos) = nc_shard_ids c))
     \<and> (\<forall>i c. map_of conf i = Some c \<longrightarrow> (\<exists>c'. map_of (pc_conf p) i = Some c' \<and> prefix (nc_shard_ids c') (nc_shard_ids c)))"

lemma list_all2_map_of:
  assumes "map fst ys = map fst xs" "list_all2 (\<lambda>x y. R (snd x) (snd y)) xs ys" "map_of xs i = Some c"
  shows "\<exists>c'. map_of ys i = Some c' \<and> R c c'"
  using assms(2,1,3) by (induction rule: list_all2_induct) (auto split: if_splits)

lemma map_of_mset: "mset xs = mset ys \<Longrightarrow> distinct (map fst ys) \<Longrightarrow> map_of xs = map_of ys"
  by (metis map_of_inject_set mset_eq_imp_distinct_iff mset_eq_setD mset_map)

lemma Join_ok:
  fixes st :: ctler
  defines "conf \<equiv> GetRecentConf st" and "n \<equiv> ct_shard_num st"
  assumes "cr_node_id rq = INVALID_NODE_ID" "balanced n conf \<or> conf = []" "length conf < n" "generate_loop (- 1) conf draws = Some peer"
    "\<And>c. mset (ord c) = mset c"
  shows "\<exists>p infos. Join draws ord host conn rq st = Some (ctl_send conn
        \<lparr>cs_status = CONTROL_STATUS_OK, cs_node_id = Some peer, cs_node_infos = infos, cs_shard_num = Some n\<rparr>
        ((PushPendingConf p st)\<lparr>ct_session := (ct_session st)(conn := ucast INVALID_NODE_ID)\<rparr>))
    \<and> joined n conf peer p infos"
proof -
  have o: "mset (ord conf) = mset conf" "length (ord conf) = length conf" by (rule assms(7), rule mset_eq_length [OF assms(7)])
  have b: "balanced n (ord conf) \<or> ord conf = []" using assms(4) o(2) unfolding balanced_mset [OF o(1)] by (metis length_0_conv)
  have "length (ord conf) < n" using assms(5) o(2) by simp
  from redistribute [OF b this, unfolded o(2)] obtain conf' ids infos where r:
      "(if length conf + 1 = 1 then Some (ord conf, [0..<n], []) else steal (n div (length conf + 1)) (n mod (length conf + 1)) (ord conf)) = Some (conf', ids, infos)"
      "map fst conf' = map fst (ord conf)" "\<forall>i c. i \<notin> fst ` set (ord conf) \<longrightarrow> nc_shard_ids c = ids \<longrightarrow> balanced n (conf' @ [(i, c)])"
      "ord conf \<noteq> [] \<longrightarrow> concat (map ni_shard_ids infos) = ids"
      "list_all2 (\<lambda>x y. prefix (nc_shard_ids (snd y)) (nc_shard_ids (snd x))) (ord conf) conf'"
    by (elim exE conjE)
  let ?c = "\<lparr>nc_host = host, nc_port = cr_sharder_port rq, nc_mmkvd_port = cr_mmkvd_port rq, nc_shard_ids = ids\<rparr>"
  have fresh: "peer \<notin> fst ` set (ord conf)"
    using generate_loop_fresh [OF assms(6)] map_of_None_mset [OF o(1), of peer] by (simp add: map_of_eq_None_iff)
  then have fresh': "map_of conf' peer = None" using r(2) by (metis list.set_map map_of_eq_None_iff)
  have e: "emplace peer ?c conf' = conf' @ [(peer, ?c)]" using fresh' by (simp add: emplace_def)
  let ?p = "\<lparr>pc_conf = conf' @ [(peer, ?c)], pc_state = CONF_STATE_JOIN_NODE, pc_node_id = peer\<rparr>"
  have "Join draws ord host conn rq st = Some (ctl_send conn
        \<lparr>cs_status = CONTROL_STATUS_OK, cs_node_id = Some peer, cs_node_infos = infos, cs_shard_num = Some n\<rparr>
        ((PushPendingConf ?p st)\<lparr>ct_session := (ct_session st)(conn := ucast INVALID_NODE_ID)\<rparr>))"
    using assms(3,5,6) r(1) e unfolding Join_def GenerateNodeId_def conf_def n_def Let_def
    by (simp add: PushPendingConf_def del: bind_Some_iff)
  moreover have "joined n conf peer ?p infos"
  proof -
    have "fst ` set conf' = fst ` set conf" using r(2) mset_eq_setD [OF o(1)] by (metis list.set_map)
    moreover have "map_of (conf' @ [(peer, ?c)]) peer = Some ?c" using fresh' by (simp add: map_add_def)
    moreover have "\<exists>c'. map_of (conf' @ [(peer, ?c)]) i = Some c' \<and> prefix (nc_shard_ids c') (nc_shard_ids c)" if "map_of conf i = Some c" for i c
    proof -
      have "map_of (ord conf) i = Some c"
      proof -
        have "distinct (map fst conf)" using assms(4) by (auto simp: balanced_def)
        then show ?thesis using map_of_mset [OF o(1)] that by simp
      qed
      from list_all2_map_of [OF r(2) r(5) this] show ?thesis by (auto simp: map_add_def)
    qed
    moreover have "ord conf \<noteq> []" if "conf \<noteq> []" using that o(2) by auto
    ultimately show ?thesis using r(3) [rule_format, OF fresh, of ?c] r(4) by (auto simp: joined_def)
  qed
  ultimately show ?thesis by blast
qed

text \<open>
  C16. A node that joins a cluster with room gets an unused identifier, and shards so that in the configuration pushed every
  shard still belongs to exactly one node and the numbers of shards differ by at most one; the other nodes only lose shards,
  and the response lists, node by node, exactly the shards the new node is to fetch.
\<close>

theorem join_rebalances:
  assumes "cr_node_id rq = INVALID_NODE_ID" "balanced (ct_shard_num st) (GetRecentConf st) \<or> GetRecentConf st = []"
    "length (GetRecentConf st) < ct_shard_num st" "GenerateNodeId draws st = Some peer" "\<And>c. mset (ord c) = mset c"
  shows "map_of (GetRecentConf st) peer = None
    \<and> (\<exists>st' p infos. Join draws ord host conn rq st = Some st' \<and> ct_pending st' = ct_pending st @ [p]
        \<and> ct_sent st' = ct_sent st @ [(conn, \<lparr>cs_status = CONTROL_STATUS_OK, cs_node_id = Some peer, cs_node_infos = infos, cs_shard_num = Some (ct_shard_num st)\<rparr>)]
        \<and> joined (ct_shard_num st) (GetRecentConf st) peer p infos)"
  using Join_ok [OF assms(1-3), of draws peer ord host conn] generate_loop_fresh [of "- 1" "GetRecentConf st" draws peer] assms(4,5)
  by (auto simp: GenerateNodeId_def ctl_send_def PushPendingConf_def)

text \<open>A cluster of three shards with a single node.\<close>

definition ex_node :: "nat list \<Rightarrow> node_conf" where
  "ex_node ids = \<lparr>nc_host = ''h'', nc_port = 1, nc_mmkvd_port = 2, nc_shard_ids = ids\<rparr>"

definition ex_ctler :: "pending_conf list \<Rightarrow> ctler" where
  "ex_ctler ps = \<lparr>ct_config = [(1, ex_node [0, 1, 2])], ct_pending = ps, ct_conns = Map.empty, ct_shard_num = 3, ct_session = (\<lambda>_. 0),
     ct_sent = [], ct_closed = [], ct_synced = []\<rparr>"

definition ex_join :: ctl_request where
  "ex_join = \<lparr>cr_operation = CONTROL_OP_ADD_NODE, cr_node_id = INVALID_NODE_ID, cr_sharder_port = 1, cr_mmkvd_port = 2, cr_shard_ids = []\<rparr>"

lemma ex_balanced: "balanced 3 [(1, ex_node [0, 1, 2])]" "balanced 3 [(1, ex_node [0, 1]), (5, ex_node [2])]"
  by (simp_all add: balanced_def ex_node_def upt_rec flip: numeral_2_eq_2)

theorem join_rebalances_witness:
  "\<exists>st p. Join [7] (\<lambda>c. c) ''h'' 4 ex_join (ex_ctler []) = Some st \<and> ct_pending st = [p] \<and> balanced 3 (pc_conf p) \<and> fst ` set (pc_conf p) = {1, 7}"
proof -
  have c: "GetRecentConf (ex_ctler []) = [(1, ex_node [0, 1, 2])]" "ct_shard_num (ex_ctler []) = 3" "ct_pending (ex_ctler []) = []"
    by (simp_all add: GetRecentConf_def ex_ctler_def)
  have g: "GenerateNodeId [7] (ex_ctler []) = Some 7" by (simp add: GenerateNodeId_def c)
  have r: "cr_node_id ex_join = INVALID_NODE_ID" by (simp add: ex_join_def)
  have b: "balanced (ct_shard_num (ex_ctler [])) (GetRecentConf (ex_ctler [])) \<or> GetRecentConf (ex_ctler []) = []"
    unfolding c using ex_balanced(1) by blast
  have "length (GetRecentConf (ex_ctler [])) < ct_shard_num (ex_ctler [])" by (simp add: c)
  from join_rebalances [OF r b this g, of "\<lambda>c. c" "''h''" 4] show ?thesis
    unfolding c by (fastforce simp: joined_def)
qed

section \<open>Several nodes at once\<close>

lemma joined_nodes: "joined n conf peer p infos \<Longrightarrow> map_of (pc_conf p) i = None \<longleftrightarrow> i \<noteq> peer \<and> map_of conf i = None"
  by (auto simp: joined_def map_of_eq_None_iff)

definition complete :: "node_id \<Rightarrow> ctl_request" where
  "complete i = \<lparr>cr_operation = CONTROL_OP_ADD_NODE_COMPLETE, cr_node_id = i, cr_sharder_port = 0, cr_mmkvd_port = 0, cr_shard_ids = []\<rparr>"

text \<open>Completing the front of the queue, with nobody waiting for what comes next.\<close>

lemma complete_front:
  assumes "ct_pending st = p # ps" "pc_state p = CONF_STATE_JOIN_NODE" "ct_conns st = Map.empty"
  shows "\<exists>st'. ControllorOperationComplete alive conn (complete (pc_node_id p)) CONF_STATE_JOIN_NODE st = Some st'
    \<and> ct_pending st' = ps \<and> ct_conns st' = Map.empty \<and> ct_config st' = pc_conf p"
  using assms by (cases ps) (simp_all add: ControllorOperationComplete_def complete_def PopPendingConf_def UpdateConfig_def ctl_send_def
      CheckPending.simps Let_def del: bind_Some_iff)

text \<open>
  C20. New configurations are computed from the front of the queue of pending ones: when two nodes join while a third is still
  pending, each is told that it has joined, and after all three have completed, the first of the two is not in the configuration.
\<close>

theorem concurrent_joins_lose_node:
  assumes "ct_pending st = [p]" "pc_state p = CONF_STATE_JOIN_NODE" "ct_conns st = Map.empty" "balanced (ct_shard_num st) (pc_conf p)"
    "length (pc_conf p) < ct_shard_num st" "generate_loop (- 1) (pc_conf p) d = Some i" "generate_loop (- 1) (pc_conf p) d' = Some i'" "i \<noteq> i'"
    "cr_node_id rq = INVALID_NODE_ID" "cr_node_id rq' = INVALID_NODE_ID" "\<And>c. mset (ord c) = mset c"
  shows "\<exists>st'. do { st \<leftarrow> Join d ord h c rq st;
                    st \<leftarrow> Join d' ord h' c' rq' st;
                    st \<leftarrow> ControllorOperationComplete alive c0 (complete (pc_node_id p)) CONF_STATE_JOIN_NODE st;
                    st \<leftarrow> ControllorOperationComplete alive c (complete i) CONF_STATE_JOIN_NODE st;
                    ControllorOperationComplete alive c' (complete i') CONF_STATE_JOIN_NODE st } = Some st'
    \<and> ct_pending st' = [] \<and> map_of (ct_config st') i = None \<and> map_of (ct_config st') i' \<noteq> None"
proof -
  have r: "GetRecentConf st = pc_conf p" using assms(1) by (simp add: GetRecentConf_def)
  from Join_ok [of rq st d i ord h c] assms r obtain p1 infos1 where p1:
      "Join d ord h c rq st = Some (ctl_send c \<lparr>cs_status = CONTROL_STATUS_OK, cs_node_id = Some i, cs_node_infos = infos1, cs_shard_num = Some (ct_shard_num st)\<rparr>
        ((PushPendingConf p1 st)\<lparr>ct_session := (ct_session st)(c := ucast INVALID_NODE_ID)\<rparr>))" (is "_ = Some ?st1")
      "joined (ct_shard_num st) (pc_conf p) i p1 infos1" by auto
  have s1: "ct_pending ?st1 = [p, p1]" "ct_conns ?st1 = Map.empty" "ct_shard_num ?st1 = ct_shard_num st" "GetRecentConf ?st1 = pc_conf p"
    using assms(1,3) by (simp_all add: ctl_send_def PushPendingConf_def GetRecentConf_def)
  from Join_ok [of rq' ?st1 d' i' ord h' c'] assms s1 obtain p2 infos2 where p2:
      "Join d' ord h' c' rq' ?st1 = Some (ctl_send c' \<lparr>cs_status = CONTROL_STATUS_OK, cs_node_id = Some i', cs_node_infos = infos2, cs_shard_num = Some (ct_shard_num st)\<rparr>
        ((PushPendingConf p2 ?st1)\<lparr>ct_session := (ct_session ?st1)(c' := ucast INVALID_NODE_ID)\<rparr>))" (is "_ = Some ?st2")
      "joined (ct_shard_num st) (pc_conf p) i' p2 infos2" by auto
  have s2: "ct_pending ?st2 = [p, p1, p2]" "ct_conns ?st2 = Map.empty" using s1 by (simp_all add: ctl_send_def PushPendingConf_def)
  have j: "pc_state p1 = CONF_STATE_JOIN_NODE" "pc_node_id p1 = i" "pc_state p2 = CONF_STATE_JOIN_NODE" "pc_node_id p2 = i'"
    using p1(2) p2(2) by (simp_all add: joined_def)
  from complete_front [OF s2(1) assms(2) s2(2), of alive c0] obtain st3 where
    st3: "ControllorOperationComplete alive c0 (complete (pc_node_id p)) CONF_STATE_JOIN_NODE ?st2 = Some st3" "ct_pending st3 = [p1, p2]" "ct_conns st3 = Map.empty" by blast
  from complete_front [OF st3(2) j(1) st3(3), of alive c] j(2) obtain st4 where
    st4: "ControllorOperationComplete alive c (complete i) CONF_STATE_JOIN_NODE st3 = Some st4" "ct_pending st4 = [p2]" "ct_conns st4 = Map.empty" by blast
  from complete_front [OF st4(2) j(3) st4(3), of alive c'] j(4) obtain st5 where
    st5: "ControllorOperationComplete alive c' (complete i') CONF_STATE_JOIN_NODE st4 = Some st5" "ct_pending st5 = []" "ct_config st5 = pc_conf p2" by blast
  have "map_of (pc_conf p) i = None" by (rule generate_loop_fresh [OF assms(6)])
  then have "map_of (pc_conf p2) i = None" "map_of (pc_conf p2) i' \<noteq> None" using joined_nodes [OF p2(2)] assms(8) by auto
  then show ?thesis using p1(1) p2(1) st3(1) st4(1) st5 by (simp del: bind_Some_iff)
qed

theorem concurrent_joins_lose_node_witness:
  "\<exists>st'. do { st \<leftarrow> Join [7] (\<lambda>c. c) ''h'' 4 ex_join (ex_ctler [\<lparr>pc_conf = [(1, ex_node [0, 1]), (5, ex_node [2])], pc_state = CONF_STATE_JOIN_NODE, pc_node_id = 5\<rparr>]);
             st \<leftarrow> Join [8] (\<lambda>c. c) ''h'' 6 ex_join st;
             st \<leftarrow> ControllorOperationComplete (\<lambda>_. True) 2 (complete 5) CONF_STATE_JOIN_NODE st;
             st \<leftarrow> ControllorOperationComplete (\<lambda>_. True) 4 (complete 7) CONF_STATE_JOIN_NODE st;
             ControllorOperationComplete (\<lambda>_. True) 6 (complete 8) CONF_STATE_JOIN_NODE st } = Some st'
     \<and> ct_pending st' = [] \<and> map_of (ct_config st') 7 = None \<and> map_of (ct_config st') 8 \<noteq> None"
proof -
  let ?p = "\<lparr>pc_conf = [(1, ex_node [0, 1]), (5, ex_node [2])], pc_state = CONF_STATE_JOIN_NODE, pc_node_id = 5\<rparr>"
  have n: "pc_node_id ?p = 5" by simp
  show ?thesis
    by (rule concurrent_joins_lose_node [of "ex_ctler [?p]" ?p, unfolded n])
      (use ex_balanced(2) in \<open>simp_all add: ex_ctler_def ex_join_def\<close>)
qed

section \<open>Leaving\<close>

lemma spread_None: "cs \<noteq> [] \<Longrightarrow> a \<le> shard_size (hd cs) \<Longrightarrow> spread a e removed cs = None"
  by (cases cs) (auto simp: assertion_def)

lemma leave_loop_fails:
  assumes "balanced n conf" "3 \<le> length conf" "length conf \<le> n" "map_of conf i = Some c" "mset conf' = mset conf"
  shows "spread (length (nc_shard_ids c) div (length conf - 1)) e removed (filter (\<lambda>x. fst x \<noteq> i) conf') = None"
proof (rule spread_None)
  let ?q = "n div length conf" and ?xs = "filter (\<lambda>x. fst x \<noteq> i) conf'"
  have s: "set conf' = set conf" "length conf' = length conf" "balanced n conf'"
    using mset_eq_setD [OF assms(5)] mset_eq_length [OF assms(5)] assms(1) balanced_mset [OF assms(5)] by simp_all
  have size: "shard_size x \<in> {?q, ?q + 1}" if "x \<in> set conf" for x using assms(1) that by (simp add: balanced_def)
  have "distinct (map fst conf')" using s(3) by (simp add: balanced_def)
  moreover have "filter (\<lambda>x. fst x \<noteq> i) xs = xs" if "\<forall>x \<in> set xs. i \<noteq> fst x" for xs :: configuration using that by (intro filter_True) auto
  ultimately have "length conf' \<le> Suc (length ?xs)" by (induction conf') (auto simp: image_iff)
  then show ne: "?xs \<noteq> []" using s(2) assms(2) by auto
  have "(i, c) \<in> set conf" using assms(4) by (rule map_of_SomeD)
  then have c: "length (nc_shard_ids c) \<le> ?q + 1" using size [of "(i, c)"] by auto
  have "1 \<le> ?q" using assms(2,3) by (auto simp: Suc_le_eq div_greater_zero_iff)
  have "length (nc_shard_ids c) div (length conf - 1) \<le> (?q + 1) div (length conf - 1)" using c by (rule div_le_mono)
  also have "\<dots> \<le> (?q + 1) div 2" using assms(2) by (intro div_le_mono2) simp_all
  also have "\<dots> \<le> ?q" using \<open>1 \<le> ?q\<close> by linarith
  also have "?q \<le> shard_size (hd ?xs)"
  proof -
    have "hd ?xs \<in> set conf" using ne hd_in_set [OF ne] s(1) by auto
    from size [OF this] show ?thesis by auto
  qed
  finally show "length (nc_shard_ids c) div (length conf - 1) \<le> shard_size (hd ?xs)" .
qed

text \<open>
  C21. No node can leave. The session of a node that joined keeps, cut to 32 bits, the invalid identifier of its request and
  not the one it was given, so the assertion on it fails; and even with the right identifier, the assertion that the other
  nodes have fewer shards than they are to receive fails in every balanced cluster of three or more nodes.
\<close>

theorem leave_asserts:
  assumes "balanced n (GetRecentConf st)" "length (GetRecentConf st) \<le> n" "map_of (GetRecentConf st) (cr_node_id rq) = Some c"
    "cr_node_id rq \<noteq> INVALID_NODE_ID" "\<And>c. mset (ord c) = mset c"
    "ct_session st conn = ucast INVALID_NODE_ID \<and> cr_node_id rq \<noteq> 0xFFFFFFFF \<or> 3 \<le> length (GetRecentConf st)"
  shows "Leave ord conn rq st = None"
proof (cases "ucast (ct_session st conn) = cr_node_id rq")
  case False
  then show ?thesis using assms(3,4) by (simp add: Leave_def assertion_def Let_def)
next
  case True
  have "ucast (ucast INVALID_NODE_ID :: 32 word) = (0xFFFFFFFF :: 64 word)" by code_simp
  with True assms(6) have l: "3 \<le> length (GetRecentConf st)" by auto
  from leave_loop_fails [OF assms(1) l assms(2,3) assms(5)] show ?thesis
    using True l assms(3,4) by (simp add: Leave_def assertion_def Let_def)
qed

theorem leave_asserts_witness:
  "Leave (\<lambda>c. c) 4 (complete 5)
     ((ex_ctler [\<lparr>pc_conf = [(1, ex_node [0, 1]), (5, ex_node [2])], pc_state = CONF_STATE_JOIN_NODE, pc_node_id = 5\<rparr>])\<lparr>ct_session := (\<lambda>_. ucast INVALID_NODE_ID)\<rparr>) = None"
  by (rule leave_asserts [of 3 _ _ "ex_node [2]"]) (use ex_balanced(2) in \<open>simp_all add: GetRecentConf_def ex_ctler_def complete_def INVALID_NODE_ID_def\<close>)

end
