(* ===== verification/Spec2Isabelle.thy ===== *)
theory Spec2Isabelle
  imports AvlProps Blist TreeHashTable HashSet Caches VsetProps ServerProps ClientProps TrackerProps
begin

text \<open>
  A verification development of mmkv, a memory key-value store with a binary protocol, expirations, replacement, a request
  log and sharding. Paths below are under \<^verbatim>\<open>src/mmkv/\<close>.

  \<^bold>\<open>The program.\<close> A client turns a command line into a request (\<^verbatim>\<open>client/\<close>, \<^verbatim>\<open>util/tokenizer.h\<close>), serialises it
  and frames it with size, tag and checksum (\<^verbatim>\<open>protocol/\<close>). The server's codec cuts the byte stream into messages and
  hands them to a callback (\<^verbatim>\<open>server/mmkv_server.cc\<close>), which may log the request (\<^verbatim>\<open>disk/\<close>) and has the
  \<^verbatim>\<open>DatabaseManager\<close> (\<^verbatim>\<open>storage/db.cc\<close>) pick one of its instances by the hash of the key. An instance
  (\<^verbatim>\<open>db/kvdb.cc\<close>) keeps its keys in a hash table whose buckets are AVL trees, with strings, lists, sorted sets, maps
  and sets as values (\<^verbatim>\<open>db/vset.cc\<close>, \<^verbatim>\<open>algo/\<close>), their expirations in a second table, and the order of
  use in a cache (\<^verbatim>\<open>replacement/\<close>). A shard controller (\<^verbatim>\<open>tracker/\<close>) distributes shards over nodes.

  \<^bold>\<open>Style.\<close> Operations are functions on records with the state passed explicitly. Where the code dereferences null, fails
  an assertion, indexes out of range or does not return, the result is \<open>None\<close>; status codes are values. Trees and lists whose
  sharing does not matter are inductive data; the doubly linked list has an explicit heap. Sizes and hashes are \<open>64 word\<close>
  where the code masks or wraps them. Third-party code is a parameter: the variable-length integers and byte orders
  (record \<open>wire\<close>, laws \<open>wire_ok\<close>, \<open>small_ints\<close>), the bit patterns of doubles (record \<open>conv\<close>), XXH32 and the hash functions,
  the searches of string views (\<open>view_ok\<close>), \<^verbatim>\<open>strtod\<close>, the iteration order of protobuf maps. Each law is met by a concrete
  instance in the witnesses (\<open>ex_wire\<close>, \<open>ex_view\<close>, \<open>ex_env\<close>).

  \<^bold>\<open>Theories, in order.\<close>
  \<^item> \<open>Prelude\<close>: shared facts, keyed association lists as maps, the contract of comparators.
  \<^item> \<open>AvlUtil\<close>, \<open>AvlTree\<close>, \<open>AvlProps\<close> (\<^verbatim>\<open>algo/internal/avl_*\<close>): rotations, insertion and erasure with the fix-up walk
    as zippers, iterators and bounds. Balance, order and contents are kept, operations return.
  \<^item> \<open>Blist\<close>, \<open>Slist\<close> (\<^verbatim>\<open>algo/blist.h\<close>, \<^verbatim>\<open>slist.h\<close>): linked lists; the former on a heap, refining a deque.
  \<^item> \<open>Interfaces\<close>: the contract of a dictionary as a locale. The other contracts (comparators, cursors of buckets, caches) are
    locales of the theories that use them; each is interpreted on the code's definitions.
  \<^item> \<open>HashTable\<close>, \<open>TreeHashTable\<close>, \<open>HashIter\<close>, \<open>HashSet\<close>, \<open>ComparatorUtil\<close>: incremental rehashing, both tables as maps for any
    sequence of operations, iteration, set algebra, the string comparator.
  \<^item> \<open>Caches\<close> (\<^verbatim>\<open>replacement/\<close>): LRU and MRU.
  \<^item> \<open>Vset\<close>, \<open>VsetProps\<close> (\<^verbatim>\<open>db/vset.cc\<close>): the sorted set, its tree and dictionary in agreement, its queries.
  \<^item> \<open>KvdbBase\<close>, \<open>Kvdb\<close> (\<^verbatim>\<open>db/kvdb.cc\<close>): every command of an instance. \<open>KvdbInv\<close> defines the abstract database \<open>adb\<close> and the
    relation \<open>db_rel\<close> to it; \<open>KvdbStr\<close>, \<open>KvdbCont\<close>, \<open>KvdbKeys\<close> prove that the commands refine their specifications on every
    branch, \<open>KvdbProps\<close> states it per family.
  \<^item> \<open>Messages\<close>, \<open>Storage\<close>, \<open>StorageProps\<close> (\<^verbatim>\<open>storage/db.cc\<close>): requests, \<^verbatim>\<open>Execute\<close>, the manager. Sequences of requests
    are answered as \<open>spec_requests\<close> prescribes.
  \<^item> \<open>ManagerProps\<close>: specifications are local to their key, so a manager with any number of instances is one database.
  \<^item> \<open>Wire\<close>, \<open>Protocol\<close>, \<open>ProtocolProps\<close> (\<^verbatim>\<open>protocol/mmbp_*\<close>): serialisation, both parsers, frames. Round trips, agreement
    of the parsers, delivery for any cutting of the stream.
  \<^item> \<open>Client\<close>, \<open>ClientProps\<close>: tokens, command formats, the translator, from a line to the request it describes.
  \<^item> \<open>Server\<close>, \<open>ServerProps\<close>: request log, message callback, recovery. From bytes to bytes the server answers as one abstract
    database; the log keeps its order for any interleaving; what is not logged, and what recovery makes of the log.
  \<^item> \<open>Tracker\<close>, \<open>TrackerProps\<close> (\<^verbatim>\<open>tracker/\<close>): joining keeps the shards partitioned and balanced; what concurrent joins
    and leaving do.

  \<^bold>\<open>Bounds and fuel.\<close> Loops of the containers recurse on data or with a measure. The range-for loops take
  fuel, one round more than there are elements, which \<open>HashIter\<close> proves to be enough. \<open>self_loop\<close> is a partial function that is
  proved to diverge in the case at hand.
  \<open>codec_loop\<close> is a partial function, and \<open>ProtocolProps\<close> shows that it returns. \<open>tokens\<close> takes the length of the line as fuel, and
  \<open>tokens_words\<close> shows that it is enough. Commands are specified for keys without NUL, since the comparator stops there, and
  without replacement and shards, whose code is modelled but not specified. Times below \<open>2 ^ 64\<close> wrap as the code's do.

  \<^bold>\<open>Not modelled.\<close> The LFU cache (it orders keys by addresses); allocators and allocation failure; locks (requests execute one
  after the other); the event loop, sockets and timers of kanon; the terminal, option and configuration parsing; files and
  \<^verbatim>\<open>fsync\<close>; the client of the shard controller, the sharders, the configuration server and the forwarder, which are message
  passing over generated protobuf code; the deprecated \<^verbatim>\<open>MmbpCodec::Parse\<close>; debug printing; NaN weights.
\<close>

end
